(* ===== verification/Glider_Prelude.thy ===== *)
theory Glider_Prelude
  imports Main "HOL-Library.Sublist" "HOL-Library.Word" "HOL-Library.Char_ord" "HOL-Library.List_Lexorder"
begin

text \<open>
  Shared vocabulary of the development: Go errors as values, Go's 64-bit and 32-bit signed integers,
  derivation terms for contexts, dynamically typed Redis field values, and the list and option
  lemmas that several components use.  The collection \<open>svc_simps\<close> gathers what publishing keeps of the service's
  state; \<open>transition_system\<close> is the interface of a state machine with an invariant, which every step
  relation of the development interprets.
\<close>

named_theorems svc_simps

section \<open>Errors\<close>

text \<open>
  A Go \<open>error\<close> is either one of the sentinels that the source compares with \<open>errors.Is\<close>, a plain
  message (\<open>errors.New\<close>, \<open>fmt.Errorf\<close> without \<open>%w\<close>, or the text of a server reply), or a message
  that wraps another error (\<open>fmt.Errorf\<close> with \<open>%w\<close>).
\<close>

datatype go_error =
    ErrMsg string
  | ErrNotExist
  | ErrTooLong
  | ContextCanceled
  | ContextDeadlineExceeded
  | RedisNil
  | ErrWALFull
  | ErrWALDiskFull
  | ErrPublishPipelineStopped
  | ErrPublishPipelineQueueFull
  | ErrDispatcherNotFound
  | ErrDispatcherClosed
  | ErrDispatcherAckBacklog
  | Wrapped string go_error

type_synonym 'a go_result = "go_error + 'a"

primrec Error :: "go_error \<Rightarrow> string" where
  "Error (ErrMsg m) = m"
| "Error ErrNotExist = ''file does not exist''"
| "Error ErrTooLong = ''bufio.Scanner: token too long''"
| "Error ContextCanceled = ''context canceled''"
| "Error ContextDeadlineExceeded = ''context deadline exceeded''"
| "Error RedisNil = ''redis: nil''"
| "Error ErrWALFull = ''wal entry limit reached''"
| "Error ErrWALDiskFull = ''wal disk byte limit reached''"
| "Error ErrPublishPipelineStopped = ''publish pipeline is stopped''"
| "Error ErrPublishPipelineQueueFull = ''publish pipeline queue is full''"
| "Error ErrDispatcherNotFound = ''dispatcher not found for stream/group''"
| "Error ErrDispatcherClosed = ''dispatcher is closed''"
| "Error ErrDispatcherAckBacklog = ''dispatcher ack queue is full''"
| "Error (Wrapped m e) = m @ Error e"

text \<open>\<open>errors.Is\<close>: the error itself or something it wraps is the target.\<close>

primrec unwraps :: "go_error \<Rightarrow> go_error list" where
  "unwraps (ErrMsg m) = []"
| "unwraps ErrNotExist = []"
| "unwraps ErrTooLong = []"
| "unwraps ContextCanceled = []"
| "unwraps ContextDeadlineExceeded = []"
| "unwraps RedisNil = []"
| "unwraps ErrWALFull = []"
| "unwraps ErrWALDiskFull = []"
| "unwraps ErrPublishPipelineStopped = []"
| "unwraps ErrPublishPipelineQueueFull = []"
| "unwraps ErrDispatcherNotFound = []"
| "unwraps ErrDispatcherClosed = []"
| "unwraps ErrDispatcherAckBacklog = []"
| "unwraps (Wrapped m e) = e # unwraps e"

definition errors_Is :: "go_error \<Rightarrow> go_error \<Rightarrow> bool" where
  "errors_Is e t \<longleftrightarrow> t \<in> set (e # unwraps e)"

lemma errors_Is_refl [simp]: "errors_Is e e"
  by (simp add: errors_Is_def)

lemma errors_Is_Wrapped [simp]: "errors_Is (Wrapped m e) t \<longleftrightarrow> Wrapped m e = t \<or> errors_Is e t"
  by (auto simp: errors_Is_def)

lemma errors_Is_simple:
  "errors_Is (ErrMsg m) t \<longleftrightarrow> ErrMsg m = t"
  "errors_Is ContextCanceled t \<longleftrightarrow> ContextCanceled = t"
  "errors_Is ContextDeadlineExceeded t \<longleftrightarrow> ContextDeadlineExceeded = t"
  "errors_Is RedisNil t \<longleftrightarrow> RedisNil = t"
  "errors_Is ErrWALFull t \<longleftrightarrow> ErrWALFull = t"
  "errors_Is ErrWALDiskFull t \<longleftrightarrow> ErrWALDiskFull = t"
  "errors_Is ErrNotExist t \<longleftrightarrow> ErrNotExist = t"
  "errors_Is ErrTooLong t \<longleftrightarrow> ErrTooLong = t"
  "errors_Is ErrPublishPipelineStopped t \<longleftrightarrow> ErrPublishPipelineStopped = t"
  "errors_Is ErrPublishPipelineQueueFull t \<longleftrightarrow> ErrPublishPipelineQueueFull = t"
  "errors_Is ErrDispatcherNotFound t \<longleftrightarrow> ErrDispatcherNotFound = t"
  "errors_Is ErrDispatcherClosed t \<longleftrightarrow> ErrDispatcherClosed = t"
  "errors_Is ErrDispatcherAckBacklog t \<longleftrightarrow> ErrDispatcherAckBacklog = t"
  by (auto simp: errors_Is_def)

declare errors_Is_simple [simp]

section \<open>Machine integers\<close>

text \<open>
  Go's \<open>int64\<close> values are integers between \<open>MinInt64\<close> and \<open>MaxInt64\<close>; \<open>int64_wrap\<close> is the two's
  complement wrap-around that every arithmetic operation of the source performs, \<open>int32_wrap\<close> the
  conversion \<open>int32(x)\<close>.  Unsigned 64-bit values are \<open>64 word\<close>.
\<close>

type_synonym uint64 = "64 word"

definition int64_wrap :: "int \<Rightarrow> int" where
  "int64_wrap x = sint (word_of_int x :: 64 word)"

definition int32_wrap :: "int \<Rightarrow> int" where
  "int32_wrap x = sint (word_of_int x :: 32 word)"

abbreviation MaxInt64 :: int where "MaxInt64 \<equiv> 9223372036854775807"
abbreviation MinInt64 :: int where "MinInt64 \<equiv> - 9223372036854775808"

lemma int64_wrap_id: "MinInt64 \<le> x \<Longrightarrow> x \<le> MaxInt64 \<Longrightarrow> int64_wrap x = x"
  unfolding int64_wrap_def by (simp add: signed_take_bit_int_eq_self sint_sbintrunc')

lemma int64_wrap_range: "MinInt64 \<le> int64_wrap x \<and> int64_wrap x \<le> MaxInt64"
  using sint_ge [of "word_of_int x :: 64 word"] sint_lt [of "word_of_int x :: 64 word"]
  by (simp add: int64_wrap_def)

lemma int32_wrap_id: "- 2147483648 \<le> x \<Longrightarrow> x \<le> 2147483647 \<Longrightarrow> int32_wrap x = x"
  unfolding int32_wrap_def by (simp add: signed_take_bit_int_eq_self sint_sbintrunc')

section \<open>Contexts\<close>

text \<open>
  A \<open>context.Context\<close> is represented by the way it was derived: from the request's context
  (\<open>r.Context()\<close>, the RPC's context), from \<open>context.Background()\<close>, by \<open>WithTimeout\<close> (in milliseconds)
  or by \<open>WithoutCancel\<close>.  What \<open>Err()\<close> answers is a parameter of the model.
\<close>

datatype ctx = RequestCtx | BackgroundCtx | WithTimeout ctx int | WithoutCancel ctx | WithCancel ctx

section \<open>Dynamically typed values\<close>

text \<open>A Go \<open>any\<close> as it occurs in the fields of a Redis stream entry.\<close>

datatype goany = GoNil | GoString string | GoBytes string | GoInt int

section \<open>Shared list and option lemmas\<close>

lemma length_filter_concat_singletons:
  "length (filter P (xs @ [x])) = length (filter P xs) + (if P x then 1 else 0)"
  by simp

lemma map_filter_append: "List.map_filter f (xs @ ys) = List.map_filter f xs @ List.map_filter f ys"
  by (simp add: map_filter_def)

lemma takeWhile_dropWhile_length: "length (takeWhile P xs) + length (dropWhile P xs) = length xs"
  by (metis length_append takeWhile_dropWhile_id)

lemma distinct_map_fst_in: "distinct (map fst kvs) \<Longrightarrow> (k, v) \<in> set kvs \<Longrightarrow> map_of kvs k = Some v"
  by (rule map_of_is_SomeI)

section \<open>Transition systems\<close>

text \<open>
  The interface of a component seen as a state machine: initial states, steps and an invariant that holds
  initially and is kept by every step.  What clients get is the invariant in every reachable state and
  along every run.
\<close>

locale transition_system =
  fixes init :: "'s \<Rightarrow> bool"
    and step :: "'s \<Rightarrow> 's \<Rightarrow> bool"
    and inv :: "'s \<Rightarrow> bool"
  assumes init_inv: "init s \<Longrightarrow> inv s"
    and step_inv: "inv s \<Longrightarrow> step s t \<Longrightarrow> inv t"
begin

lemma steps_inv: "step\<^sup>*\<^sup>* s t \<Longrightarrow> inv s \<Longrightarrow> inv t"
  by (induction rule: rtranclp_induct) (auto intro: step_inv)

lemma reachable_inv: "init s \<Longrightarrow> step\<^sup>*\<^sup>* s t \<Longrightarrow> inv t"
  using init_inv steps_inv by blast

end

end
