(* ===== verification/Go_Strings.thy ===== *)
theory Go_Strings
  imports Glider_Prelude
begin

text \<open>
  The functions of Go's \<open>strings\<close> and \<open>strconv\<close> packages that the source calls, on byte strings.
  A Go string is a sequence of bytes, as \<open>char list\<close> is.  \<open>TrimSpace\<close> treats the white space of
  Unicode in its UTF-8 encoding.  \<open>ToLower\<close> and \<open>ToUpper\<close> map the ASCII letters and the four
  non-ASCII letters whose lower or upper case is an ASCII letter; every other byte is kept, which the
  source cannot tell from Go's mapping because it only compares the result with ASCII words.
\<close>

section \<open>TrimSpace\<close>

definition ascii_space :: "char \<Rightarrow> bool" where
  "ascii_space c \<longleftrightarrow> c \<in> set [CHR 0x09, CHR 0x0A, CHR 0x0B, CHR 0x0C, CHR 0x0D, CHR 0x20]"

definition two_byte_space :: "char \<Rightarrow> char \<Rightarrow> bool" where
  "two_byte_space a b \<longleftrightarrow> a = CHR 0xC2 \<and> b \<in> set [CHR 0x85, CHR 0xA0]"

definition three_byte_space :: "char \<Rightarrow> char \<Rightarrow> char \<Rightarrow> bool" where
  "three_byte_space a b c \<longleftrightarrow>
     a = CHR 0xE1 \<and> b = CHR 0x9A \<and> c = CHR 0x80
   \<or> a = CHR 0xE2 \<and> b = CHR 0x80 \<and>
       c \<in> set [CHR 0x80, CHR 0x81, CHR 0x82, CHR 0x83, CHR 0x84, CHR 0x85, CHR 0x86, CHR 0x87,
                CHR 0x88, CHR 0x89, CHR 0x8A, CHR 0xA8, CHR 0xA9, CHR 0xAF]
   \<or> a = CHR 0xE2 \<and> b = CHR 0x81 \<and> c = CHR 0x9F
   \<or> a = CHR 0xE3 \<and> b = CHR 0x80 \<and> c = CHR 0x80"

text \<open>Length of the white space rune at the front of a string, or at the front of a reversed one.\<close>

fun space_prefix :: "string \<Rightarrow> nat" where
  "space_prefix [] = 0"
| "space_prefix [a] = (if ascii_space a then 1 else 0)"
| "space_prefix [a, b] = (if ascii_space a then 1 else if two_byte_space a b then 2 else 0)"
| "space_prefix (a # b # c # s) =
     (if ascii_space a then 1 else if two_byte_space a b then 2
      else if three_byte_space a b c then 3 else 0)"

fun space_suffix_rev :: "string \<Rightarrow> nat" where
  "space_suffix_rev [] = 0"
| "space_suffix_rev [a] = (if ascii_space a then 1 else 0)"
| "space_suffix_rev [b, a] = (if ascii_space b then 1 else if two_byte_space a b then 2 else 0)"
| "space_suffix_rev (c # b # a # s) =
     (if ascii_space c then 1 else if two_byte_space b c then 2
      else if three_byte_space a b c then 3 else 0)"

function trim_with :: "(string \<Rightarrow> nat) \<Rightarrow> string \<Rightarrow> string" where
  "trim_with sp s = (if s = [] \<or> sp s = 0 then s else trim_with sp (drop (sp s) s))"
  by pat_completeness auto
termination
  by (relation "measure (\<lambda>(sp, s). length s)") auto

declare trim_with.simps [simp del]

definition TrimSpace :: "string \<Rightarrow> string" where
  "TrimSpace s = rev (trim_with space_suffix_rev (rev (trim_with space_prefix s)))"

lemma trim_with_Nil [simp]: "trim_with sp [] = []"
  by (subst trim_with.simps) simp

lemma trim_with_stop: "sp s = 0 \<Longrightarrow> trim_with sp s = s"
  by (subst trim_with.simps) simp

lemma trim_with_suffix: "suffix (trim_with sp s) s"
proof (induction sp s rule: trim_with.induct)
  case (1 sp s)
  show ?case
  proof (cases "s = [] \<or> sp s = 0")
    case True
    then show ?thesis by (subst trim_with.simps) simp
  next
    case False
    with "1.IH" have "suffix (trim_with sp (drop (sp s) s)) (drop (sp s) s)" by simp
    then have "suffix (trim_with sp (drop (sp s) s)) s"
      using suffix_drop suffix_order.trans by blast
    with False show ?thesis by (subst trim_with.simps) simp
  qed
qed

lemma trim_with_done: "sp [] = 0 \<Longrightarrow> sp (trim_with sp s) = 0"
proof (induction sp s rule: trim_with.induct)
  case (1 sp s)
  then show ?case
    by (cases "s = [] \<or> sp s = 0") (subst trim_with.simps; auto)+
qed

lemma space_prefix_mono: "prefix t s \<Longrightarrow> space_prefix s = 0 \<Longrightarrow> space_prefix t = 0"
  by (cases t rule: space_prefix.cases; cases s rule: space_prefix.cases)
    (auto split: if_splits)

lemma trim_right_prefix: "prefix (rev (trim_with sp (rev s))) s"
  using trim_with_suffix [of sp "rev s"] by (simp add: suffix_to_prefix)

lemma TrimSpace_no_space_prefix: "space_prefix (TrimSpace s) = 0"
proof -
  have "space_prefix (trim_with space_prefix s) = 0"
    by (rule trim_with_done) simp
  then show ?thesis
    unfolding TrimSpace_def
    using space_prefix_mono trim_right_prefix by blast
qed

lemma TrimSpace_no_space_suffix: "space_suffix_rev (rev (TrimSpace s)) = 0"
  unfolding TrimSpace_def by (simp add: trim_with_done)

lemma TrimSpace_id:
  "space_prefix s = 0 \<Longrightarrow> space_suffix_rev (rev s) = 0 \<Longrightarrow> TrimSpace s = s"
  by (simp add: TrimSpace_def trim_with_stop)

lemma TrimSpace_idem [simp]: "TrimSpace (TrimSpace s) = TrimSpace s"
  by (rule TrimSpace_id [OF TrimSpace_no_space_prefix TrimSpace_no_space_suffix])

lemma TrimSpace_Nil [simp]: "TrimSpace [] = []"
  by (simp add: TrimSpace_def)

lemma set_TrimSpace: "set (TrimSpace s) \<subseteq> set s"
proof -
  have "set (rev (trim_with space_suffix_rev (rev (trim_with space_prefix s))))
      \<subseteq> set (trim_with space_prefix s)"
    by (rule set_mono_prefix [OF trim_right_prefix])
  also have "\<dots> \<subseteq> set s"
    by (rule set_mono_suffix [OF trim_with_suffix])
  finally show ?thesis by (simp add: TrimSpace_def)
qed

text \<open>A string that starts and ends with a printable ASCII byte is not trimmed.\<close>

definition ascii_visible :: "char \<Rightarrow> bool" where
  "ascii_visible c \<longleftrightarrow> 33 \<le> (of_char c :: nat) \<and> (of_char c :: nat) \<le> 126"

lemma ascii_visible_not_space:
  assumes "ascii_visible c"
  shows "\<not> ascii_space c" "c \<noteq> CHR 0xC2" "c \<noteq> CHR 0xE1" "c \<noteq> CHR 0xE2" "c \<noteq> CHR 0xE3"
    "\<not> two_byte_space a c" "\<not> three_byte_space a b c"
  using assms by (auto simp: ascii_visible_def ascii_space_def two_byte_space_def three_byte_space_def)

lemma space_prefix_visible: "ascii_visible c \<Longrightarrow> space_prefix (c # s) = 0"
  by (cases "c # s" rule: space_prefix.cases)
    (auto simp: ascii_visible_not_space two_byte_space_def three_byte_space_def)

lemma space_suffix_visible: "ascii_visible c \<Longrightarrow> space_suffix_rev (c # s) = 0"
  by (cases "c # s" rule: space_suffix_rev.cases) (auto simp: ascii_visible_not_space)

lemma TrimSpace_visible:
  assumes "s \<noteq> []" "ascii_visible (hd s)" "ascii_visible (last s)"
  shows "TrimSpace s = s"
proof (rule TrimSpace_id)
  from assms show "space_prefix s = 0"
    by (cases s) (simp_all add: space_prefix_visible)
  from assms(1) have "rev s = last s # rev (butlast s)"
    by (metis append_butlast_last_id rev_eq_Cons_iff rev_rev_ident)
  then show "space_suffix_rev (rev s) = 0"
    using assms(3) by (simp only: space_suffix_visible)
qed

text \<open>Text that is already trimmed stays so when it is joined by a visible delimiter.\<close>

lemma space_prefix_delim:
  assumes "space_prefix s = 0" "s \<noteq> []" "ascii_visible d"
  shows "space_prefix (s @ d # t) = 0"
proof -
  have d: "\<not> two_byte_space a d" "\<not> three_byte_space a d b" "\<not> three_byte_space a b d" for a b
    using assms(3) by (auto simp: ascii_visible_def two_byte_space_def three_byte_space_def)
  show ?thesis
    using assms(1,2)
    by (cases s rule: space_prefix.cases; cases t) (auto simp: d split: if_splits)
qed

lemma space_suffix_delim:
  assumes "space_suffix_rev s = 0" "s \<noteq> []" "ascii_visible d"
  shows "space_suffix_rev (s @ d # t) = 0"
proof -
  have d: "\<not> two_byte_space d a" "\<not> three_byte_space d a b" "\<not> three_byte_space a d b" for a b
    using assms(3) by (auto simp: ascii_visible_def two_byte_space_def three_byte_space_def)
  show ?thesis
    using assms(1,2)
    by (cases s rule: space_suffix_rev.cases; cases t) (auto simp: d split: if_splits)
qed

lemma TrimSpace_delim:
  assumes "TrimSpace a = a" "a \<noteq> []" "TrimSpace b = b" "b \<noteq> []" "ascii_visible d"
  shows "TrimSpace (a @ d # b) = a @ d # b"
proof (rule TrimSpace_id)
  have "space_prefix a = 0" by (metis assms(1) TrimSpace_no_space_prefix)
  then show "space_prefix (a @ d # b) = 0" by (rule space_prefix_delim) (use assms in auto)
  have "space_suffix_rev (rev b) = 0" by (metis assms(3) TrimSpace_no_space_suffix)
  then have "space_suffix_rev (rev b @ d # rev a) = 0" by (rule space_suffix_delim) (use assms in auto)
  then show "space_suffix_rev (rev (a @ d # b)) = 0" by simp
qed

section \<open>Case mapping\<close>

definition lower_byte :: "char \<Rightarrow> char" where
  "lower_byte c =
     (if 65 \<le> (of_char c :: nat) \<and> (of_char c :: nat) \<le> 90 then char_of ((of_char c :: nat) + 32) else c)"

definition upper_byte :: "char \<Rightarrow> char" where
  "upper_byte c =
     (if 97 \<le> (of_char c :: nat) \<and> (of_char c :: nat) \<le> 122 then char_of ((of_char c :: nat) - 32) else c)"

text \<open>
  U+0130 (bytes C4 B0) and U+212A (bytes E2 84 AA) are the non-ASCII letters with lower case
  \<open>i\<close> and \<open>k\<close>; U+0131 (C4 B1) and U+017F (C5 BF) those with upper case \<open>I\<close> and \<open>S\<close>.
\<close>

fun ToLower :: "string \<Rightarrow> string" where
  "ToLower [] = []"
| "ToLower [a] = [lower_byte a]"
| "ToLower [a, b] =
     (if a = CHR 0xC4 \<and> b = CHR 0xB0 then ''i'' else lower_byte a # ToLower [b])"
| "ToLower (a # b # c # s) =
     (if a = CHR 0xC4 \<and> b = CHR 0xB0 then CHR ''i'' # ToLower (c # s)
      else if a = CHR 0xE2 \<and> b = CHR 0x84 \<and> c = CHR 0xAA then CHR ''k'' # ToLower s
      else lower_byte a # ToLower (b # c # s))"

fun ToUpper :: "string \<Rightarrow> string" where
  "ToUpper [] = []"
| "ToUpper [a] = [upper_byte a]"
| "ToUpper (a # b # s) =
     (if a = CHR 0xC4 \<and> b = CHR 0xB1 then CHR ''I'' # ToUpper s
      else if a = CHR 0xC5 \<and> b = CHR 0xBF then CHR ''S'' # ToUpper s
      else upper_byte a # ToUpper (b # s))"

section \<open>Searching and splitting\<close>

fun strip_prefix :: "string \<Rightarrow> string \<Rightarrow> string option" where
  "strip_prefix [] s = Some s"
| "strip_prefix (p # ps) [] = None"
| "strip_prefix (p # ps) (c # s) = (if p = c then strip_prefix ps s else None)"

definition HasPrefix :: "string \<Rightarrow> string \<Rightarrow> bool" where
  "HasPrefix s p \<longleftrightarrow> strip_prefix p s \<noteq> None"

text \<open>\<open>strings.Cut\<close>: the text before and after the first occurrence of the separator.\<close>

fun Cut :: "string \<Rightarrow> string \<Rightarrow> (string \<times> string) option" where
  "Cut [] sep = map_option (Pair []) (strip_prefix sep [])"
| "Cut (c # s) sep =
     (case strip_prefix sep (c # s) of
        Some r \<Rightarrow> Some ([], r)
      | None \<Rightarrow> map_option (\<lambda>(a, b). (c # a, b)) (Cut s sep))"

definition Contains :: "string \<Rightarrow> string \<Rightarrow> bool" where
  "Contains s sub \<longleftrightarrow> Cut s sub \<noteq> None"

text \<open>\<open>strings.Split\<close> with a one-byte separator, \<open>strings.SplitN\<close> with \<open>n = 2\<close>, \<open>strings.Join\<close>.\<close>

fun SplitByte :: "char \<Rightarrow> string \<Rightarrow> string list" where
  "SplitByte d [] = [[]]"
| "SplitByte d (c # s) =
     (if c = d then [] # SplitByte d s
      else (case SplitByte d s of [] \<Rightarrow> [[c]] | p # ps \<Rightarrow> (c # p) # ps))"

definition SplitN2 :: "string \<Rightarrow> string \<Rightarrow> string list" where
  "SplitN2 s sep = (case Cut s sep of None \<Rightarrow> [s] | Some (a, b) \<Rightarrow> [a, b])"

fun Join :: "string list \<Rightarrow> string \<Rightarrow> string" where
  "Join [] sep = []"
| "Join [x] sep = x"
| "Join (x # y # zs) sep = x @ sep @ Join (y # zs) sep"

lemma strip_prefix_append [simp]: "strip_prefix p (p @ s) = Some s"
  by (induction p) auto

lemma strip_prefix_Some: "strip_prefix p s = Some r \<longleftrightarrow> s = p @ r"
  by (induction p s rule: strip_prefix.induct) auto

lemma HasPrefix_iff: "HasPrefix s p \<longleftrightarrow> prefix p s"
  by (auto simp: HasPrefix_def prefix_def strip_prefix_Some)

lemma Cut_Some: "Cut s sep = Some (a, b) \<Longrightarrow> s = a @ sep @ b"
proof (induction s sep arbitrary: a rule: Cut.induct)
  case (1 sep)
  then show ?case by (auto simp: strip_prefix_Some)
next
  case (2 c s sep)
  show ?case
  proof (cases "strip_prefix sep (c # s)")
    case None
    with "2.prems" obtain a' where "Cut s sep = Some (a', b)" "a = c # a'" by auto
    with "2.IH" [OF None] show ?thesis by simp
  next
    case (Some r)
    with "2.prems" show ?thesis by (auto simp: strip_prefix_Some)
  qed
qed

lemma Cut_first:
  assumes "d \<notin> set a"
  shows "Cut (a @ d # b) [d] = Some (a, b)"
  using assms by (induction a) auto

lemma Cut_None_absent: "d \<notin> set s \<Longrightarrow> Cut s [d] = None"
  by (induction s) auto

lemma SplitByte_nonempty: "SplitByte d s \<noteq> []"
  by (induction s) (auto split: list.splits)

lemma SplitByte_no_sep: "d \<notin> set s \<Longrightarrow> SplitByte d s = [s]"
  by (induction s) auto

lemma SplitByte_append_sep:
  "d \<notin> set a \<Longrightarrow> SplitByte d (a @ d # s) = a # SplitByte d s"
  by (induction a) (auto split: list.splits)

lemma SplitByte_parts: "p \<in> set (SplitByte d s) \<Longrightarrow> d \<notin> set p \<and> set p \<subseteq> set s"
proof (induction s arbitrary: p)
  case Nil
  then show ?case by simp
next
  case (Cons c s)
  obtain q qs where q: "SplitByte d s = q # qs"
    using SplitByte_nonempty by (meson neq_Nil_conv)
  show ?case
  proof (cases "c = d")
    case True
    with Cons show ?thesis by fastforce
  next
    case False
    with Cons.prems q have "p = c # q \<or> p \<in> set qs" by auto
    with False q Cons.IH show ?thesis by fastforce
  qed
qed

lemma SplitByte_Join:
  assumes "xs \<noteq> []" "\<forall>x\<in>set xs. d \<notin> set x"
  shows "SplitByte d (Join xs [d]) = xs"
  using assms
  by (induction xs "[d]" rule: Join.induct) (simp_all add: SplitByte_no_sep SplitByte_append_sep)

section \<open>Decimal numbers\<close>

definition is_digit :: "char \<Rightarrow> bool" where
  "is_digit c \<longleftrightarrow> 48 \<le> (of_char c :: nat) \<and> (of_char c :: nat) \<le> 57"

fun digits_value :: "nat \<Rightarrow> string \<Rightarrow> nat option" where
  "digits_value acc [] = Some acc"
| "digits_value acc (c # s) =
     (if is_digit c then digits_value (10 * acc + ((of_char c :: nat) - 48)) s else None)"

text \<open>\<open>strconv.ParseUint(s, 10, 64)\<close> and \<open>strconv.ParseInt(s, 10, 64)\<close>; \<open>None\<close> is a non-nil error.\<close>

definition parse_magnitude :: "string \<Rightarrow> nat option" where
  "parse_magnitude s = (if s = [] then None else digits_value 0 s)"

definition ParseUint64 :: "string \<Rightarrow> uint64 option" where
  "ParseUint64 s =
     (case parse_magnitude s of
        None \<Rightarrow> None
      | Some n \<Rightarrow> if n < 2 ^ 64 then Some (of_nat n) else None)"

definition ParseInt64 :: "string \<Rightarrow> int option" where
  "ParseInt64 s =
     (case s of
        [] \<Rightarrow> None
      | c # r \<Rightarrow>
          if c = CHR ''-''
          then (case parse_magnitude r of
                  None \<Rightarrow> None | Some n \<Rightarrow> if n \<le> 2 ^ 63 then Some (- int n) else None)
          else (case parse_magnitude (if c = CHR ''+'' then r else s) of
                  None \<Rightarrow> None | Some n \<Rightarrow> if n < 2 ^ 63 then Some (int n) else None))"

text \<open>Decimal output, as \<open>fmt\<close> and \<open>strconv\<close> print integers.\<close>

definition digit_char :: "nat \<Rightarrow> char" where
  "digit_char n = char_of (48 + n)"

fun FormatNat :: "nat \<Rightarrow> string" where
  "FormatNat n = (if n < 10 then [digit_char n] else FormatNat (n div 10) @ [digit_char (n mod 10)])"

declare FormatNat.simps [simp del]

definition FormatInt :: "int \<Rightarrow> string" where
  "FormatInt i = (if i < 0 then CHR ''-'' # FormatNat (nat (- i)) else FormatNat (nat i))"

lemma of_digit_char: "n < 10 \<Longrightarrow> (of_char (digit_char n) :: nat) = 48 + n"
  by (simp add: digit_char_def)

lemma is_digit_char: "n < 10 \<Longrightarrow> is_digit (digit_char n)"
  by (simp add: is_digit_def of_digit_char)

lemma digits_value_append:
  "digits_value acc (s @ t) = (case digits_value acc s of None \<Rightarrow> None | Some v \<Rightarrow> digits_value v t)"
  by (induction acc s rule: digits_value.induct) auto

lemma digits_value_FormatNat: "digits_value 0 (FormatNat n) = Some n"
proof (induction n rule: FormatNat.induct)
  case (1 n)
  show ?case
  proof (cases "n < 10")
    case True
    then show ?thesis by (subst FormatNat.simps) (simp add: is_digit_char of_digit_char)
  next
    case False
    with "1.IH" have "digits_value 0 (FormatNat (n div 10)) = Some (n div 10)" by simp
    with False show ?thesis
      by (subst FormatNat.simps) (simp add: digits_value_append is_digit_char of_digit_char)
  qed
qed

lemma FormatNat_nonempty: "FormatNat n \<noteq> []"
  by (subst FormatNat.simps) simp

lemma FormatNat_digits: "c \<in> set (FormatNat n) \<Longrightarrow> is_digit c"
proof (induction n rule: FormatNat.induct)
  case (1 n)
  then show ?case
    by (cases "n < 10") (auto simp: FormatNat.simps [of n] is_digit_char)
qed

lemma digit_visible: "is_digit c \<Longrightarrow> ascii_visible c"
  by (auto simp: is_digit_def ascii_visible_def)

lemma digit_not_sign: "is_digit c \<Longrightarrow> c \<noteq> CHR ''-'' \<and> c \<noteq> CHR ''+'' \<and> c \<noteq> CHR '':'' \<and> c \<noteq> CHR '',''"
  by (auto simp: is_digit_def)

lemma TrimSpace_FormatNat: "TrimSpace (FormatNat n) = FormatNat n"
  by (rule TrimSpace_visible)
    (metis FormatNat_nonempty FormatNat_digits digit_visible hd_in_set last_in_set)+

lemma ParseInt64_FormatNat: "n < 2 ^ 63 \<Longrightarrow> ParseInt64 (FormatNat n) = Some (int n)"
proof -
  assume n: "n < 2 ^ 63"
  obtain c r where cr: "FormatNat n = c # r"
    using FormatNat_nonempty by (meson neq_Nil_conv)
  then have "is_digit c" by (metis FormatNat_digits list.set_intros(1))
  then show ?thesis
    using n digits_value_FormatNat [of n] cr
    by (simp add: ParseInt64_def parse_magnitude_def digit_not_sign)
qed

lemma ParseInt64_range: "ParseInt64 s = Some i \<Longrightarrow> MinInt64 \<le> i \<and> i \<le> MaxInt64"
  by (auto simp: ParseInt64_def split: list.splits option.splits if_splits)

end
