(* ===== verification/Config.thy ===== *)
theory Config
  imports Go_Strings
begin

text \<open>
  The configuration package: \<open>internal/config/env.go\<close> (lookup of the dual environment namespaces),
  \<open>dlq_policy.go\<close> (per-stream dead-letter policies) and \<open>config.go\<close> (\<open>Load\<close> with its validation,
  \<open>IsStreamAllowed\<close>, \<open>ParseListenAddress\<close>, \<open>splitCSV\<close>).  The process environment is the argument
  \<open>env\<close> (\<open>os.Getenv\<close> answers the empty string for an unset variable).  Errors are values of
  \<open>config_error\<close>, one constructor for each shape of message in the source.
\<close>

datatype config_error =
    PolicyShape string
  | PolicyStreamRequired string
  | PolicyMaxRetries string
  | PolicyMinIdle string
  | PolicyDLQStreamEmpty string
  | RedisURLRequired
  | ConsumeModeInvalid
  | WALReplayModeInvalid
  | MustBeNonEmpty string
  | MustBePositive string
  | MustBeNonNegative string
  | ListenAddrFormat
  | UnsupportedNetwork string
  | ListenAddrEmpty

record StreamDLQPolicy =
  MaxRetries :: int
  MinIdle :: int
  DLQStream :: string

record Config =
  ServiceName :: string
  RedisURL :: string
  ListenAddr :: string
  GRPCListenAddr :: string
  PublishPipelineEnabled :: bool
  PublishPipelineAdaptiveEnabled :: bool
  PublishPipelineMaxBatch :: int
  PublishPipelineMinBatch :: int
  PublishPipelineFlushInterval :: int
  PublishPipelineQueueSize :: int
  PublishPipelineMaxBytes :: int
  ConsumeMode :: string
  WALReplayMode :: string
  DispatcherConsumerName :: string
  DispatcherReadCount :: int
  DispatcherBlockMS :: int
  DispatcherSubscriberBuffer :: int
  DispatcherAckBatchSize :: int
  DispatcherAckFlushConcurrency :: int
  DispatcherAckFlushInterval :: int
  DispatcherAckQueueSize :: int
  WALDir :: string
  WALMaxEntries :: int
  WALMaxBytes :: int
  WALReplayBatch :: int
  WALReplayInterval :: int
  PublishStreams :: "string list"
  ConsumeStreams :: "string list"
  MaxStreamLen :: int
  DLQMaxRetries :: int
  DLQMinIdle :: int
  DLQScanInterval :: int
  DLQScanBatch :: int
  DLQStreamPolicies :: "string \<rightharpoonup> StreamDLQPolicy"
  ReadinessTimeout :: int
  ReadyMaxWALDepth :: int
  ReadyMaxPublishQueueDepth :: int

definition ConsumeModeStateless :: string where "ConsumeModeStateless = ''stateless''"
definition ConsumeModeDispatcher :: string where "ConsumeModeDispatcher = ''dispatcher''"
definition WALReplayModeBackground :: string where "WALReplayModeBackground = ''background''"
definition WALReplayModeSyncOnSuccess :: string where "WALReplayModeSyncOnSuccess = ''sync_on_success''"

section \<open>Environment lookup\<close>

definition getEnvDual :: "(string \<Rightarrow> string) \<Rightarrow> string \<Rightarrow> string \<Rightarrow> string \<Rightarrow> string" where
  "getEnvDual env sugarKey sidecarKey fallback =
     (if env sugarKey \<noteq> '''' then env sugarKey
      else if env sidecarKey \<noteq> '''' then env sidecarKey
      else fallback)"

definition getEnvInt64Dual :: "(string \<Rightarrow> string) \<Rightarrow> string \<Rightarrow> string \<Rightarrow> int \<Rightarrow> int" where
  "getEnvInt64Dual env sugarKey sidecarKey fallback =
     (let sidecar = (if env sidecarKey \<noteq> ''''
                     then (case ParseInt64 (env sidecarKey) of Some p \<Rightarrow> p | None \<Rightarrow> fallback)
                     else fallback)
      in if env sugarKey \<noteq> ''''
         then (case ParseInt64 (env sugarKey) of Some p \<Rightarrow> p | None \<Rightarrow> sidecar)
         else sidecar)"

definition bool_word :: "string \<Rightarrow> bool option" where
  "bool_word val =
     (if val \<in> set [''1'', ''true'', ''yes'', ''on''] then Some True
      else if val \<in> set [''0'', ''false'', ''no'', ''off''] then Some False
      else None)"

definition getEnvBoolDual :: "(string \<Rightarrow> string) \<Rightarrow> string \<Rightarrow> string \<Rightarrow> bool \<Rightarrow> bool" where
  "getEnvBoolDual env sugarKey sidecarKey fallback =
     (case bool_word (TrimSpace (ToLower (env sugarKey))) of
        Some b \<Rightarrow> b
      | None \<Rightarrow>
          (case bool_word (TrimSpace (ToLower (env sidecarKey))) of
             Some b \<Rightarrow> b
           | None \<Rightarrow> fallback))"

definition getEnv :: "(string \<Rightarrow> string) \<Rightarrow> string \<Rightarrow> string \<Rightarrow> string" where
  "getEnv env key fallback = getEnvDual env key '''' fallback"

definition getEnvInt64 :: "(string \<Rightarrow> string) \<Rightarrow> string \<Rightarrow> int \<Rightarrow> int" where
  "getEnvInt64 env key fallback = getEnvInt64Dual env key '''' fallback"

definition getEnvBool :: "(string \<Rightarrow> string) \<Rightarrow> string \<Rightarrow> bool \<Rightarrow> bool" where
  "getEnvBool env key fallback = getEnvBoolDual env key '''' fallback"

section \<open>Lists, streams and listen addresses\<close>

definition splitCSV :: "string \<Rightarrow> string list" where
  "splitCSV value =
     (if value = '''' then []
      else filter (\<lambda>p. p \<noteq> '''') (map TrimSpace (SplitByte (CHR '','') value)))"

fun stream_in :: "string list \<Rightarrow> string \<Rightarrow> bool" where
  "stream_in [] stream = False"
| "stream_in (s # allowed) stream = (if s = stream then True else stream_in allowed stream)"

definition IsStreamAllowed :: "string list \<Rightarrow> string \<Rightarrow> bool" where
  "IsStreamAllowed allowed stream = (if length allowed = 0 then True else stream_in allowed stream)"

definition ParseListenAddress :: "string \<Rightarrow> config_error + (string \<times> string)" where
  "ParseListenAddress value =
     (case SplitN2 value ''://'' of
        [network, address] \<Rightarrow>
          if network \<noteq> ''tcp'' \<and> network \<noteq> ''unix'' then Inl (UnsupportedNetwork network)
          else if address = '''' then Inl ListenAddrEmpty
          else Inr (network, address)
      | _ \<Rightarrow> Inl ListenAddrFormat)"

section \<open>Dead-letter policies\<close>

text \<open>\<open>time.Duration(ms) * time.Millisecond\<close> in nanoseconds, with the wrap-around of \<open>int64\<close>.\<close>

definition millis :: "int \<Rightarrow> int" where
  "millis ms = int64_wrap (ms * 1000000)"

definition parse_policy_entry :: "string \<Rightarrow> config_error + (string \<times> StreamDLQPolicy)" where
  "parse_policy_entry entry =
     (let parts = SplitByte (CHR '':'') entry in
      if length parts < 3 \<or> length parts > 4 then Inl (PolicyShape entry)
      else let stream = TrimSpace (parts ! 0) in
      if stream = '''' then Inl (PolicyStreamRequired entry)
      else case ParseInt64 (TrimSpace (parts ! 1)) of
        None \<Rightarrow> Inl (PolicyMaxRetries entry)
      | Some maxRetries \<Rightarrow>
          if maxRetries < 0 then Inl (PolicyMaxRetries entry)
          else case ParseInt64 (TrimSpace (parts ! 2)) of
            None \<Rightarrow> Inl (PolicyMinIdle entry)
          | Some minIdleMS \<Rightarrow>
              if minIdleMS < 0 then Inl (PolicyMinIdle entry)
              else let dlqStream = (if length parts = 4 then TrimSpace (parts ! 3) else stream @ '':dlq'') in
              if dlqStream = '''' then Inl (PolicyDLQStreamEmpty entry)
              else Inr (stream, \<lparr>MaxRetries = maxRetries, MinIdle = millis minIdleMS, DLQStream = dlqStream\<rparr>))"

fun parse_policy_entries ::
  "(string \<rightharpoonup> StreamDLQPolicy) \<Rightarrow> string list \<Rightarrow> config_error + (string \<rightharpoonup> StreamDLQPolicy)" where
  "parse_policy_entries out [] = Inr out"
| "parse_policy_entries out (entry # entries) =
     (case parse_policy_entry entry of
        Inl e \<Rightarrow> Inl e
      | Inr (stream, policy) \<Rightarrow> parse_policy_entries (out(stream \<mapsto> policy)) entries)"

definition ParseDLQStreamPolicies :: "string \<Rightarrow> config_error + (string \<rightharpoonup> StreamDLQPolicy)" where
  "ParseDLQStreamPolicies raw0 =
     (let raw = TrimSpace raw0 in
      if raw = '''' then Inr Map.empty else parse_policy_entries Map.empty (splitCSV raw))"

definition ResolveDLQPolicy :: "Config \<Rightarrow> string \<Rightarrow> StreamDLQPolicy" where
  "ResolveDLQPolicy c stream =
     (case DLQStreamPolicies c stream of
        Some policy \<Rightarrow> policy
      | None \<Rightarrow> \<lparr>MaxRetries = DLQMaxRetries c, MinIdle = DLQMinIdle c, DLQStream = stream @ '':dlq''\<rparr>)"

section \<open>Load\<close>

text \<open>The environment keys of a setting: the preferred and the legacy namespace.\<close>

definition sugar :: "string \<Rightarrow> string" where "sugar k = ''SUGAR_GLIDER_'' @ k"
definition sidecar_key :: "string \<Rightarrow> string" where "sidecar_key k = ''SIDECAR_'' @ k"

definition env_str :: "(string \<Rightarrow> string) \<Rightarrow> string \<Rightarrow> string \<Rightarrow> string" where
  "env_str env k fallback = getEnvDual env (sugar k) (sidecar_key k) fallback"

definition env_int :: "(string \<Rightarrow> string) \<Rightarrow> string \<Rightarrow> int \<Rightarrow> int" where
  "env_int env k fallback = getEnvInt64Dual env (sugar k) (sidecar_key k) fallback"

definition env_bool :: "(string \<Rightarrow> string) \<Rightarrow> string \<Rightarrow> bool \<Rightarrow> bool" where
  "env_bool env k fallback = getEnvBoolDual env (sugar k) (sidecar_key k) fallback"

definition config_of_env :: "(string \<Rightarrow> string) \<Rightarrow> Config" where
  "config_of_env env = \<lparr>
     ServiceName = env_str env ''SERVICE_NAME'' ''real-time-gateway'',
     RedisURL = env_str env ''REDIS_URL'' '''',
     ListenAddr = env_str env ''LISTEN_ADDR'' ''tcp://0.0.0.0:8081'',
     GRPCListenAddr = env_str env ''GRPC_ADDR'' ''tcp://0.0.0.0:50051'',
     PublishPipelineEnabled = env_bool env ''PUBLISH_PIPELINE_ENABLED'' False,
     PublishPipelineAdaptiveEnabled = env_bool env ''PUBLISH_PIPELINE_ADAPTIVE_ENABLED'' False,
     PublishPipelineMaxBatch = env_int env ''PUBLISH_PIPELINE_MAX_BATCH'' 64,
     PublishPipelineMinBatch = env_int env ''PUBLISH_PIPELINE_MIN_BATCH'' 2,
     PublishPipelineFlushInterval = millis (env_int env ''PUBLISH_PIPELINE_FLUSH_MS'' 0),
     PublishPipelineQueueSize = env_int env ''PUBLISH_PIPELINE_QUEUE_SIZE'' 8192,
     PublishPipelineMaxBytes = env_int env ''PUBLISH_PIPELINE_MAX_BYTES'' 1048576,
     ConsumeMode = ToLower (env_str env ''CONSUME_MODE'' ConsumeModeStateless),
     WALReplayMode = ToLower (env_str env ''WAL_REPLAY_MODE'' WALReplayModeBackground),
     DispatcherConsumerName = env_str env ''DISPATCHER_CONSUMER_NAME'' ''sugar-glider-dispatcher'',
     DispatcherReadCount = env_int env ''DISPATCHER_READ_COUNT'' 100,
     DispatcherBlockMS = env_int env ''DISPATCHER_BLOCK_MS'' 1000,
     DispatcherSubscriberBuffer = env_int env ''DISPATCHER_SUBSCRIBER_BUFFER'' 256,
     DispatcherAckBatchSize = env_int env ''DISPATCHER_ACK_BATCH_SIZE'' 64,
     DispatcherAckFlushConcurrency = env_int env ''DISPATCHER_ACK_FLUSH_CONCURRENCY'' 2,
     DispatcherAckFlushInterval = millis (env_int env ''DISPATCHER_ACK_FLUSH_MS'' 10),
     DispatcherAckQueueSize = env_int env ''DISPATCHER_ACK_QUEUE_SIZE'' 4096,
     WALDir = env_str env ''WAL_DIR'' ''/data/synapse-wal'',
     WALMaxEntries = env_int env ''WAL_MAX_ENTRIES'' 0,
     WALMaxBytes = env_int env ''WAL_MAX_BYTES'' 0,
     WALReplayBatch = env_int env ''WAL_REPLAY_BATCH'' 100,
     WALReplayInterval = millis (env_int env ''WAL_REPLAY_INTERVAL_MS'' 2000),
     PublishStreams = splitCSV (env_str env ''PUBLISH_STREAMS'' ''platform-events''),
     ConsumeStreams = splitCSV (env_str env ''CONSUME_STREAMS'' ''''),
     MaxStreamLen = env_int env ''MAX_STREAM_LEN'' 10000,
     DLQMaxRetries = env_int env ''DLQ_MAX_RETRIES'' 3,
     DLQMinIdle = millis (env_int env ''DLQ_MIN_IDLE_MS'' 30000),
     DLQScanInterval = millis (env_int env ''DLQ_SCAN_INTERVAL_MS'' 5000),
     DLQScanBatch = env_int env ''DLQ_SCAN_BATCH'' 100,
     DLQStreamPolicies = Map.empty,
     ReadinessTimeout = millis (env_int env ''READINESS_TIMEOUT_MS'' 1500),
     ReadyMaxWALDepth = env_int env ''READY_MAX_WAL_DEPTH'' 0,
     ReadyMaxPublishQueueDepth = env_int env ''READY_MAX_PUBLISH_QUEUE_DEPTH'' 0\<rparr>"

text \<open>The validation steps of \<open>Load\<close>, in their order: the condition that rejects and the error.\<close>

definition config_checks :: "Config \<Rightarrow> (bool \<times> config_error) list" where
  "config_checks c =
    [(RedisURL c = '''', RedisURLRequired),
     (ConsumeMode c \<noteq> ConsumeModeStateless \<and> ConsumeMode c \<noteq> ConsumeModeDispatcher, ConsumeModeInvalid),
     (PublishPipelineMaxBatch c \<le> 0, MustBePositive ''PUBLISH_PIPELINE_MAX_BATCH''),
     (PublishPipelineMinBatch c \<le> 0, MustBePositive ''PUBLISH_PIPELINE_MIN_BATCH''),
     (PublishPipelineFlushInterval c < 0, MustBeNonNegative ''PUBLISH_PIPELINE_FLUSH_MS''),
     (PublishPipelineQueueSize c \<le> 0, MustBePositive ''PUBLISH_PIPELINE_QUEUE_SIZE''),
     (PublishPipelineMaxBytes c \<le> 0, MustBePositive ''PUBLISH_PIPELINE_MAX_BYTES''),
     (WALReplayMode c \<noteq> WALReplayModeBackground \<and> WALReplayMode c \<noteq> WALReplayModeSyncOnSuccess,
        WALReplayModeInvalid),
     (TrimSpace (DispatcherConsumerName c) = '''', MustBeNonEmpty ''DISPATCHER_CONSUMER_NAME''),
     (DispatcherReadCount c \<le> 0, MustBePositive ''DISPATCHER_READ_COUNT''),
     (DispatcherBlockMS c \<le> 0, MustBePositive ''DISPATCHER_BLOCK_MS''),
     (DispatcherSubscriberBuffer c \<le> 0, MustBePositive ''DISPATCHER_SUBSCRIBER_BUFFER''),
     (DispatcherAckBatchSize c \<le> 0, MustBePositive ''DISPATCHER_ACK_BATCH_SIZE''),
     (DispatcherAckFlushConcurrency c \<le> 0, MustBePositive ''DISPATCHER_ACK_FLUSH_CONCURRENCY''),
     (DispatcherAckFlushInterval c \<le> 0, MustBePositive ''DISPATCHER_ACK_FLUSH_MS''),
     (DispatcherAckQueueSize c \<le> 0, MustBePositive ''DISPATCHER_ACK_QUEUE_SIZE''),
     (MaxStreamLen c \<le> 0, MustBePositive ''MAX_STREAM_LEN''),
     (WALMaxEntries c < 0, MustBeNonNegative ''WAL_MAX_ENTRIES''),
     (WALMaxBytes c < 0, MustBeNonNegative ''WAL_MAX_BYTES''),
     (WALReplayBatch c < 0, MustBeNonNegative ''WAL_REPLAY_BATCH''),
     (WALReplayInterval c < 0, MustBeNonNegative ''WAL_REPLAY_INTERVAL_MS''),
     (DLQMaxRetries c < 0, MustBeNonNegative ''DLQ_MAX_RETRIES''),
     (DLQMinIdle c < 0, MustBeNonNegative ''DLQ_MIN_IDLE_MS''),
     (DLQScanInterval c < 0, MustBeNonNegative ''DLQ_SCAN_INTERVAL_MS''),
     (DLQScanBatch c \<le> 0, MustBePositive ''DLQ_SCAN_BATCH''),
     (ReadyMaxWALDepth c < 0, MustBeNonNegative ''READY_MAX_WAL_DEPTH''),
     (ReadyMaxPublishQueueDepth c < 0, MustBeNonNegative ''READY_MAX_PUBLISH_QUEUE_DEPTH'')]"

definition Load :: "(string \<Rightarrow> string) \<Rightarrow> config_error + Config" where
  "Load env =
     (case ParseDLQStreamPolicies (env_str env ''DLQ_STREAM_POLICIES'' '''') of
        Inl e \<Rightarrow> Inl e
      | Inr dlqPolicies \<Rightarrow>
          let cfg = (config_of_env env)\<lparr>DLQStreamPolicies := dlqPolicies\<rparr> in
          (case find fst (config_checks cfg) of
             Some (_, e) \<Rightarrow> Inl e
           | None \<Rightarrow> Inr cfg))"

section \<open>Lemmas on the configuration\<close>

lemma stream_in_iff: "stream_in allowed stream \<longleftrightarrow> stream \<in> set allowed"
  by (induction allowed) auto

lemma IsStreamAllowed_iff: "IsStreamAllowed allowed stream \<longleftrightarrow> allowed = [] \<or> stream \<in> set allowed"
  by (simp add: IsStreamAllowed_def stream_in_iff)

definition csv_item :: "string \<Rightarrow> bool" where
  "csv_item p \<longleftrightarrow> p \<noteq> [] \<and> TrimSpace p = p \<and> CHR '','' \<notin> set p"

lemma splitCSV_parts: "p \<in> set (splitCSV v) \<Longrightarrow> csv_item p"
  using set_TrimSpace by (fastforce simp: splitCSV_def csv_item_def split: if_splits dest: SplitByte_parts)

lemma TrimSpace_Join:
  assumes "xs \<noteq> []" "\<forall>x\<in>set xs. csv_item x"
  shows "TrimSpace (Join xs '','') = Join xs '','' \<and> Join xs '','' \<noteq> []"
  using assms
proof (induction xs "'',''" rule: Join.induct)
  case 1
  then show ?case by simp
next
  case (2 x)
  then show ?case by (simp add: csv_item_def)
next
  case (3 x y zs)
  then have IH: "TrimSpace (Join (y # zs) '','') = Join (y # zs) '',''" "Join (y # zs) '','' \<noteq> []"
    by auto
  have "TrimSpace (x @ CHR '','' # Join (y # zs) '','') = x @ CHR '','' # Join (y # zs) '',''"
    by (rule TrimSpace_delim)
      (use 3 IH in \<open>auto simp: csv_item_def ascii_visible_def\<close>)
  then show ?case by simp
qed

lemma splitCSV_Join:
  assumes "xs \<noteq> []" "\<forall>x\<in>set xs. csv_item x"
  shows "splitCSV (Join xs '','') = xs"
proof -
  have split: "SplitByte (CHR '','') (Join xs '','') = xs"
    by (rule SplitByte_Join) (use assms in \<open>auto simp: csv_item_def\<close>)
  have "Join xs '','' \<noteq> ''''"
    using TrimSpace_Join [OF assms] by simp
  moreover have "map TrimSpace xs = xs"
    using assms(2) by (auto simp: csv_item_def intro: map_idI)
  moreover have "filter (\<lambda>p. p \<noteq> '''') xs = xs"
    using assms(2) by (auto simp: csv_item_def filter_id_conv)
  ultimately show ?thesis by (simp add: splitCSV_def split)
qed

text \<open>\<open>config_valid\<close> lists what the other components may rely on after a successful \<open>Load\<close>.\<close>

definition policy_valid :: "string \<Rightarrow> StreamDLQPolicy \<Rightarrow> bool" where
  "policy_valid stream p \<longleftrightarrow>
     stream \<noteq> '''' \<and> TrimSpace stream = stream \<and> CHR '':'' \<notin> set stream \<and> 0 \<le> MaxRetries p \<and> DLQStream p \<noteq> ''''"

definition config_valid :: "Config \<Rightarrow> bool" where
  "config_valid c \<longleftrightarrow>
     RedisURL c \<noteq> '''' \<and>
     ConsumeMode c \<in> {''stateless'', ''dispatcher''} \<and>
     WALReplayMode c \<in> {''background'', ''sync_on_success''} \<and>
     TrimSpace (DispatcherConsumerName c) \<noteq> '''' \<and>
     (\<forall>n \<in> {PublishPipelineMaxBatch c, PublishPipelineMinBatch c, PublishPipelineQueueSize c,
            PublishPipelineMaxBytes c, DispatcherReadCount c, DispatcherBlockMS c,
            DispatcherSubscriberBuffer c, DispatcherAckBatchSize c, DispatcherAckFlushConcurrency c,
            DispatcherAckFlushInterval c, DispatcherAckQueueSize c, MaxStreamLen c, DLQScanBatch c}.
        0 < n) \<and>
     (\<forall>n \<in> {PublishPipelineFlushInterval c, WALMaxEntries c, WALMaxBytes c, WALReplayBatch c,
            WALReplayInterval c, DLQMaxRetries c, DLQMinIdle c, DLQScanInterval c,
            ReadyMaxWALDepth c, ReadyMaxPublishQueueDepth c}.
        0 \<le> n) \<and>
     (\<forall>p \<in> set (PublishStreams c) \<union> set (ConsumeStreams c). csv_item p) \<and>
     (\<forall>stream p. DLQStreamPolicies c stream = Some p \<longrightarrow> policy_valid stream p)"

lemma config_checks_None: "find fst (config_checks c) = None \<longleftrightarrow> (\<forall>(b, e) \<in> set (config_checks c). \<not> b)"
  by (auto simp: find_None_iff)

lemma parse_policy_entry_valid:
  assumes "parse_policy_entry entry = Inr (stream, p)"
  shows "policy_valid stream p"
proof -
  from assms have s: "stream = TrimSpace (SplitByte (CHR '':'') entry ! 0)" "stream \<noteq> ''''"
      and p: "0 \<le> MaxRetries p" "DLQStream p \<noteq> ''''"
    by (auto simp: parse_policy_entry_def Let_def split: if_splits option.splits)
  have "SplitByte (CHR '':'') entry ! 0 \<in> set (SplitByte (CHR '':'') entry)"
    using SplitByte_nonempty by (simp add: nth_mem)
  then have "CHR '':'' \<notin> set stream"
    using SplitByte_parts set_TrimSpace s(1) by blast
  with s p show ?thesis by (simp add: policy_valid_def)
qed

lemma parse_policy_entries_valid:
  assumes "parse_policy_entries out entries = Inr m" "\<And>s q. out s = Some q \<Longrightarrow> policy_valid s q"
  shows "m s = Some q \<Longrightarrow> policy_valid s q"
  using assms
proof (induction out entries arbitrary: m rule: parse_policy_entries.induct)
  case (1 out)
  then show ?case by simp
next
  case (2 out entry entries)
  from "2.prems"(2) obtain t r where tr: "parse_policy_entry entry = Inr (t, r)"
      and rest: "parse_policy_entries (out(t \<mapsto> r)) entries = Inr m"
    by (auto split: sum.splits prod.splits)
  show ?case
  proof (rule "2.IH" [OF tr refl _ rest])
    show "m s = Some q" by (fact "2.prems"(1))
    show "policy_valid s' q'" if "(out(t \<mapsto> r)) s' = Some q'" for s' q'
      using that "2.prems"(3) parse_policy_entry_valid [OF tr] by (auto split: if_splits)
  qed
qed

lemma ParseDLQStreamPolicies_valid:
  "ParseDLQStreamPolicies raw = Inr m \<Longrightarrow> m s = Some q \<Longrightarrow> policy_valid s q"
  by (auto simp: ParseDLQStreamPolicies_def Let_def split: if_splits
      elim: parse_policy_entries_valid)

section \<open>Properties of the configuration\<close>

text \<open>C30. A configuration that \<open>Load\<close> accepts satisfies every bound the other components rely on:
  positive sizes and counts, non-negative limits and intervals, known modes, trimmed and non-empty
  stream names, and well-formed dead-letter policies.\<close>

theorem Load_valid:
  assumes "Load env = Inr cfg"
  shows "config_valid cfg"
proof -
  from assms obtain pol where pol: "ParseDLQStreamPolicies (env_str env ''DLQ_STREAM_POLICIES'' '''') = Inr pol"
      and cfg: "cfg = (config_of_env env)\<lparr>DLQStreamPolicies := pol\<rparr>"
      and none: "find fst (config_checks cfg) = None"
    by (auto simp: Load_def Let_def split: sum.splits option.splits)
  have streams: "PublishStreams cfg = splitCSV (env_str env ''PUBLISH_STREAMS'' ''platform-events'')"
      "ConsumeStreams cfg = splitCSV (env_str env ''CONSUME_STREAMS'' '''')"
      "DLQStreamPolicies cfg = pol"
    by (simp_all add: cfg config_of_env_def)
  have checks: "\<forall>(b, e) \<in> set (config_checks cfg). \<not> b"
    using none by (simp only: config_checks_None)
  show ?thesis
    using checks
    unfolding config_valid_def config_checks_def ConsumeModeStateless_def ConsumeModeDispatcher_def
      WALReplayModeBackground_def WALReplayModeSyncOnSuccess_def streams
    by (auto simp: not_le not_less dest: splitCSV_parts ParseDLQStreamPolicies_valid [OF pol])
qed

definition sample_env :: "string \<Rightarrow> string" where
  "sample_env k = (if k = ''SIDECAR_REDIS_URL'' then ''redis://127.0.0.1:6379/0'' else '''')"

theorem Load_valid_witness: "\<exists>cfg. Load sample_env = Inr cfg \<and> config_valid cfg"
proof -
  have "\<not> isl (Load sample_env)" by code_simp
  then obtain cfg where "Load sample_env = Inr cfg" by (cases "Load sample_env") auto
  with Load_valid [OF this] show ?thesis by blast
qed

text \<open>Which settings are read as integers and which as booleans.\<close>

definition int_settings :: "string set" where
  "int_settings = set
    [''PUBLISH_PIPELINE_MAX_BATCH'', ''PUBLISH_PIPELINE_MIN_BATCH'', ''PUBLISH_PIPELINE_FLUSH_MS'',
     ''PUBLISH_PIPELINE_QUEUE_SIZE'', ''PUBLISH_PIPELINE_MAX_BYTES'', ''DISPATCHER_READ_COUNT'',
     ''DISPATCHER_BLOCK_MS'', ''DISPATCHER_SUBSCRIBER_BUFFER'', ''DISPATCHER_ACK_BATCH_SIZE'',
     ''DISPATCHER_ACK_FLUSH_CONCURRENCY'', ''DISPATCHER_ACK_FLUSH_MS'', ''DISPATCHER_ACK_QUEUE_SIZE'',
     ''WAL_MAX_ENTRIES'', ''WAL_MAX_BYTES'', ''WAL_REPLAY_BATCH'', ''WAL_REPLAY_INTERVAL_MS'',
     ''MAX_STREAM_LEN'', ''DLQ_MAX_RETRIES'', ''DLQ_MIN_IDLE_MS'', ''DLQ_SCAN_INTERVAL_MS'',
     ''DLQ_SCAN_BATCH'', ''READINESS_TIMEOUT_MS'', ''READY_MAX_WAL_DEPTH'', ''READY_MAX_PUBLISH_QUEUE_DEPTH'']"

definition bool_settings :: "string set" where
  "bool_settings = set [''PUBLISH_PIPELINE_ENABLED'', ''PUBLISH_PIPELINE_ADAPTIVE_ENABLED'']"

text \<open>The preferred variable decides the setting: it is set and, for a typed setting, well formed.\<close>

definition sugar_decides :: "(string \<Rightarrow> string) \<Rightarrow> string \<Rightarrow> bool" where
  "sugar_decides env k \<longleftrightarrow>
     env (sugar k) \<noteq> '''' \<and>
     (k \<in> int_settings \<longrightarrow> ParseInt64 (env (sugar k)) \<noteq> None) \<and>
     (k \<in> bool_settings \<longrightarrow> bool_word (TrimSpace (ToLower (env (sugar k)))) \<noteq> None)"

definition same_decisions :: "(string \<Rightarrow> string) \<Rightarrow> (string \<Rightarrow> string) \<Rightarrow> bool" where
  "same_decisions env env' \<longleftrightarrow>
     (\<forall>k. env (sugar k) = env' (sugar k) \<and>
          (\<not> sugar_decides env k \<longrightarrow> env (sidecar_key k) = env' (sidecar_key k)))"

lemma env_str_same: "same_decisions env env' \<Longrightarrow> k \<notin> int_settings \<union> bool_settings \<Longrightarrow> env_str env k d = env_str env' k d"
  by (auto simp: same_decisions_def sugar_decides_def env_str_def getEnvDual_def dest!: spec [of _ k])

lemma env_int_same: "same_decisions env env' \<Longrightarrow> k \<in> int_settings - bool_settings \<Longrightarrow> env_int env k d = env_int env' k d"
  by (auto simp: same_decisions_def sugar_decides_def env_int_def getEnvInt64Dual_def
      split: option.splits dest!: spec [of _ k])

lemma env_bool_same: "same_decisions env env' \<Longrightarrow> k \<in> bool_settings - int_settings \<Longrightarrow> env_bool env k d = env_bool env' k d"
  by (auto simp: same_decisions_def sugar_decides_def env_bool_def getEnvBoolDual_def
      split: option.splits dest!: spec [of _ k])

text \<open>C34. A legacy \<open>SIDECAR_*\<close> variable is consulted only where the preferred \<open>SUGAR_GLIDER_*\<close> variable
  is unset or, for an integer or boolean setting, does not parse: two environments that agree on the
  preferred variables, and on the legacy ones only where those do not decide, load the same.\<close>

theorem Load_prefers_sugar:
  assumes "same_decisions env env'"
  shows "Load env = Load env'"
proof -
  have c: "config_of_env env = config_of_env env'"
    unfolding config_of_env_def
    by (simp add: env_str_same [OF assms] env_int_same [OF assms] env_bool_same [OF assms]
        int_settings_def bool_settings_def)
  have d: "env_str env ''DLQ_STREAM_POLICIES'' '''' = env_str env' ''DLQ_STREAM_POLICIES'' ''''"
    by (rule env_str_same [OF assms]) (simp add: int_settings_def bool_settings_def)
  show ?thesis unfolding Load_def c d ..
qed

theorem Load_prefers_sugar_witness:
  "Load (\<lambda>k. if k = ''SUGAR_GLIDER_REDIS_URL'' then ''redis://a'' else if k = ''SIDECAR_REDIS_URL'' then ''redis://b'' else '''')
   = Load (\<lambda>k. if k = ''SUGAR_GLIDER_REDIS_URL'' then ''redis://a'' else '''')"
proof (rule Load_prefers_sugar, unfold same_decisions_def, intro allI conjI impI)
  fix k
  show "(if sugar k = ''SUGAR_GLIDER_REDIS_URL'' then ''redis://a'' else if sugar k = ''SIDECAR_REDIS_URL'' then ''redis://b'' else '''')
    = (if sugar k = ''SUGAR_GLIDER_REDIS_URL'' then ''redis://a'' else '''')"
    by (simp add: sugar_def)
  assume "\<not> sugar_decides
      (\<lambda>k. if k = ''SUGAR_GLIDER_REDIS_URL'' then ''redis://a'' else if k = ''SIDECAR_REDIS_URL'' then ''redis://b'' else '''') k"
  then show "(if sidecar_key k = ''SUGAR_GLIDER_REDIS_URL'' then ''redis://a'' else if sidecar_key k = ''SIDECAR_REDIS_URL'' then ''redis://b'' else '''')
    = (if sidecar_key k = ''SUGAR_GLIDER_REDIS_URL'' then ''redis://a'' else '''')"
    by (auto simp: sugar_decides_def sugar_def sidecar_key_def int_settings_def bool_settings_def)
qed

text \<open>Remark. \<open>ParseListenAddress\<close> accepts exactly the strings \<open>tcp://A\<close> and \<open>unix://A\<close> with a
  non-empty \<open>A\<close>, and splits them at the first separator.\<close>

theorem ParseListenAddress_iff:
  "ParseListenAddress value = Inr (network, address) \<longleftrightarrow>
     value = network @ ''://'' @ address \<and> network \<in> {''tcp'', ''unix''} \<and> address \<noteq> ''''"
proof
  assume "ParseListenAddress value = Inr (network, address)"
  then have "Cut value ''://'' = Some (network, address)" "network \<in> {''tcp'', ''unix''}" "address \<noteq> ''''"
    by (auto simp: ParseListenAddress_def SplitN2_def split: option.splits if_splits)
  then show "value = network @ ''://'' @ address \<and> network \<in> {''tcp'', ''unix''} \<and> address \<noteq> ''''"
    using Cut_Some by blast
next
  assume r: "value = network @ ''://'' @ address \<and> network \<in> {''tcp'', ''unix''} \<and> address \<noteq> ''''"
  then have "Cut value ''://'' = Some (network, address)" by auto
  with r show "ParseListenAddress value = Inr (network, address)"
    by (auto simp: ParseListenAddress_def SplitN2_def)
qed

text \<open>The written form of a policy: stream, retries, idle milliseconds, dead-letter stream.\<close>

definition print_policy :: "string \<times> nat \<times> nat \<times> string \<Rightarrow> string" where
  "print_policy = (\<lambda>(stream, retries, idle, dlq).
     Join [stream, FormatNat retries, FormatNat idle, dlq] '':'')"

definition policy_name :: "string \<Rightarrow> bool" where
  "policy_name s \<longleftrightarrow> s \<noteq> [] \<and> TrimSpace s = s \<and> CHR '':'' \<notin> set s \<and> CHR '','' \<notin> set s"

definition printable_policy :: "string \<times> nat \<times> nat \<times> string \<Rightarrow> bool" where
  "printable_policy = (\<lambda>(stream, retries, idle, dlq).
     policy_name stream \<and> policy_name dlq \<and> retries < 2 ^ 63 \<and> idle \<le> 9223372036854)"

definition policy_of :: "string \<times> nat \<times> nat \<times> string \<Rightarrow> string \<times> StreamDLQPolicy" where
  "policy_of = (\<lambda>(stream, retries, idle, dlq).
     (stream, \<lparr>MaxRetries = int retries, MinIdle = int idle * 1000000, DLQStream = dlq\<rparr>))"

lemma FormatNat_no_delim: "CHR '':'' \<notin> set (FormatNat n) \<and> CHR '','' \<notin> set (FormatNat n)"
  using FormatNat_digits digit_not_sign by blast

lemma parse_print_policy:
  assumes "printable_policy p"
  shows "parse_policy_entry (print_policy p) = Inr (policy_of p)"
proof -
  obtain s r i d where p: "p = (s, r, i, d)" by (cases p)
  have parts: "SplitByte (CHR '':'') (print_policy p) = [s, FormatNat r, FormatNat i, d]"
    unfolding p print_policy_def prod.case
    by (rule SplitByte_Join) (use assms FormatNat_no_delim p in \<open>auto simp: printable_policy_def policy_name_def\<close>)
  have ms: "millis (int i) = int i * 1000000"
    unfolding millis_def by (rule int64_wrap_id) (use assms p in \<open>auto simp: printable_policy_def\<close>)
  show ?thesis
    unfolding parse_policy_entry_def parts Let_def
    using assms ms
    by (simp add: p printable_policy_def policy_name_def policy_of_def TrimSpace_FormatNat ParseInt64_FormatNat)
qed

lemma print_policy_item:
  assumes "printable_policy p"
  shows "csv_item (print_policy p)"
proof -
  obtain s r i d where p: "p = (s, r, i, d)" by (cases p)
  have names: "TrimSpace s = s" "s \<noteq> []" "TrimSpace d = d" "d \<noteq> []" "CHR '','' \<notin> set s" "CHR '','' \<notin> set d"
    using assms by (auto simp: p printable_policy_def policy_name_def)
  have colon: "ascii_visible (CHR '':'')" by (simp add: ascii_visible_def)
  note glue = TrimSpace_delim [OF _ _ _ _ colon]
  have 1: "TrimSpace (FormatNat i @ CHR '':'' # d) = FormatNat i @ CHR '':'' # d"
    by (rule glue) (auto simp: names FormatNat_nonempty TrimSpace_FormatNat)
  have 2: "TrimSpace (FormatNat r @ CHR '':'' # FormatNat i @ CHR '':'' # d)
      = FormatNat r @ CHR '':'' # FormatNat i @ CHR '':'' # d"
    by (rule glue) (auto simp: 1 names FormatNat_nonempty TrimSpace_FormatNat)
  have 3: "TrimSpace (s @ CHR '':'' # FormatNat r @ CHR '':'' # FormatNat i @ CHR '':'' # d)
      = s @ CHR '':'' # FormatNat r @ CHR '':'' # FormatNat i @ CHR '':'' # d"
    by (rule glue) (auto simp: 2 names)
  show ?thesis
    using 3 names FormatNat_no_delim by (simp add: p csv_item_def print_policy_def)
qed

lemma parse_policy_entries_print:
  "\<forall>p\<in>set ps. printable_policy p \<Longrightarrow>
     parse_policy_entries out (map print_policy ps) = Inr (out ++ map_of (rev (map policy_of ps)))"
proof (induction ps arbitrary: out)
  case Nil
  then show ?case by simp
next
  case (Cons p ps)
  obtain s q where q: "policy_of p = (s, q)" by (cases "policy_of p")
  have "parse_policy_entries out (map print_policy (p # ps))
      = parse_policy_entries (out(s \<mapsto> q)) (map print_policy ps)"
    using Cons.prems by (simp add: parse_print_policy q)
  also have "\<dots> = Inr (out(s \<mapsto> q) ++ map_of (rev (map policy_of ps)))"
    using Cons by simp
  finally show ?case by (simp add: q)
qed

text \<open>C36. Round trip of the dead-letter policy syntax: the comma-separated written form of any non-empty
  list of policies parses back to exactly those policies, later entries overriding earlier ones for
  the same stream.  The idle time stays below the number of milliseconds at which the conversion to
  nanoseconds would overflow.\<close>

theorem ParseDLQStreamPolicies_print:
  assumes "ps \<noteq> []" "\<forall>p\<in>set ps. printable_policy p"
  shows "ParseDLQStreamPolicies (Join (map print_policy ps) '','') = Inr (map_of (rev (map policy_of ps)))"
proof -
  have items: "map print_policy ps \<noteq> []" "\<forall>x\<in>set (map print_policy ps). csv_item x"
    using assms by (auto intro: print_policy_item)
  show ?thesis
    using TrimSpace_Join [OF items] splitCSV_Join [OF items] parse_policy_entries_print [OF assms(2)]
    by (simp add: ParseDLQStreamPolicies_def)
qed

theorem ParseDLQStreamPolicies_print_witness:
  "ParseDLQStreamPolicies (Join (map print_policy [(''ev'', 5, 30000, ''ev-dlq'')]) '','')
   = Inr (map_of (rev (map policy_of [(''ev'', 5, 30000, ''ev-dlq'')])))"
proof (rule ParseDLQStreamPolicies_print)
  show "[(''ev'', 5, 30000, ''ev-dlq'')] \<noteq> ([] :: (string \<times> nat \<times> nat \<times> string) list)" by simp
  have "policy_name ''ev''" "policy_name ''ev-dlq''" by code_simp+
  then show "\<forall>p\<in>set [(''ev'', 5, 30000, ''ev-dlq'')]. printable_policy p"
    by (simp add: printable_policy_def)
qed

text \<open>Remark. The idle bound of a policy is checked before the conversion to nanoseconds, which wraps: an
  accepted \<open>min_idle_ms\<close> can become a negative duration (the scanner then applies no idle bound).\<close>

theorem policy_min_idle_overflow:
  "parse_policy_entry ''ev:3:9223372036855'' =
     Inr (''ev'', \<lparr>MaxRetries = 3, MinIdle = - 9223372036854551616, DLQStream = ''ev:dlq''\<rparr>)"
proof -
  have "SplitByte (CHR '':'') ''ev:3:9223372036855'' = [''ev'', ''3'', ''9223372036855'']"
       "TrimSpace ''ev'' = ''ev''" "TrimSpace ''3'' = ''3''" "TrimSpace ''9223372036855'' = ''9223372036855''"
    by code_simp+
  moreover have "ParseInt64 ''3'' = Some 3" "ParseInt64 ''9223372036855'' = Some 9223372036855"
    by (simp_all add: ParseInt64_def parse_magnitude_def is_digit_def)
  moreover have "millis 9223372036855 = - 9223372036854551616"
    by (simp add: millis_def int64_wrap_def)
  ultimately show ?thesis by (simp add: parse_policy_entry_def)
qed

end
