(* ===== verification/Go_Files.thy ===== *)
theory Go_Files
  imports Go_Strings
begin

text \<open>
  What the write-ahead log uses of Go's \<open>os\<close>, \<open>path/filepath\<close> and \<open>bufio\<close>: a file system as a map from
  paths to contents, the file operations with their failures, lexical path joining, and the line
  scanner with its token limit.

  Which operation fails on which path, and how many bytes an interrupted write leaves behind, is part
  of the state (\<open>fault\<close>, \<open>write_cut\<close>), so that every error branch of the source can be reached.
\<close>

datatype fs_op = OpMkdirAll | OpStat | OpOpen | OpRead | OpRename

record filesys =
  files :: "string \<rightharpoonup> string"
  fault :: "fs_op \<Rightarrow> string \<Rightarrow> go_error option"
  write_cut :: "string \<Rightarrow> (nat \<times> go_error) option"

definition content :: "string \<Rightarrow> filesys \<Rightarrow> string" where
  "content path fs = (case files fs path of None \<Rightarrow> [] | Some c \<Rightarrow> c)"

definition os_MkdirAll :: "string \<Rightarrow> filesys \<Rightarrow> go_error option" where
  "os_MkdirAll dir fs = fault fs OpMkdirAll dir"

definition os_Stat :: "string \<Rightarrow> filesys \<Rightarrow> int go_result" where
  "os_Stat path fs =
     (case fault fs OpStat path of
        Some e \<Rightarrow> Inl e
      | None \<Rightarrow> (case files fs path of None \<Rightarrow> Inl ErrNotExist | Some c \<Rightarrow> Inr (int (length c))))"

text \<open>\<open>os.OpenFile\<close> with \<open>O_CREATE\<close>: a missing file is created empty.\<close>

definition os_OpenCreate :: "string \<Rightarrow> filesys \<Rightarrow> go_error option \<times> filesys" where
  "os_OpenCreate path fs =
     (case fault fs OpOpen path of
        Some e \<Rightarrow> (Some e, fs)
      | None \<Rightarrow> (None, fs\<lparr>files := (files fs)(path \<mapsto> content path fs)\<rparr>))"

text \<open>\<open>f.Write\<close> on a file opened with \<open>O_APPEND\<close>; a failing write may have stored a part of the bytes.\<close>

definition os_AppendWrite :: "string \<Rightarrow> string \<Rightarrow> filesys \<Rightarrow> go_error option \<times> filesys" where
  "os_AppendWrite path bytes fs =
     (case write_cut fs path of
        Some (k, e) \<Rightarrow> (Some e, fs\<lparr>files := (files fs)(path \<mapsto> content path fs @ take k bytes)\<rparr>)
      | None \<Rightarrow> (None, fs\<lparr>files := (files fs)(path \<mapsto> content path fs @ bytes)\<rparr>))"

definition os_WriteFile :: "string \<Rightarrow> string \<Rightarrow> filesys \<Rightarrow> go_error option \<times> filesys" where
  "os_WriteFile path bytes fs =
     (case fault fs OpOpen path of
        Some e \<Rightarrow> (Some e, fs)
      | None \<Rightarrow>
          (case write_cut fs path of
             Some (k, e) \<Rightarrow> (Some e, fs\<lparr>files := (files fs)(path \<mapsto> take k bytes)\<rparr>)
           | None \<Rightarrow> (None, fs\<lparr>files := (files fs)(path \<mapsto> bytes)\<rparr>)))"

definition os_Rename :: "string \<Rightarrow> string \<Rightarrow> filesys \<Rightarrow> go_error option \<times> filesys" where
  "os_Rename old new fs =
     (case fault fs OpRename old of
        Some e \<Rightarrow> (Some e, fs)
      | None \<Rightarrow>
          (case files fs old of
             None \<Rightarrow> (Some ErrNotExist, fs)
           | Some c \<Rightarrow> (None, fs\<lparr>files := ((files fs)(old := None))(new \<mapsto> c)\<rparr>)))"

section \<open>Paths\<close>

fun clean_step :: "bool \<Rightarrow> string \<Rightarrow> string list \<Rightarrow> string list" where
  "clean_step rooted c out =
     (if c = ''.'' then out
      else if c = ''..'' then
        (case out of
           [] \<Rightarrow> if rooted then [] else [''..'']
         | d # ds \<Rightarrow> if d = ''..'' then c # out else ds)
      else c # out)"

definition filepath_Clean :: "string \<Rightarrow> string" where
  "filepath_Clean p =
     (if p = '''' then ''.''
      else let rooted = (hd p = CHR ''/'');
               comps = filter (\<lambda>c. c \<noteq> '''') (SplitByte (CHR ''/'') p);
               s = Join (rev (fold (clean_step rooted) comps [])) ''/''
           in if rooted then CHR ''/'' # s else if s = '''' then ''.'' else s)"

definition filepath_Join :: "string \<Rightarrow> string \<Rightarrow> string" where
  "filepath_Join dir name =
     (if dir = '''' then (if name = '''' then '''' else filepath_Clean name)
      else if name = '''' then filepath_Clean dir
      else filepath_Clean (dir @ ''/'' @ name))"

section \<open>The line scanner\<close>

text \<open>
  \<open>bufio.Scanner\<close> with \<open>ScanLines\<close>: lines end at a newline, a carriage return before it is dropped, a
  last line without newline counts when it is not empty.  A line that does not fit below the
  maximal token size ends the scan with \<open>bufio.ErrTooLong\<close>; the lines before it have been delivered.
\<close>

abbreviation newline :: char where "newline \<equiv> CHR 0x0A"

definition drop_cr :: "string \<Rightarrow> string" where
  "drop_cr s = (if s \<noteq> [] \<and> last s = CHR 0x0D then butlast s else s)"

fun scan_segments :: "nat \<Rightarrow> string list \<Rightarrow> string list \<times> bool" where
  "scan_segments limit [] = ([], False)"
| "scan_segments limit [s] =
     (if s = [] then ([], False) else if length s \<ge> limit then ([], True) else ([drop_cr s], False))"
| "scan_segments limit (s # t # ss) =
     (if length s \<ge> limit then ([], True)
      else let (tokens, long) = scan_segments limit (t # ss) in (drop_cr s # tokens, long))"

definition scan_lines :: "nat \<Rightarrow> string \<Rightarrow> string list \<times> bool" where
  "scan_lines limit c = scan_segments limit (SplitByte newline c)"

definition MaxScanTokenSize :: nat where "MaxScanTokenSize = 64 * 1024"

section \<open>Non-blank lines of a text\<close>

definition nonblank :: "string list \<Rightarrow> string list" where
  "nonblank ls = filter (\<lambda>l. l \<noteq> []) (map TrimSpace ls)"

text \<open>The lines of a text as the log sees them, whatever their length.\<close>

definition log_lines :: "string \<Rightarrow> string list" where
  "log_lines c = nonblank (map drop_cr (SplitByte newline c))"

text \<open>A stored line: trimmed, not empty, without a newline.\<close>

definition stored_line :: "string \<Rightarrow> bool" where
  "stored_line l \<longleftrightarrow> l \<noteq> [] \<and> TrimSpace l = l \<and> newline \<notin> set l"

definition terminated :: "string \<Rightarrow> bool" where
  "terminated c \<longleftrightarrow> c = [] \<or> last c = newline"

lemma nonblank_simps [simp]:
  "nonblank [] = []"
  "nonblank (l # ls) = (if TrimSpace l = [] then nonblank ls else TrimSpace l # nonblank ls)"
  "nonblank (ls @ ms) = nonblank ls @ nonblank ms"
  by (simp_all add: nonblank_def)

lemma scan_segments_complete:
  "scan_segments limit ss = (tokens, False) \<Longrightarrow> nonblank tokens = nonblank (map drop_cr ss)"
  by (induction limit ss arbitrary: tokens rule: scan_segments.induct)
    (auto simp: drop_cr_def split: if_splits prod.splits)

lemma scan_lines_complete:
  "scan_lines limit c = (tokens, False) \<Longrightarrow> nonblank tokens = log_lines c"
  by (simp add: scan_lines_def log_lines_def scan_segments_complete)

lemma scan_segments_long:
  "snd (scan_segments limit ss) \<longleftrightarrow> (\<exists>s\<in>set ss. s \<noteq> [] \<and> limit \<le> length s)"
  if "0 < limit"
  using that
  by (induction limit ss rule: scan_segments.induct) (auto split: prod.splits)

lemma scan_lines_long:
  "0 < limit \<Longrightarrow> snd (scan_lines limit c) \<longleftrightarrow> (\<exists>s\<in>set (SplitByte newline c). limit \<le> length s)"
  by (simp add: scan_lines_def scan_segments_long) (metis le_zero_eq length_0_conv not_gr_zero)

lemma set_log_lines: "l \<in> set (log_lines c) \<Longrightarrow> stored_line l"
proof -
  assume "l \<in> set (log_lines c)"
  then obtain s where s: "s \<in> set (SplitByte newline c)" "l = TrimSpace (drop_cr s)" "l \<noteq> []"
    by (auto simp: log_lines_def nonblank_def)
  have "set (drop_cr s) \<subseteq> set s"
    by (auto simp: drop_cr_def dest: in_set_butlastD)
  then have "newline \<notin> set l"
    using s(1,2) SplitByte_parts set_TrimSpace by blast
  with s show ?thesis by (simp add: stored_line_def)
qed

lemma drop_cr_trimmed: "TrimSpace l = l \<Longrightarrow> drop_cr l = l"
proof (cases "l \<noteq> [] \<and> last l = CHR 0x0D")
  case True
  assume t: "TrimSpace l = l"
  from True obtain k where l: "l = k @ [CHR 0x0D]" by (metis append_butlast_last_id)
  have "space_suffix_rev (rev l) \<noteq> 0"
    by (cases "rev k" rule: space_suffix_rev.cases) (auto simp: l ascii_space_def)
  then show ?thesis using TrimSpace_no_space_suffix [of l] t by simp
qed (auto simp: drop_cr_def)

lemma SplitByte_append_newline: "SplitByte d (c @ [d]) = SplitByte d c @ [[]]"
  by (induction c) (auto split: list.splits simp: SplitByte_nonempty)

lemma SplitByte_terminated:
  assumes "newline \<notin> set l"
  shows "SplitByte newline (c @ [newline] @ l @ [newline]) = SplitByte newline c @ [l, []]"
proof (induction c)
  case Nil
  show ?case using assms by (simp add: SplitByte_append_newline SplitByte_no_sep)
next
  case (Cons x c)
  then show ?case using SplitByte_nonempty [of newline c] by (auto split: list.splits)
qed

lemma log_lines_Nil [simp]: "log_lines [] = []"
  by (simp add: log_lines_def drop_cr_def)

lemma log_lines_append:
  assumes "terminated c" "stored_line l"
  shows "log_lines (c @ l @ [newline]) = log_lines c @ [l]"
proof (cases "c = []")
  case True
  then show ?thesis
    using assms(2)
    by (simp add: log_lines_def SplitByte_append_newline SplitByte_no_sep stored_line_def drop_cr_trimmed)
next
  case False
  with assms(1) obtain b where b: "c = b @ [newline]"
    by (metis append_butlast_last_id terminated_def)
  have nl: "newline \<notin> set l" using assms(2) by (simp add: stored_line_def)
  have "SplitByte newline (c @ l @ [newline]) = SplitByte newline b @ [l, []]"
    using SplitByte_terminated [OF nl, of b] by (simp add: b)
  then show ?thesis
    using assms(2)
    by (simp add: log_lines_def b SplitByte_append_newline stored_line_def drop_cr_trimmed)
qed

lemma terminated_append [simp]: "terminated (c @ l @ [newline])"
  by (simp add: terminated_def)

end
