(* ===== verification/Redis_Streams.thy ===== *)
theory Redis_Streams
  imports Go_Strings
begin

text \<open>
  \<open>internal/redisstreams\<close>: the publish request, the construction of the \<open>XADD\<close> arguments and the
  publisher, together with the conversions from stream entries back to values and protocol events
  (\<open>normalizeRedisValue\<close> in \<open>consume.go\<close>, \<open>toString\<close> in \<open>grpc.go\<close>, \<open>redisMessageToProtoEvent\<close> in
  \<open>dispatcher.go\<close>).

  The go-redis client and the server behind it are not part of the sources.  They appear as the record
  \<open>redis\<close> of operations on an arbitrary world \<open>'w\<close>; every operation that uses Redis takes that record
  as an argument.  The record also carries the clock (\<open>Now\<close>, the current time in the source's RFC 3339 format; \<open>Clock\<close>, the
  monotonic clock in nanoseconds that durations are measured with) and the answer of
  \<open>Err()\<close> on a context.
\<close>

section \<open>Requests, entries and the client interface\<close>

record PublishRequest =
  Stream :: string
  EventType :: string
  Sender :: string
  Recipient :: string
  Priority :: string
  Payload :: string
  TTLSec :: int

datatype XAddValues = ValueSlice "goany list" | ValueMap "string \<rightharpoonup> goany"

record XAddArgs =
  xaStream :: string
  xaMaxLen :: int
  xaApprox :: bool
  xaValues :: XAddValues

record XMessage =
  msgID :: string
  msgValues :: "string \<rightharpoonup> goany"

record XReadGroupArgs =
  xrGroup :: string
  xrConsumer :: string
  xrStreams :: "string list"
  xrCount :: int
  xrBlock :: int

record XPendingExtArgs =
  xpStream :: string
  xpGroup :: string
  xpStart :: string
  xpEnd :: string
  xpCount :: int

record XPendingExt =
  pendID :: string
  pendIdle :: int
  pendRetryCount :: int

record XInfoStream =
  infoLength :: int
  infoFirstEntryID :: string
  infoLastEntryID :: string

record 'w redis =
  Ping :: "ctx \<Rightarrow> 'w \<Rightarrow> go_error option \<times> 'w"
  XAdd :: "ctx \<Rightarrow> XAddArgs \<Rightarrow> 'w \<Rightarrow> string go_result \<times> 'w"
  XAck :: "ctx \<Rightarrow> string \<Rightarrow> string \<Rightarrow> string list \<Rightarrow> 'w \<Rightarrow> int go_result \<times> 'w"
  XDel :: "ctx \<Rightarrow> string \<Rightarrow> string \<Rightarrow> 'w \<Rightarrow> int go_result \<times> 'w"
  XRange :: "ctx \<Rightarrow> string \<Rightarrow> string \<Rightarrow> string \<Rightarrow> 'w \<Rightarrow> XMessage list go_result \<times> 'w"
  XRangeN :: "ctx \<Rightarrow> string \<Rightarrow> string \<Rightarrow> string \<Rightarrow> int \<Rightarrow> 'w \<Rightarrow> XMessage list go_result \<times> 'w"
  XReadGroup :: "ctx \<Rightarrow> XReadGroupArgs \<Rightarrow> 'w \<Rightarrow> (string \<times> XMessage list) list go_result \<times> 'w"
  XGroupCreateMkStream :: "ctx \<Rightarrow> string \<Rightarrow> string \<Rightarrow> string \<Rightarrow> 'w \<Rightarrow> go_error option \<times> 'w"
  XInfoGroups :: "ctx \<Rightarrow> string \<Rightarrow> 'w \<Rightarrow> string list go_result \<times> 'w"
  XInfoStreamCmd :: "ctx \<Rightarrow> string \<Rightarrow> 'w \<Rightarrow> XInfoStream go_result \<times> 'w"
  XPendingExtCmd :: "ctx \<Rightarrow> XPendingExtArgs \<Rightarrow> 'w \<Rightarrow> XPendingExt list go_result \<times> 'w"
  ExecXAdds :: "ctx \<Rightarrow> XAddArgs list \<Rightarrow> 'w \<Rightarrow> (go_error option \<times> string go_result list) \<times> 'w"
  ExecXAcks :: "ctx \<Rightarrow> (string \<times> string \<times> string list) list \<Rightarrow> 'w \<Rightarrow> (go_error option \<times> int go_result list) \<times> 'w"
  Now :: "'w \<Rightarrow> string \<times> 'w"
  Clock :: "'w \<Rightarrow> int \<times> 'w"
  CtxErr :: "ctx \<Rightarrow> 'w \<Rightarrow> go_error option"

text \<open>\<open>redisstreams.New\<close>, over the parser of addresses and the constructor of clients of go-redis; the \<open>Client\<close> of the source holds the
  resulting client and passes its commands on.\<close>

definition client_New :: "(string \<Rightarrow> 'o go_result) \<Rightarrow> ('o \<Rightarrow> 'w redis) \<Rightarrow> string \<Rightarrow> 'w redis go_result" where
  "client_New ParseURL NewClient redisURL = (case ParseURL redisURL of Inl err \<Rightarrow> Inl err | Inr opts \<Rightarrow> Inr (NewClient opts))"

section \<open>Building XADD arguments and publishing\<close>

definition BuildXAddArgs :: "string \<Rightarrow> PublishRequest \<Rightarrow> int \<Rightarrow> XAddArgs" where
  "BuildXAddArgs now req0 maxStreamLen =
     (let req1 = (if Priority req0 = '''' then req0\<lparr>Priority := ''normal''\<rparr> else req0);
          req = (if Sender req1 = '''' then req1\<lparr>Sender := ''real-time-gateway''\<rparr> else req1);
          values0 = [GoString ''event_type'', GoString (EventType req),
                     GoString ''sender'', GoString (Sender req),
                     GoString ''priority'', GoString (Priority req),
                     GoString ''payload'', GoString (Payload req),
                     GoString ''timestamp'', GoString now];
          values1 = (if Recipient req \<noteq> '''' then values0 @ [GoString ''recipient'', GoString (Recipient req)] else values0);
          values2 = (if TTLSec req > 0 then values1 @ [GoString ''ttl_sec'', GoInt (TTLSec req)] else values1)
      in \<lparr>xaStream = Stream req, xaMaxLen = maxStreamLen, xaApprox = True, xaValues = ValueSlice values2\<rparr>)"

definition Publisher_Publish ::
  "'w redis \<Rightarrow> int \<Rightarrow> ctx \<Rightarrow> PublishRequest \<Rightarrow> 'w \<Rightarrow> string go_result \<times> 'w" where
  "Publisher_Publish R maxStreamLen ctx req w =
     (let (now, w1) = Now R w in XAdd R ctx (BuildXAddArgs now req maxStreamLen) w1)"

section \<open>Reading entries back\<close>

definition normalizeRedisValue :: "goany \<Rightarrow> goany" where
  "normalizeRedisValue value = (case value of GoBytes v \<Rightarrow> GoString v | v \<Rightarrow> v)"

text \<open>\<open>fmt.Sprint\<close> on the values that occur: nil, a string, a byte slice, an integer.\<close>

definition Sprint :: "goany \<Rightarrow> string" where
  "Sprint value =
     (case value of
        GoNil \<Rightarrow> ''<nil>''
      | GoString v \<Rightarrow> v
      | GoBytes v \<Rightarrow> ''['' @ Join (map (\<lambda>c. FormatNat (of_char c)) v) '' '' @ '']''
      | GoInt i \<Rightarrow> FormatInt i)"

definition toString :: "goany \<Rightarrow> string" where
  "toString value =
     (case value of
        GoNil \<Rightarrow> ''''
      | GoString v \<Rightarrow> v
      | GoBytes v \<Rightarrow> v
      | _ \<Rightarrow> Sprint value)"

text \<open>A missing key of a Go map yields the zero value, nil for \<open>map[string]any\<close>.\<close>

definition field_value :: "(string \<rightharpoonup> goany) \<Rightarrow> string \<Rightarrow> goany" where
  "field_value flds k = (case flds k of None \<Rightarrow> GoNil | Some v \<Rightarrow> v)"

record Event =
  evStream :: string
  evEntryId :: string
  evEventType :: string
  evSender :: string
  evPayload :: string
  evTimestamp :: string

definition redisMessageToProtoEvent :: "string \<Rightarrow> string \<Rightarrow> XMessage \<Rightarrow> Event" where
  "redisMessageToProtoEvent now streamName message =
     (let flds = msgValues message;
          payload = (case normalizeRedisValue (field_value flds ''payload'') of
                       GoBytes v \<Rightarrow> v
                     | GoString v \<Rightarrow> v
                     | v \<Rightarrow> toString v);
          timestamp0 = toString (normalizeRedisValue (field_value flds ''timestamp''));
          timestamp = (if timestamp0 = '''' then now else timestamp0)
      in \<lparr>evStream = streamName, evEntryId = msgID message,
          evEventType = toString (normalizeRedisValue (field_value flds ''event_type'')),
          evSender = toString (normalizeRedisValue (field_value flds ''sender'')),
          evPayload = payload, evTimestamp = timestamp\<rparr>)"

section \<open>Properties of publishing\<close>

text \<open>The key and value pairs that a positional value slice denotes.\<close>

fun slice_pairs :: "goany list \<Rightarrow> (string \<times> goany) list" where
  "slice_pairs (GoString k # v # rest) = (k, v) # slice_pairs rest"
| "slice_pairs _ = []"

definition xadd_pairs :: "XAddArgs \<Rightarrow> (string \<times> goany) list" where
  "xadd_pairs a = (case xaValues a of ValueSlice vs \<Rightarrow> slice_pairs vs | ValueMap m \<Rightarrow> [])"

text \<open>What a stream entry created from these pairs holds: Redis stores every value as a string.\<close>

definition stored_fields :: "XAddArgs \<Rightarrow> string \<rightharpoonup> goany" where
  "stored_fields a = map_of (map (\<lambda>(k, v). (k, GoString (toString v))) (xadd_pairs a))"

lemma toString_simps [simp]:
  "toString GoNil = ''''" "toString (GoString s) = s" "toString (GoBytes s) = s"
  "toString (GoInt i) = FormatInt i"
  by (simp_all add: toString_def Sprint_def)

lemma normalizeRedisValue_simps [simp]:
  "normalizeRedisValue (GoString s) = GoString s" "normalizeRedisValue (GoBytes s) = GoString s"
  "normalizeRedisValue GoNil = GoNil" "normalizeRedisValue (GoInt i) = GoInt i"
  by (simp_all add: normalizeRedisValue_def)

lemma toString_normalize [simp]: "toString (normalizeRedisValue v) = toString v"
  by (cases v) simp_all

lemma xadd_pairs_BuildXAddArgs:
  "xadd_pairs (BuildXAddArgs now req n) =
     [(''event_type'', GoString (EventType req)),
      (''sender'', GoString (if Sender req = '''' then ''real-time-gateway'' else Sender req)),
      (''priority'', GoString (if Priority req = '''' then ''normal'' else Priority req)),
      (''payload'', GoString (Payload req)),
      (''timestamp'', GoString now)]
     @ (if Recipient req \<noteq> '''' then [(''recipient'', GoString (Recipient req))] else [])
     @ (if TTLSec req > 0 then [(''ttl_sec'', GoInt (TTLSec req))] else [])"
  by (simp add: BuildXAddArgs_def xadd_pairs_def Let_def)

lemma BuildXAddArgs_fixed:
  "xaStream (BuildXAddArgs now req n) = Stream req"
  "xaMaxLen (BuildXAddArgs now req n) = n" "xaApprox (BuildXAddArgs now req n)"
  by (simp_all add: BuildXAddArgs_def Let_def)

lemma stored_fields_lookup:
  "stored_fields (BuildXAddArgs now req n) ''event_type'' = Some (GoString (EventType req))"
  "stored_fields (BuildXAddArgs now req n) ''sender'' =
     Some (GoString (if Sender req = '''' then ''real-time-gateway'' else Sender req))"
  "stored_fields (BuildXAddArgs now req n) ''payload'' = Some (GoString (Payload req))"
  "stored_fields (BuildXAddArgs now req n) ''timestamp'' = Some (GoString now)"
  by (simp_all add: stored_fields_def xadd_pairs_BuildXAddArgs)

text \<open>Remark. The \<open>XADD\<close> arguments carry the request: pairwise distinct keys in a fixed order, the defaults for an
  empty sender and priority, \<open>recipient\<close> and \<open>ttl_sec\<close> exactly when the request sets them, the configured
  length bound as an approximate trim.\<close>

theorem BuildXAddArgs_pairs:
  "xadd_pairs (BuildXAddArgs now req n) =
     [(''event_type'', GoString (EventType req)),
      (''sender'', GoString (if Sender req = '''' then ''real-time-gateway'' else Sender req)),
      (''priority'', GoString (if Priority req = '''' then ''normal'' else Priority req)),
      (''payload'', GoString (Payload req)),
      (''timestamp'', GoString now)]
     @ (if Recipient req \<noteq> '''' then [(''recipient'', GoString (Recipient req))] else [])
     @ (if TTLSec req > 0 then [(''ttl_sec'', GoInt (TTLSec req))] else [])
   \<and> distinct (map fst (xadd_pairs (BuildXAddArgs now req n)))
   \<and> xaStream (BuildXAddArgs now req n) = Stream req
   \<and> xaMaxLen (BuildXAddArgs now req n) = n \<and> xaApprox (BuildXAddArgs now req n)"
  by (simp add: xadd_pairs_BuildXAddArgs BuildXAddArgs_fixed)

text \<open>C35. Publish and consume agree on the wire format: the event decoded from an entry that holds what
  \<open>BuildXAddArgs\<close> wrote has the request's event type, payload and sender (or the default sender), and
  the timestamp of the publish.\<close>

theorem publish_event_roundtrip:
  assumes "now \<noteq> ''''"
    and "msgValues msg = stored_fields (BuildXAddArgs now req n)"
  shows "redisMessageToProtoEvent now' stream msg =
    \<lparr>evStream = stream, evEntryId = msgID msg, evEventType = EventType req,
     evSender = (if Sender req = '''' then ''real-time-gateway'' else Sender req),
     evPayload = Payload req, evTimestamp = now\<rparr>"
  using assms
  by (simp add: redisMessageToProtoEvent_def field_value_def stored_fields_lookup)

definition sample_request :: PublishRequest where
  "sample_request = \<lparr>Stream = ''platform-events'', EventType = ''message.sent'', Sender = '''',
     Recipient = ''user-1'', Priority = '''', Payload = ''{}'', TTLSec = 120\<rparr>"

theorem publish_event_roundtrip_witness:
  "redisMessageToProtoEvent ''t1'' ''platform-events''
     \<lparr>msgID = ''1-0'', msgValues = stored_fields (BuildXAddArgs ''t0'' sample_request 10000)\<rparr> =
   \<lparr>evStream = ''platform-events'', evEntryId = ''1-0'', evEventType = ''message.sent'',
    evSender = ''real-time-gateway'', evPayload = ''{}'', evTimestamp = ''t0''\<rparr>"
  by (subst publish_event_roundtrip [where now = "''t0''" and req = sample_request and n = 10000])
    (simp_all add: sample_request_def)

end
