(* ===== verification/Wal.thy ===== *)
theory Wal
  imports Go_Files Redis_Streams
begin

text \<open>
  \<open>internal/wal/wal.go\<close>: the write-ahead log that keeps publish requests while Redis is unavailable.
  The log is the record \<open>wal_log\<close> (path, depth counter, limits); its file lives in the \<open>filesys\<close> that every
  operation takes and returns.  \<open>encoding/json\<close> is the parameter \<open>J\<close> of type \<open>wal_codec\<close>: \<open>Marshal\<close> of an
  entry and \<open>Unmarshal\<close> of a line, each with its error.  The publish callback of \<open>Replay\<close> acts on an arbitrary
  world \<open>'w\<close>.
\<close>

record Entry =
  eTime :: string
  eReason :: string
  eRequest :: PublishRequest

record wal_codec =
  Marshal :: "Entry \<Rightarrow> string go_result"
  Unmarshal :: "string \<Rightarrow> Entry go_result"

record wal_log =
  wal_path :: string
  depth :: int
  maxEntries :: int
  maxBytes :: int

record wal_options =
  MaxEntries :: int
  MaxBytes :: int

definition sugarGliderWALFilename :: string where "sugarGliderWALFilename = ''sugar-glider.wal.jsonl''"
definition legacyWALFilename :: string where "legacyWALFilename = ''sidecar.wal.jsonl''"

section \<open>Operations\<close>

definition resolveWALPath :: "string \<Rightarrow> filesys \<Rightarrow> string go_result" where
  "resolveWALPath dir fs =
     (let sugarPath = filepath_Join dir sugarGliderWALFilename;
          legacyPath = filepath_Join dir legacyWALFilename
      in case os_Stat sugarPath fs of
           Inr _ \<Rightarrow> Inr sugarPath
         | Inl err \<Rightarrow>
             if \<not> errors_Is err ErrNotExist then Inl err
             else (case os_Stat legacyPath fs of
                     Inr _ \<Rightarrow> Inr legacyPath
                   | Inl err \<Rightarrow> if \<not> errors_Is err ErrNotExist then Inl err else Inr sugarPath))"

text \<open>The scan of a whole file: the error of a failing read, or the tokens and the overflow flag.\<close>

definition scan_file :: "nat \<Rightarrow> string \<Rightarrow> filesys \<Rightarrow> string list \<times> go_error option" where
  "scan_file limit path fs =
     (case fault fs OpRead path of
        Some e \<Rightarrow> ([], Some e)
      | None \<Rightarrow> (case scan_lines limit (content path fs) of
                  (tokens, long) \<Rightarrow> (tokens, if long then Some ErrTooLong else None)))"

definition countFileLines :: "string \<Rightarrow> filesys \<Rightarrow> int go_result \<times> filesys" where
  "countFileLines path fs =
     (case os_OpenCreate path fs of
        (Some e, fs1) \<Rightarrow> (Inl e, fs1)
      | (None, fs1) \<Rightarrow>
          (case scan_file MaxScanTokenSize path fs1 of
             (tokens, Some e) \<Rightarrow> (Inl e, fs1)
           | (tokens, None) \<Rightarrow> (Inr (int (length (filter (\<lambda>t. TrimSpace t \<noteq> '''') tokens))), fs1)))"

definition wal_New :: "string \<Rightarrow> wal_options option \<Rightarrow> filesys \<Rightarrow> wal_log go_result \<times> filesys" where
  "wal_New dir opts fs =
     (case os_MkdirAll dir fs of
        Some e \<Rightarrow> (Inl (Wrapped ''create wal dir: '' e), fs)
      | None \<Rightarrow>
          (case resolveWALPath dir fs of
             Inl e \<Rightarrow> (Inl (Wrapped ''resolve wal path: '' e), fs)
           | Inr path \<Rightarrow>
               let log = (case opts of
                            None \<Rightarrow> \<lparr>wal_path = path, depth = 0, maxEntries = 0, maxBytes = 0\<rparr>
                          | Some os \<Rightarrow> \<lparr>wal_path = path, depth = 0, maxEntries = MaxEntries os, maxBytes = MaxBytes os\<rparr>)
               in (case countFileLines path fs of
                     (Inl e, fs1) \<Rightarrow> (Inl (Wrapped ''count wal depth: '' e), fs1)
                   | (Inr n, fs1) \<Rightarrow> (Inr (log\<lparr>depth := n\<rparr>), fs1))))"

definition fileSizeLocked :: "wal_log \<Rightarrow> filesys \<Rightarrow> int go_result" where
  "fileSizeLocked l fs =
     (case os_Stat (wal_path l) fs of
        Inl err \<Rightarrow> if errors_Is err ErrNotExist then Inr 0 else Inl err
      | Inr sz \<Rightarrow> Inr sz)"

definition wal_Append ::
  "wal_codec \<Rightarrow> string \<Rightarrow> string \<Rightarrow> PublishRequest \<Rightarrow> wal_log \<Rightarrow> filesys \<Rightarrow> go_error option \<times> wal_log \<times> filesys" where
  "wal_Append J now reason req l fs =
     (if maxEntries l > 0 \<and> depth l \<ge> maxEntries l then (Some ErrWALFull, l, fs)
      else case Marshal J \<lparr>eTime = now, eReason = reason, eRequest = req\<rparr> of
        Inl err \<Rightarrow> (Some err, l, fs)
      | Inr payload \<Rightarrow>
          let line = payload @ [newline];
              quota = (if maxBytes l > 0
                       then (case fileSizeLocked l fs of
                               Inl sizeErr \<Rightarrow> Some sizeErr
                             | Inr sz \<Rightarrow> if sz + int (length line) > maxBytes l then Some ErrWALDiskFull else None)
                       else None)
          in case quota of
               Some err \<Rightarrow> (Some err, l, fs)
             | None \<Rightarrow>
                 (case os_OpenCreate (wal_path l) fs of
                    (Some err, fs1) \<Rightarrow> (Some err, l, fs1)
                  | (None, fs1) \<Rightarrow>
                      (case os_AppendWrite (wal_path l) line fs1 of
                         (Some err, fs2) \<Rightarrow> (Some err, l, fs2)
                       | (None, fs2) \<Rightarrow> (None, l\<lparr>depth := depth l + 1\<rparr>, fs2))))"

definition wal_Depth :: "wal_log \<Rightarrow> int" where
  "wal_Depth l = depth l"

definition wal_Bytes :: "wal_log \<Rightarrow> filesys \<Rightarrow> int go_result" where
  "wal_Bytes l fs = fileSizeLocked l fs"

definition wal_rewrite :: "wal_log \<Rightarrow> string list \<Rightarrow> filesys \<Rightarrow> go_error option \<times> filesys" where
  "wal_rewrite l lines fs =
     (let tmpPath = wal_path l @ ''.tmp'';
          content0 = Join lines [newline];
          content1 = (if content0 \<noteq> '''' then content0 @ [newline] else content0)
      in case os_WriteFile tmpPath content1 fs of
           (Some e, fs1) \<Rightarrow> (Some e, fs1)
         | (None, fs1) \<Rightarrow> os_Rename tmpPath (wal_path l) fs1)"

text \<open>The body of the replay loop over the scanned tokens.\<close>

fun replay_loop ::
  "wal_codec \<Rightarrow> (PublishRequest \<Rightarrow> 'w \<Rightarrow> go_error option \<times> 'w) \<Rightarrow> int \<Rightarrow> string list \<Rightarrow>
   int \<Rightarrow> string list \<Rightarrow> bool \<Rightarrow> 'w \<Rightarrow> int \<times> string list \<times> 'w" where
  "replay_loop J publish limit [] replayed remaining processing w = (replayed, remaining, w)"
| "replay_loop J publish limit (token # tokens) replayed remaining processing w =
     (let line = TrimSpace token in
      if line = '''' then replay_loop J publish limit tokens replayed remaining processing w
      else if \<not> processing then replay_loop J publish limit tokens replayed (remaining @ [line]) processing w
      else if replayed \<ge> limit then replay_loop J publish limit tokens replayed (remaining @ [line]) False w
      else case Unmarshal J line of
        Inl err \<Rightarrow> replay_loop J publish limit tokens replayed (remaining @ [line]) processing w
      | Inr entry \<Rightarrow>
          (case publish (eRequest entry) w of
             (Some err, w1) \<Rightarrow> replay_loop J publish limit tokens replayed (remaining @ [line]) False w1
           | (None, w1) \<Rightarrow> replay_loop J publish limit tokens (replayed + 1) remaining processing w1))"

definition replayScanLimit :: nat where "replayScanLimit = 4 * 1024 * 1024"

definition wal_Replay ::
  "wal_codec \<Rightarrow> (PublishRequest \<Rightarrow> 'w \<Rightarrow> go_error option \<times> 'w) \<Rightarrow> int \<Rightarrow> wal_log \<Rightarrow> filesys \<Rightarrow> 'w \<Rightarrow>
   (int \<times> go_error option) \<times> wal_log \<times> filesys \<times> 'w" where
  "wal_Replay J publish limit l fs w =
     (if limit = 0 then ((0, None), l, fs, w)
      else if limit < 0 then ((0, Some (ErrMsg ''maxEntries must be >= 0'')), l, fs, w)
      else case os_OpenCreate (wal_path l) fs of
        (Some err, fs1) \<Rightarrow> ((0, Some err), l, fs1, w)
      | (None, fs1) \<Rightarrow>
          (case scan_file replayScanLimit (wal_path l) fs1 of
             (tokens, scanErr) \<Rightarrow>
               (case replay_loop J publish limit tokens 0 [] True w of
                  (replayed, remaining, w1) \<Rightarrow>
                    (case scanErr of
                       Some err \<Rightarrow> ((replayed, Some err), l, fs1, w1)
                     | None \<Rightarrow>
                         if replayed = 0 \<and> remaining = [] then ((0, None), l, fs1, w1)
                         else (case wal_rewrite l remaining fs1 of
                                 (Some err, fs2) \<Rightarrow> ((replayed, Some err), l, fs2, w1)
                               | (None, fs2) \<Rightarrow>
                                   ((replayed, None),
                                    if replayed > 0 then l\<lparr>depth := depth l - replayed\<rparr> else l, fs2, w1))))))"

section \<open>Invariant and codec\<close>

text \<open>
  The lines of the log, and its invariant: the depth counter is the number of non-blank lines, and the
  file ends with a newline.  \<open>codec_ok\<close> is what the log relies on in \<open>encoding/json\<close>: the encoding
  of an entry is one non-empty line without surrounding white space, and it decodes.
\<close>

definition wal_lines :: "wal_log \<Rightarrow> filesys \<Rightarrow> string list" where
  "wal_lines l fs = log_lines (content (wal_path l) fs)"

definition wal_inv :: "wal_log \<Rightarrow> filesys \<Rightarrow> bool" where
  "wal_inv l fs \<longleftrightarrow> depth l = int (length (wal_lines l fs)) \<and> terminated (content (wal_path l) fs)"

definition codec_ok :: "wal_codec \<Rightarrow> bool" where
  "codec_ok J \<longleftrightarrow> (\<forall>e p. Marshal J e = Inr p \<longrightarrow> stored_line p)"

text \<open>No injected failure concerns the log's file or its temporary file.\<close>

definition fs_healthy :: "wal_log \<Rightarrow> filesys \<Rightarrow> bool" where
  "fs_healthy l fs \<longleftrightarrow>
     (\<forall>p \<in> {wal_path l, wal_path l @ ''.tmp''}. (\<forall>op. fault fs op p = None) \<and> write_cut fs p = None)"

lemma content_OpenCreate:
  "os_OpenCreate path fs = (r, fs1) \<Longrightarrow> content p fs1 = content p fs"
  by (auto simp: os_OpenCreate_def content_def split: option.splits if_splits)

lemma fault_OpenCreate [simp]:
  "fault (snd (os_OpenCreate path fs)) = fault fs" "write_cut (snd (os_OpenCreate path fs)) = write_cut fs"
  by (auto simp: os_OpenCreate_def split: option.splits)

lemma fault_OpenCreateD:
  "os_OpenCreate path fs = (r, fs1) \<Longrightarrow> fault fs1 = fault fs \<and> write_cut fs1 = write_cut fs"
  by (auto simp: os_OpenCreate_def split: option.splits)

lemma files_OpenCreate:
  "os_OpenCreate path fs = (None, fs1) \<Longrightarrow> files fs1 path = Some (content path fs)"
  by (auto simp: os_OpenCreate_def split: option.splits)

lemma content_AppendWrite:
  "os_AppendWrite path b fs = (None, fs1) \<Longrightarrow> content path fs1 = content path fs @ b"
  by (auto simp: os_AppendWrite_def content_def split: option.splits)

lemma length_nonblank: "length (nonblank ts) = length (filter (\<lambda>t. TrimSpace t \<noteq> []) ts)"
  by (induction ts) auto

section \<open>Opening the log\<close>

lemma scan_file_None:
  "scan_file limit path fs = (tokens, None) \<Longrightarrow> nonblank tokens = log_lines (content path fs)"
  by (auto simp: scan_file_def scan_lines_complete split: option.splits prod.splits if_splits)

lemma countFileLines_Inr:
  assumes "countFileLines path fs = (Inr n, fs')"
  shows "n = int (length (log_lines (content path fs)))" "content p fs' = content p fs"
proof -
  from assms obtain tokens where o: "os_OpenCreate path fs = (None, fs')"
      and t: "scan_file MaxScanTokenSize path fs' = (tokens, None)"
      and n: "n = int (length (filter (\<lambda>t. TrimSpace t \<noteq> []) tokens))"
    by (auto simp: countFileLines_def split: prod.splits option.splits)
  show c: "content p fs' = content p fs" for p using o by (rule content_OpenCreate)
  show "n = int (length (log_lines (content path fs)))"
    using n scan_file_None [OF t] c [of path] by (simp add: length_nonblank [symmetric])
qed

lemma wal_New_Inr:
  assumes "wal_New dir opts fs = (Inr l, fs')"
  shows "depth l = int (length (wal_lines l fs'))" "content p fs' = content p fs"
    "resolveWALPath dir fs = Inr (wal_path l)"
    "maxEntries l = (case opts of None \<Rightarrow> 0 | Some os \<Rightarrow> MaxEntries os)"
    "maxBytes l = (case opts of None \<Rightarrow> 0 | Some os \<Rightarrow> MaxBytes os)"
proof -
  from assms obtain path n where r: "resolveWALPath dir fs = Inr path"
      and c: "countFileLines path fs = (Inr n, fs')" and l: "wal_path l = path" "depth l = n"
    by (auto simp: wal_New_def Let_def split: option.splits sum.splits prod.splits)
  show "depth l = int (length (wal_lines l fs'))" "content p fs' = content p fs" "resolveWALPath dir fs = Inr (wal_path l)"
    using countFileLines_Inr [OF c] r l by (simp_all add: wal_lines_def)
  show "maxEntries l = (case opts of None \<Rightarrow> 0 | Some os \<Rightarrow> MaxEntries os)"
    "maxBytes l = (case opts of None \<Rightarrow> 0 | Some os \<Rightarrow> MaxBytes os)"
    using assms by (auto simp: wal_New_def Let_def split: option.splits sum.splits prod.splits)
qed

section \<open>Appending\<close>

lemma wal_Append_success:
  assumes "wal_Append J now reason req l fs = (None, l', fs')"
  obtains p where "Marshal J \<lparr>eTime = now, eReason = reason, eRequest = req\<rparr> = Inr p"
    "l' = l\<lparr>depth := depth l + 1\<rparr>"
    "content (wal_path l) fs' = content (wal_path l) fs @ p @ [newline]"
    "maxEntries l > 0 \<longrightarrow> depth l < maxEntries l"
proof -
  from assms obtain p fs1 where m: "Marshal J \<lparr>eTime = now, eReason = reason, eRequest = req\<rparr> = Inr p"
      and o: "os_OpenCreate (wal_path l) fs = (None, fs1)"
      and a: "os_AppendWrite (wal_path l) (p @ [newline]) fs1 = (None, fs')"
      and l: "l' = l\<lparr>depth := depth l + 1\<rparr>" "maxEntries l > 0 \<longrightarrow> depth l < maxEntries l"
    by (auto simp: wal_Append_def Let_def not_le split: if_splits sum.splits option.splits prod.splits)
  have "content (wal_path l) fs' = content (wal_path l) fs @ p @ [newline]"
    using content_AppendWrite [OF a] content_OpenCreate [OF o] by simp
  with m l show thesis by (intro that)
qed

lemma wal_Append_inv:
  assumes "codec_ok J" "wal_inv l fs" "wal_Append J now reason req l fs = (None, l', fs')"
  shows "wal_inv l' fs'"
    "\<exists>p. Marshal J \<lparr>eTime = now, eReason = reason, eRequest = req\<rparr> = Inr p \<and> wal_lines l' fs' = wal_lines l fs @ [p]"
proof -
  obtain p where p: "Marshal J \<lparr>eTime = now, eReason = reason, eRequest = req\<rparr> = Inr p"
      and l': "l' = l\<lparr>depth := depth l + 1\<rparr>"
      and c: "content (wal_path l) fs' = content (wal_path l) fs @ p @ [newline]"
    using assms(3) by (rule wal_Append_success)
  have "stored_line p" using assms(1) p by (simp add: codec_ok_def)
  moreover have "terminated (content (wal_path l) fs)" using assms(2) by (simp add: wal_inv_def)
  ultimately have "wal_lines l' fs' = wal_lines l fs @ [p]"
    unfolding wal_lines_def l' by (simp add: c log_lines_append)
  with p show "\<exists>p. Marshal J \<lparr>eTime = now, eReason = reason, eRequest = req\<rparr> = Inr p \<and> wal_lines l' fs' = wal_lines l fs @ [p]"
    by blast
  from \<open>wal_lines l' fs' = wal_lines l fs @ [p]\<close> show "wal_inv l' fs'"
    using assms(2) terminated_append [of "content (wal_path l) fs" p]
    by (simp add: wal_inv_def l' c)
qed

text \<open>An append that fails leaves the counter alone, and the file too unless the write itself was cut short.\<close>

lemma wal_Append_failure:
  assumes "wal_Append J now reason req l fs = (Some err, l', fs')" "write_cut fs (wal_path l) = None"
  shows "l' = l" "content p fs' = content p fs"
proof -
  from assms show "l' = l"
    by (auto simp: wal_Append_def Let_def split: if_splits sum.splits option.splits prod.splits)
  show "content p fs' = content p fs"
    using assms content_OpenCreate fault_OpenCreateD
    by (fastforce simp: wal_Append_def Let_def os_AppendWrite_def split: if_splits sum.splits option.splits prod.splits)
qed

lemma fileSizeLocked_content: "fileSizeLocked l fs = Inr n \<Longrightarrow> fault fs OpStat (wal_path l) = None \<Longrightarrow>
   n = int (length (content (wal_path l) fs))"
  by (auto simp: fileSizeLocked_def os_Stat_def content_def split: option.splits)

lemma wal_Append_bytes:
  assumes "wal_Append J now reason req l fs = (None, l', fs')" "maxBytes l > 0" "fault fs OpStat (wal_path l) = None"
  shows "int (length (content (wal_path l) fs')) \<le> maxBytes l"
proof -
  obtain p where p: "Marshal J \<lparr>eTime = now, eReason = reason, eRequest = req\<rparr> = Inr p"
      and c: "content (wal_path l) fs' = content (wal_path l) fs @ p @ [newline]"
    using assms(1) by (rule wal_Append_success)
  have "case fileSizeLocked l fs of Inl e \<Rightarrow> False | Inr n \<Rightarrow> n + int (length (p @ [newline])) \<le> maxBytes l"
    using assms(1,2) p
    by (auto simp: wal_Append_def Let_def split: if_splits sum.splits option.splits prod.splits)
  then show ?thesis
    using fileSizeLocked_content [OF _ assms(3)] by (auto simp: c split: sum.splits)
qed

section \<open>Replaying\<close>

text \<open>The replay loop as a function on the non-blank lines, without the loop's flags and accumulator.\<close>

fun replay_spec ::
  "wal_codec \<Rightarrow> (PublishRequest \<Rightarrow> 'w \<Rightarrow> go_error option \<times> 'w) \<Rightarrow> int \<Rightarrow> string list \<Rightarrow> int \<Rightarrow> 'w \<Rightarrow>
   int \<times> string list \<times> 'w" where
  "replay_spec J publish limit [] n w = (n, [], w)"
| "replay_spec J publish limit (l # ls) n w =
     (if n \<ge> limit then (n, l # ls, w)
      else case Unmarshal J l of
        Inl err \<Rightarrow> (case replay_spec J publish limit ls n w of (n', r, w') \<Rightarrow> (n', l # r, w'))
      | Inr entry \<Rightarrow>
          (case publish (eRequest entry) w of
             (Some err, w1) \<Rightarrow> (n, l # ls, w1)
           | (None, w1) \<Rightarrow> replay_spec J publish limit ls (n + 1) w1))"

lemma replay_loop_stopped:
  "replay_loop J publish limit tokens n rem False w = (n, rem @ nonblank tokens, w)"
  by (induction tokens arbitrary: rem) auto

lemma replay_loop_spec:
  "replay_loop J publish limit tokens n rem True w =
     (case replay_spec J publish limit (nonblank tokens) n w of (n', r, w') \<Rightarrow> (n', rem @ r, w'))"
proof (induction tokens arbitrary: n rem w)
  case Nil
  then show ?case by simp
next
  case (Cons token tokens)
  then show ?case
    by (auto simp: replay_loop_stopped Let_def split: sum.splits option.splits prod.splits)
qed

text \<open>
  The requests that a list of lines decodes to, the lines that do not decode, and the effect of publishing
  requests in order until the first failure.
\<close>

definition requests :: "wal_codec \<Rightarrow> string list \<Rightarrow> PublishRequest list" where
  "requests J ls = List.map_filter (\<lambda>l. case Unmarshal J l of Inl _ \<Rightarrow> None | Inr e \<Rightarrow> Some (eRequest e)) ls"

definition undecodable :: "wal_codec \<Rightarrow> string list \<Rightarrow> string list" where
  "undecodable J ls = filter (\<lambda>l. isl (Unmarshal J l)) ls"

fun publish_all ::
  "(PublishRequest \<Rightarrow> 'w \<Rightarrow> go_error option \<times> 'w) \<Rightarrow> PublishRequest list \<Rightarrow> 'w \<Rightarrow> go_error option \<times> 'w" where
  "publish_all publish [] w = (None, w)"
| "publish_all publish (r # rs) w =
     (case publish r w of (Some e, w1) \<Rightarrow> (Some e, w1) | (None, w1) \<Rightarrow> publish_all publish rs w1)"

lemma requests_simps [simp]:
  "requests J [] = []"
  "Unmarshal J l = Inl e \<Longrightarrow> requests J (l # ls) = requests J ls"
  "Unmarshal J l = Inr en \<Longrightarrow> requests J (l # ls) = eRequest en # requests J ls"
  "requests J (ls @ ms) = requests J ls @ requests J ms"
  by (simp_all add: requests_def map_filter_def)

lemma undecodable_simps [simp]:
  "undecodable J [] = []"
  "Unmarshal J l = Inl e \<Longrightarrow> undecodable J (l # ls) = l # undecodable J ls"
  "Unmarshal J l = Inr en \<Longrightarrow> undecodable J (l # ls) = undecodable J ls"
  by (simp_all add: undecodable_def)

text \<open>Why a replay stops: all lines are done, the limit is reached, or a publish failed.\<close>

definition replay_stops ::
  "wal_codec \<Rightarrow> (PublishRequest \<Rightarrow> 'w \<Rightarrow> go_error option \<times> 'w) \<Rightarrow> int \<Rightarrow> string list \<Rightarrow> int \<Rightarrow> 'w \<Rightarrow> 'w \<Rightarrow> bool" where
  "replay_stops J publish limit post n w1 w' \<longleftrightarrow>
     post = [] \<and> w' = w1
   \<or> post \<noteq> [] \<and> n \<ge> limit \<and> w' = w1
   \<or> (\<exists>l ls entry err. post = l # ls \<and> Unmarshal J l = Inr entry \<and> publish (eRequest entry) w1 = (Some err, w'))"

text \<open>
  A replay of \<open>pre @ post\<close> that has handled \<open>pre\<close>: the decodable lines of \<open>pre\<close> were published in order, the
  undecodable ones and \<open>post\<close> remain.
\<close>

definition replayed_upto ::
  "wal_codec \<Rightarrow> (PublishRequest \<Rightarrow> 'w \<Rightarrow> go_error option \<times> 'w) \<Rightarrow> int \<Rightarrow> string list \<Rightarrow> string list \<Rightarrow> 'w \<Rightarrow>
   int \<Rightarrow> string list \<Rightarrow> 'w \<Rightarrow> bool" where
  "replayed_upto J publish limit pre post w n r w' \<longleftrightarrow>
     (\<exists>w1. publish_all publish (requests J pre) w = (None, w1) \<and> r = undecodable J pre @ post \<and>
        replay_stops J publish limit post n w1 w')"

definition replayed_split ::
  "wal_codec \<Rightarrow> (PublishRequest \<Rightarrow> 'w \<Rightarrow> go_error option \<times> 'w) \<Rightarrow> int \<Rightarrow> string list \<Rightarrow> int \<Rightarrow> 'w \<Rightarrow> int \<times> string list \<times> 'w \<Rightarrow> bool" where
  "replayed_split J publish limit ls n w x \<longleftrightarrow>
     (\<exists>pre post. ls = pre @ post \<and> fst x = n + int (length (requests J pre)) \<and>
        replayed_upto J publish limit pre post w (fst x) (fst (snd x)) (snd (snd x)))"

lemma replayed_split_stop: "replay_stops J publish limit ls n w w' \<Longrightarrow> replayed_split J publish limit ls n w (n, ls, w')"
  unfolding replayed_split_def by (rule exI [of _ "[]"]) (simp add: replayed_upto_def)

lemma replayed_split_skip:
  assumes "replayed_split J publish limit ls n w (n', r, w')" "Unmarshal J l = Inl e"
  shows "replayed_split J publish limit (l # ls) n w (n', l # r, w')"
proof -
  from assms(1) obtain pre post where "ls = pre @ post" "n' = n + int (length (requests J pre))" "replayed_upto J publish limit pre post w n' r w'"
    by (auto simp: replayed_split_def)
  then show ?thesis
    unfolding replayed_split_def using assms(2) by (intro exI [of _ "l # pre"] exI [of _ post]) (auto simp: replayed_upto_def)
qed

lemma replayed_split_publish:
  assumes "replayed_split J publish limit ls (n + 1) w1 (n', r, w')" "Unmarshal J l = Inr e" "publish (eRequest e) w = (None, w1)"
  shows "replayed_split J publish limit (l # ls) n w (n', r, w')"
proof -
  from assms(1) obtain pre post where "ls = pre @ post" "n' = n + 1 + int (length (requests J pre))" "replayed_upto J publish limit pre post w1 n' r w'"
    by (auto simp: replayed_split_def)
  then show ?thesis
    unfolding replayed_split_def using assms(2,3) by (intro exI [of _ "l # pre"] exI [of _ post]) (auto simp: replayed_upto_def)
qed

lemma replay_spec_splits: "replayed_split J publish limit ls n w (replay_spec J publish limit ls n w)"
proof (induction ls arbitrary: n w)
  case Nil
  show ?case using replayed_split_stop [of J publish limit "[]" n w w] by (simp add: replay_stops_def)
next
  case (Cons l ls)
  note stop = replayed_split_stop [of J publish limit "l # ls" n w]
  show ?case
  proof (cases "n \<ge> limit")
    case True
    then show ?thesis using stop [of w] by (simp add: replay_stops_def)
  next
    case limit: False
    show ?thesis
    proof (cases "Unmarshal J l")
      case (Inl err)
      obtain n' r w' where "replay_spec J publish limit ls n w = (n', r, w')" by (metis prod_cases3)
      then show ?thesis using replayed_split_skip [OF _ Inl] Cons.IH [of n w] limit Inl by simp
    next
      case (Inr entry)
      obtain e w1 where pub: "publish (eRequest entry) w = (e, w1)" by fastforce
      obtain n' r w' where rest: "replay_spec J publish limit ls (n + 1) w1 = (n', r, w')" by (metis prod_cases3)
      have "replay_stops J publish limit (l # ls) n w w1" if "e = Some err" for err using that Inr pub by (simp add: replay_stops_def)
      then show ?thesis
        using stop [of w1] replayed_split_publish [of J publish limit ls n w1 n' r w' l entry w] Cons.IH [of "n + 1" w1] limit Inr pub rest
        by (cases e) simp_all
    qed
  qed
qed

lemma replay_spec_split:
  "replay_spec J publish limit ls n w = (n', r, w') \<Longrightarrow>
     \<exists>pre post. ls = pre @ post \<and> n' = n + int (length (requests J pre)) \<and>
       replayed_upto J publish limit pre post w n' r w'"
  using replay_spec_splits [of J publish limit ls n w] by (simp add: replayed_split_def)

lemma replay_spec_bound: "replay_spec J publish limit ls n w = (n', r, w') \<Longrightarrow> n \<le> n' \<and> (n \<le> limit \<longrightarrow> n' \<le> limit)"
  by (induction J publish limit ls n w arbitrary: r rule: replay_spec.induct)
    (fastforce split: if_splits sum.splits option.splits prod.splits)+

lemma replay_spec_subset: "replay_spec J publish limit ls n w = (n', r, w') \<Longrightarrow> set r \<subseteq> set ls"
  using replay_spec_split by (fastforce simp: undecodable_def replayed_upto_def)

section \<open>Rewriting the file\<close>

lemma tmp_path_differs [simp]: "p @ ''.tmp'' \<noteq> p" "p \<noteq> p @ ''.tmp''"
  by simp_all

lemma content_rewrite_fails:
  "wal_rewrite l ls fs = (Some e, fs') \<Longrightarrow> content (wal_path l) fs' = content (wal_path l) fs"
  by (auto simp: wal_rewrite_def Let_def os_WriteFile_def os_Rename_def content_def
      split: option.splits prod.splits if_splits)

lemma Join_stored_nonempty: "ls \<noteq> [] \<Longrightarrow> \<forall>l\<in>set ls. stored_line l \<Longrightarrow> Join ls [newline] \<noteq> []"
  by (induction ls "[newline]" rule: Join.induct) (auto simp: stored_line_def)

lemma content_rewrite:
  "wal_rewrite l ls fs = (None, fs') \<Longrightarrow>
     content (wal_path l) fs' = (if Join ls [newline] \<noteq> [] then Join ls [newline] @ [newline] else [])"
  by (auto simp: wal_rewrite_def Let_def os_WriteFile_def os_Rename_def content_def
      split: option.splits prod.splits if_splits)

lemma log_lines_Join:
  assumes "ls \<noteq> []" "\<forall>l\<in>set ls. stored_line l"
  shows "log_lines (Join ls [newline] @ [newline]) = ls"
proof -
  have "SplitByte newline (Join ls [newline]) = ls"
    by (rule SplitByte_Join) (use assms in \<open>auto simp: stored_line_def\<close>)
  moreover have "nonblank (map drop_cr ls) = ls"
    using assms(2) by (induction ls) (auto simp: stored_line_def drop_cr_trimmed)
  ultimately show ?thesis
    by (simp add: log_lines_def SplitByte_append_newline) (simp add: drop_cr_def)
qed

lemma wal_rewrite_lines:
  assumes "wal_rewrite l ls fs = (None, fs')" "\<forall>x\<in>set ls. stored_line x"
  shows "wal_lines l fs' = ls" "terminated (content (wal_path l) fs')"
  using content_rewrite [OF assms(1)] Join_stored_nonempty [OF _ assms(2)] log_lines_Join [OF _ assms(2)]
  by (cases "ls = []"; simp add: wal_lines_def terminated_def)+

section \<open>Replay as a whole\<close>

lemma replay_spec_length:
  "replay_spec J publish limit ls n w = (n', r, w') \<Longrightarrow> int (length r) + n' = int (length ls) + n"
  by (induction ls arbitrary: n w r) (auto split: if_splits sum.splits option.splits prod.splits)

lemma wal_Replay_None:
  assumes "0 < limit" "wal_Replay J publish limit l fs w = ((n, None), l', fs', w')"
  obtains r where "replay_spec J publish limit (wal_lines l fs) 0 w = (n, r, w')"
    "wal_path l' = wal_path l" "depth l' = depth l - n" "maxEntries l' = maxEntries l" "maxBytes l' = maxBytes l"
    "r = [] \<and> n = 0 \<and> content (wal_path l) fs' = content (wal_path l) fs \<or>
     (\<exists>fs1. wal_rewrite l r fs1 = (None, fs'))"
proof -
  from assms obtain fs1 tokens where
      o: "os_OpenCreate (wal_path l) fs = (None, fs1)"
      and t: "scan_file replayScanLimit (wal_path l) fs1 = (tokens, None)"
    by (auto simp: wal_Replay_def split: prod.splits option.splits if_splits)
  have nb: "nonblank tokens = wal_lines l fs"
    using scan_file_None [OF t] content_OpenCreate [OF o] by (simp add: wal_lines_def)
  obtain n0 r w0 where spec: "replay_spec J publish limit (wal_lines l fs) 0 w = (n0, r, w0)"
    by (metis prod_cases3)
  have loop: "replay_loop J publish limit tokens 0 [] True w = (n0, r, w0)"
    by (simp add: replay_loop_spec nb spec)
  have "0 \<le> n0" using replay_spec_bound [OF spec] by simp
  with assms o t loop show thesis
    using content_OpenCreate [OF o, of "wal_path l"]
    by (intro that [of r])
      (auto simp: wal_Replay_def spec split: prod.splits option.splits if_splits)
qed

lemma wal_Replay_Some:
  assumes "wal_Replay J publish limit l fs w = ((n, Some err), l', fs', w')"
  shows "l' = l" "content (wal_path l) fs' = content (wal_path l) fs"
  using assms content_rewrite_fails content_OpenCreate
  by (auto simp: wal_Replay_def split: prod.splits option.splits if_splits)

lemma wal_Replay_inv:
  assumes "0 < limit" "wal_inv l fs" "wal_Replay J publish limit l fs w = ((n, None), l', fs', w')"
  shows "\<exists>r. replay_spec J publish limit (wal_lines l fs) 0 w = (n, r, w') \<and> wal_lines l' fs' = r \<and> wal_inv l' fs'"
proof -
  from wal_Replay_None [OF assms(1,3)] obtain r where
      spec: "replay_spec J publish limit (wal_lines l fs) 0 w = (n, r, w')"
      and l': "wal_path l' = wal_path l" "depth l' = depth l - n"
      and fl: "r = [] \<and> n = 0 \<and> content (wal_path l) fs' = content (wal_path l) fs \<or>
        (\<exists>fs1. wal_rewrite l r fs1 = (None, fs'))"
    by blast
  have len: "int (length r) + n = int (length (wal_lines l fs))"
    using replay_spec_length [OF spec] by simp
  have stored: "\<forall>x\<in>set r. stored_line x"
    using replay_spec_subset [OF spec] set_log_lines by (auto simp: wal_lines_def)
  have "wal_lines l' fs' = r \<and> terminated (content (wal_path l') fs')"
    using fl
  proof
    assume "r = [] \<and> n = 0 \<and> content (wal_path l) fs' = content (wal_path l) fs"
    then show ?thesis using len assms(2) l' by (auto simp: wal_lines_def wal_inv_def)
  next
    assume "\<exists>fs1. wal_rewrite l r fs1 = (None, fs')"
    then show ?thesis using wal_rewrite_lines stored l' by (auto simp: wal_lines_def)
  qed
  with spec len l' assms(2) show ?thesis by (auto simp: wal_inv_def)
qed

text \<open>With a healthy file system and no overlong line, a replay runs to its end without error.\<close>

lemma wal_rewrite_healthy:
  assumes "fs_healthy l fs"
  shows "\<exists>fs'. wal_rewrite l ls fs = (None, fs')"
  using assms
  by (auto simp: fs_healthy_def wal_rewrite_def os_WriteFile_def os_Rename_def Let_def split: option.splits)

lemma fs_healthy_OpenCreate: "fs_healthy l fs \<Longrightarrow> os_OpenCreate p fs = (r, fs1) \<Longrightarrow> fs_healthy l fs1"
  by (simp add: fs_healthy_def fault_OpenCreateD)

lemma wal_Replay_healthy:
  assumes "fs_healthy l fs" "0 < limit"
    and short: "\<forall>s\<in>set (SplitByte newline (content (wal_path l) fs)). length s < replayScanLimit"
  obtains n r l' fs' w' where "replay_spec J publish limit (wal_lines l fs) 0 w = (n, r, w')"
    "wal_Replay J publish limit l fs w = ((n, None), l', fs', w')"
proof -
  obtain fs1 where o: "os_OpenCreate (wal_path l) fs = (None, fs1)"
    using assms(1) by (auto simp: os_OpenCreate_def fs_healthy_def)
  have c: "content (wal_path l) fs1 = content (wal_path l) fs" by (rule content_OpenCreate [OF o])
  obtain tokens long where t: "scan_lines replayScanLimit (content (wal_path l) fs) = (tokens, long)" by fastforce
  have "\<not> snd (scan_lines replayScanLimit (content (wal_path l) fs))"
    using short by (subst scan_lines_long) (auto simp: replayScanLimit_def)
  with t have tok: "scan_lines replayScanLimit (content (wal_path l) fs) = (tokens, False)" by simp
  have scan: "scan_file replayScanLimit (wal_path l) fs1 = (tokens, None)"
    using assms(1) tok fault_OpenCreateD [OF o] by (simp add: scan_file_def c fs_healthy_def)
  obtain n r w' where spec: "replay_spec J publish limit (wal_lines l fs) 0 w = (n, r, w')"
    by (metis prod_cases3)
  have loop: "replay_loop J publish limit tokens 0 [] True w = (n, r, w')"
    by (simp add: replay_loop_spec scan_lines_complete [OF tok] spec [unfolded wal_lines_def])
  obtain fs2 where "wal_rewrite l r fs1 = (None, fs2)"
    using wal_rewrite_healthy [OF fs_healthy_OpenCreate [OF assms(1) o]] by blast
  with o scan loop assms(2) spec show thesis
    by (intro that [OF spec, of "if n > 0 then l\<lparr>depth := depth l - n\<rparr> else l" "if n = 0 \<and> r = [] then fs1 else fs2"])
      (auto simp: wal_Replay_def)
qed

section \<open>Properties of the log\<close>

text \<open>A concrete codec, file system and world for the witnesses: an entry is its event type in braces.\<close>

definition sample_codec :: wal_codec where
  "sample_codec = \<lparr>
     Marshal = (\<lambda>e. if list_all ascii_visible (EventType (eRequest e))
                    then Inr (CHR ''{'' # EventType (eRequest e) @ ''}'') else Inl (ErrMsg ''bad'')),
     Unmarshal = (\<lambda>l. if l \<noteq> [] \<and> hd l = CHR ''{'' \<and> last l = CHR ''}''
                      then Inr \<lparr>eTime = [], eReason = [],
                        eRequest = \<lparr>Stream = ''s'', EventType = butlast (tl l), Sender = [], Recipient = [],
                          Priority = [], Payload = ''1'', TTLSec = 0\<rparr>\<rparr>
                      else Inl (ErrMsg ''bad''))\<rparr>"

definition sample_log :: wal_log where
  "sample_log = \<lparr>wal_path = ''wal'', depth = 2, maxEntries = 3, maxBytes = 100\<rparr>"

definition sample_fs :: filesys where
  "sample_fs = \<lparr>files = [''wal'' \<mapsto> ''{a}'' @ [newline] @ ''{b}'' @ [newline]],
     fault = (\<lambda>_ _. None), write_cut = (\<lambda>_. None)\<rparr>"

definition record_publish :: "PublishRequest \<Rightarrow> string list \<Rightarrow> go_error option \<times> string list" where
  "record_publish r w = (None, w @ [EventType r])"

lemma codec_ok_sample: "codec_ok sample_codec"
proof -
  have "stored_line (CHR ''{'' # t @ ''}'')" if "list_all ascii_visible t" for t
  proof -
    have "newline \<notin> set t" using that by (auto simp: list_all_iff ascii_visible_def)
    moreover have "TrimSpace (CHR ''{'' # t @ ''}'') = CHR ''{'' # t @ ''}''"
      by (rule TrimSpace_visible) (auto simp: ascii_visible_def)
    ultimately show ?thesis by (simp add: stored_line_def)
  qed
  then show ?thesis by (auto simp: codec_ok_def sample_codec_def split: if_splits)
qed

lemma wal_inv_sample: "wal_inv sample_log sample_fs"
  by code_simp

lemma sample_lines: "wal_lines sample_log sample_fs = [''{a}'', ''{b}'']"
  by code_simp

lemma sample_replayE:
  obtains l' fs' where
    "wal_Replay sample_codec record_publish 10 sample_log sample_fs [] = ((2, None), l', fs', [''a'', ''b''])"
proof -
  have segs: "SplitByte newline (content (wal_path sample_log) sample_fs) = [''{a}'', ''{b}'', []]"
    by code_simp
  have spec: "replay_spec sample_codec record_publish 10 [''{a}'', ''{b}''] 0 [] = (2, [], [''a'', ''b''])"
    by (simp add: sample_codec_def record_publish_def)
  have "fs_healthy sample_log sample_fs" by (simp add: fs_healthy_def sample_fs_def)
  then obtain n r l' fs' w' where
      "replay_spec sample_codec record_publish 10 (wal_lines sample_log sample_fs) 0 [] = (n, r, w')"
      "wal_Replay sample_codec record_publish 10 sample_log sample_fs [] = ((n, None), l', fs', w')"
    by (rule wal_Replay_healthy [where limit = 10]) (simp_all add: segs replayScanLimit_def)
  with spec that show thesis by (simp add: sample_lines)
qed

text \<open>C13. Replay without error: the log's lines split into a handled part and a rest; the decodable lines of
  the handled part were published, in order and each successfully, and are exactly what the result counts
  (at most the limit); what stays in the file, in the old order, is the undecodable lines of the handled
  part followed by the rest; the rest is non-empty only if the limit was reached or the publish of its
  first line failed; the depth counter still agrees with the file.\<close>

theorem Replay_drains_prefix:
  assumes "0 < limit" "wal_inv l fs"
    and "wal_Replay J publish limit l fs w = ((n, None), l', fs', w')"
  shows "\<exists>pre post. wal_lines l fs = pre @ post \<and> n = int (length (requests J pre)) \<and> n \<le> limit \<and>
     replayed_upto J publish limit pre post w n (wal_lines l' fs') w' \<and> wal_inv l' fs'"
proof -
  from wal_Replay_inv [OF assms] have
    spec: "replay_spec J publish limit (wal_lines l fs) 0 w = (n, wal_lines l' fs', w')" and inv: "wal_inv l' fs'"
    by auto
  from replay_spec_split [OF spec] replay_spec_bound [OF spec] inv assms(1) show ?thesis by auto
qed

theorem Replay_drains_prefix_witness:
  "\<exists>l' fs' w' pre post. wal_lines sample_log sample_fs = pre @ post \<and> 2 = int (length (requests sample_codec pre)) \<and>
     replayed_upto sample_codec record_publish 10 pre post [] 2 (wal_lines l' fs') w' \<and> wal_inv l' fs'"
proof -
  obtain l' fs' where r: "wal_Replay sample_codec record_publish 10 sample_log sample_fs []
      = ((2, None), l', fs', [''a'', ''b''])"
    by (rule sample_replayE)
  from Replay_drains_prefix [OF _ wal_inv_sample r] show ?thesis by simp blast
qed

text \<open>C7. No replay loses an entry, whatever fails: every line of the log is afterwards still in the log, or
  its request was published successfully during this replay.\<close>

theorem Replay_at_least_once:
  assumes "wal_inv l fs" "wal_Replay J publish limit l fs w = ((n, err), l', fs', w')" "x \<in> set (wal_lines l fs)"
  shows "x \<in> set (wal_lines l' fs') \<or>
    (\<exists>pre entry w1. prefix pre (wal_lines l fs) \<and> x \<in> set pre \<and> Unmarshal J x = Inr entry \<and>
       publish_all publish (requests J pre) w = (None, w1))"
proof (cases "err = None \<and> 0 < limit")
  case True
  with wal_Replay_inv [OF _ assms(1), of limit J publish w n l' fs' w'] assms(2) have
    spec: "replay_spec J publish limit (wal_lines l fs) 0 w = (n, wal_lines l' fs', w')"
    by auto
  obtain pre post where split: "wal_lines l fs = pre @ post"
      and upto: "replayed_upto J publish limit pre post w n (wal_lines l' fs') w'"
    using replay_spec_split [OF spec] by blast
  from upto obtain w1 where rest: "wal_lines l' fs' = undecodable J pre @ post"
      and pub: "publish_all publish (requests J pre) w = (None, w1)"
    by (auto simp: replayed_upto_def)
  show ?thesis
  proof (cases "x \<in> set pre \<and> \<not> isl (Unmarshal J x)")
    case True
    then obtain entry where "Unmarshal J x = Inr entry" by (cases "Unmarshal J x") auto
    with True split pub show ?thesis by (metis prefixI)
  next
    case False
    with assms(3) split rest show ?thesis by (auto simp: undecodable_def)
  qed
next
  case False
  have "l' = l \<and> content (wal_path l) fs' = content (wal_path l) fs"
  proof (cases err)
    case None
    with False assms(2) show ?thesis by (auto simp: wal_Replay_def split: if_splits)
  next
    case (Some e)
    with assms(2) have "wal_Replay J publish limit l fs w = ((n, Some e), l', fs', w')" by simp
    from wal_Replay_Some [OF this] show ?thesis by simp
  qed
  with assms(3) show ?thesis by (simp add: wal_lines_def)
qed

theorem Replay_at_least_once_witness:
  "\<exists>l' fs' w'. wal_Replay sample_codec record_publish 10 sample_log sample_fs [] = ((2, None), l', fs', w') \<and>
    (''{a}'' \<in> set (wal_lines l' fs') \<or>
     (\<exists>pre entry w1. prefix pre (wal_lines sample_log sample_fs) \<and> ''{a}'' \<in> set pre \<and>
        Unmarshal sample_codec ''{a}'' = Inr entry \<and>
        publish_all record_publish (requests sample_codec pre) [] = (None, w1)))"
proof -
  obtain l' fs' where r: "wal_Replay sample_codec record_publish 10 sample_log sample_fs []
      = ((2, None), l', fs', [''a'', ''b''])"
    by (rule sample_replayE)
  have "''{a}'' \<in> set (wal_lines sample_log sample_fs)" by code_simp
  from Replay_at_least_once [OF wal_inv_sample r this] r show ?thesis by blast
qed

text \<open>Remark. An append either adds exactly one line, the encoding of the request, at the end of the log and
  raises the depth by one, or fails and changes neither the lines nor the depth; the depth counter agrees with
  the file afterwards in both cases (as long as no write was cut short by the operating system).\<close>

theorem Append_correct:
  assumes "codec_ok J" "wal_inv l fs" "write_cut fs (wal_path l) = None"
    and "wal_Append J now reason req l fs = (err, l', fs')"
  shows "wal_inv l' fs' \<and>
    (case err of
       None \<Rightarrow> \<exists>p. Marshal J \<lparr>eTime = now, eReason = reason, eRequest = req\<rparr> = Inr p \<and>
                  wal_lines l' fs' = wal_lines l fs @ [p] \<and> depth l' = depth l + 1
     | Some e \<Rightarrow> l' = l \<and> wal_lines l' fs' = wal_lines l fs)"
proof (cases err)
  case None
  with assms(4) have ok: "wal_Append J now reason req l fs = (None, l', fs')" by simp
  then have "depth l' = depth l + 1" by (rule wal_Append_success) simp
  with wal_Append_inv [OF assms(1,2) ok] None show ?thesis by auto
next
  case (Some e)
  with assms(4) have "wal_Append J now reason req l fs = (Some e, l', fs')" by simp
  from wal_Append_failure [OF this assms(3)] show ?thesis
    using Some assms(2) by (simp add: wal_inv_def wal_lines_def)
qed

theorem Append_correct_witness:
  "\<exists>err l' fs'. wal_Append sample_codec ''t'' ''redis down'' sample_request sample_log sample_fs = (err, l', fs') \<and>
     wal_inv l' fs'"
proof -
  obtain err l' fs' where a: "wal_Append sample_codec ''t'' ''redis down'' sample_request sample_log sample_fs = (err, l', fs')"
    by (metis prod_cases3)
  have "write_cut sample_fs (wal_path sample_log) = None" by (simp add: sample_fs_def)
  from Append_correct [OF codec_ok_sample wal_inv_sample this a] a show ?thesis by blast
qed

text \<open>Remark. Opening a log counts its backlog: the depth is the number of non-blank lines in the file that the
  path resolution chose, no file content changes, and a file that ends with a newline gives the invariant.\<close>

theorem New_recovers:
  assumes "wal_New dir opts fs = (Inr l, fs')"
  shows "depth l = int (length (log_lines (content (wal_path l) fs))) \<and> wal_lines l fs' = log_lines (content (wal_path l) fs)
    \<and> resolveWALPath dir fs = Inr (wal_path l)
    \<and> (terminated (content (wal_path l) fs) \<longrightarrow> wal_inv l fs')"
  using wal_New_Inr [OF assms] by (simp add: wal_inv_def wal_lines_def)

definition sample_dir_fs :: filesys where
  "sample_dir_fs = \<lparr>files = [''data/sugar-glider.wal.jsonl'' \<mapsto> ''{a}'' @ [newline]],
     fault = (\<lambda>_ _. None), write_cut = (\<lambda>_. None)\<rparr>"

lemma sample_join:
  "filepath_Join ''data'' sugarGliderWALFilename = ''data/sugar-glider.wal.jsonl''"
  "filepath_Join ''data'' legacyWALFilename = ''data/sidecar.wal.jsonl''"
  by code_simp+

lemma sample_New: "\<exists>l fs'. wal_New ''data'' None sample_dir_fs = (Inr l, fs')"
proof -
  have "SplitByte newline (''{a}'' @ [newline]) = [''{a}'', []]" by code_simp
  then show ?thesis
    by (simp add: wal_New_def os_MkdirAll_def resolveWALPath_def os_Stat_def countFileLines_def os_OpenCreate_def
        scan_file_def scan_lines_def sample_dir_fs_def sample_join content_def MaxScanTokenSize_def)
qed

theorem New_recovers_witness:
  "\<exists>l fs'. wal_New ''data'' None sample_dir_fs = (Inr l, fs') \<and>
     depth l = int (length (log_lines (content (wal_path l) sample_dir_fs)))"
  using sample_New New_recovers by blast

section \<open>Limits over every history of the log\<close>

text \<open>The size of a file that holds the given lines, each with its newline.\<close>

definition line_bytes :: "string list \<Rightarrow> nat" where
  "line_bytes ls = sum_list (map (\<lambda>l. length l + 1) ls)"

lemma line_bytes_simps [simp]:
  "line_bytes [] = 0" "line_bytes (l # ls) = length l + 1 + line_bytes ls"
  "line_bytes (ls @ ms) = line_bytes ls + line_bytes ms"
  by (simp_all add: line_bytes_def)

lemma line_bytes_SplitByte: "line_bytes (SplitByte d c) = length c + 1"
proof (induction c)
  case (Cons x c)
  then show ?case using SplitByte_nonempty [of d c] by (auto split: list.splits)
qed simp

lemma length_trim_drop_cr: "length (TrimSpace (drop_cr s)) \<le> length s"
proof -
  have "length (TrimSpace t) \<le> length t" for t
    unfolding TrimSpace_def
    by (metis (no_types, lifting) length_rev order_trans prefix_length_le suffix_length_le trim_right_prefix trim_with_suffix)
  then show ?thesis
    by (metis diff_le_self drop_cr_def dual_order.trans length_butlast)
qed

lemma line_bytes_nonblank: "line_bytes (nonblank (map drop_cr ss)) \<le> line_bytes ss"
  by (induction ss) (auto intro: le_SucI trans_le_add2 add_mono length_trim_drop_cr)

lemma line_bytes_log_lines: "terminated c \<Longrightarrow> line_bytes (log_lines c) \<le> length c"
proof (cases "c = []")
  case False
  assume "terminated c"
  with False obtain b where b: "c = b @ [newline]" by (metis append_butlast_last_id terminated_def)
  have "line_bytes (log_lines c) \<le> line_bytes (SplitByte newline b)"
    using line_bytes_nonblank [of "SplitByte newline b"]
    by (simp add: log_lines_def b SplitByte_append_newline) (simp add: drop_cr_def)
  then show ?thesis by (simp add: line_bytes_SplitByte b)
qed simp

lemma length_Join_lines: "ls \<noteq> [] \<Longrightarrow> length (Join ls [newline]) + 1 = line_bytes ls"
  by (induction ls "[newline]" rule: Join.induct) simp_all

lemma line_bytes_filter: "line_bytes (filter P ls) \<le> line_bytes ls"
  by (induction ls) auto

lemma replay_spec_bytes:
  "replay_spec J publish limit ls n w = (n', r, w') \<Longrightarrow> line_bytes r \<le> line_bytes ls"
  using replay_spec_split by (fastforce simp: replayed_upto_def undecodable_def line_bytes_filter)

lemma length_content_rewrite:
  "wal_rewrite l ls fs = (None, fs') \<Longrightarrow> length (content (wal_path l) fs') \<le> line_bytes ls"
  using content_rewrite [of l ls fs fs'] length_Join_lines [of ls] by (cases "ls = []") auto

text \<open>
  The machine of one log: requests are appended, the backlog is replayed, and between operations the
  environment changes which file operations fail (writes are not cut short) and what the world is.
\<close>

inductive wal_step ::
  "wal_codec \<Rightarrow> (PublishRequest \<Rightarrow> 'w \<Rightarrow> go_error option \<times> 'w) \<Rightarrow>
   wal_log \<times> filesys \<times> 'w \<Rightarrow> wal_log \<times> filesys \<times> 'w \<Rightarrow> bool"
  for J publish where
  append: "wal_Append J now reason req l fs = (err, l', fs') \<Longrightarrow> fault fs OpStat (wal_path l) = None \<Longrightarrow>
     write_cut fs (wal_path l) = None \<Longrightarrow> wal_step J publish (l, fs, w) (l', fs', w)"
| replay: "wal_Replay J publish limit l fs w = ((n, err), l', fs', w') \<Longrightarrow>
     wal_step J publish (l, fs, w) (l', fs', w')"
| environment: "files fs' = files fs \<Longrightarrow> wal_step J publish (l, fs, w) (l, fs', w')"

inductive_cases wal_stepE: "wal_step J publish s t"

definition wal_within_limits :: "wal_log \<Rightarrow> filesys \<Rightarrow> bool" where
  "wal_within_limits l fs \<longleftrightarrow>
     (maxEntries l > 0 \<longrightarrow> depth l \<le> maxEntries l) \<and>
     (maxBytes l > 0 \<longrightarrow> int (length (content (wal_path l) fs)) \<le> maxBytes l)"

text \<open>The state invariant of the machine, under the contract of the codec.\<close>

fun wal_state_ok :: "wal_codec \<Rightarrow> int \<Rightarrow> int \<Rightarrow> wal_log \<times> filesys \<times> 'w \<Rightarrow> bool" where
  "wal_state_ok J me mb (l, fs, w) \<longleftrightarrow>
     (codec_ok J \<longrightarrow> wal_inv l fs \<and> wal_within_limits l fs \<and> maxEntries l = me \<and> maxBytes l = mb)"

lemma wal_Append_keeps:
  assumes "codec_ok J" "wal_inv l fs" "wal_within_limits l fs"
    and a: "wal_Append J now reason req l fs = (err, l', fs')"
    and ok: "fault fs OpStat (wal_path l) = None" "write_cut fs (wal_path l) = None"
  shows "wal_inv l' fs' \<and> wal_within_limits l' fs' \<and> maxEntries l' = maxEntries l \<and> maxBytes l' = maxBytes l"
proof (cases err)
  case None
  with a have s: "wal_Append J now reason req l fs = (None, l', fs')" by simp
  then obtain p where l': "l' = l\<lparr>depth := depth l + 1\<rparr>" and lim: "maxEntries l > 0 \<longrightarrow> depth l < maxEntries l"
    by (rule wal_Append_success)
  show ?thesis
    using wal_Append_inv(1) [OF assms(1,2) s] wal_Append_bytes [OF s _ ok(1)] lim
    by (auto simp: wal_within_limits_def l')
next
  case (Some e)
  with a have "wal_Append J now reason req l fs = (Some e, l', fs')" by simp
  from wal_Append_failure [OF this ok(2)] assms(2,3) show ?thesis
    by (simp add: wal_within_limits_def wal_inv_def wal_lines_def)
qed

lemma wal_Replay_keeps:
  assumes "wal_inv l fs" "wal_within_limits l fs"
    and r: "wal_Replay J publish limit l fs w = ((n, err), l', fs', w')"
  shows "wal_inv l' fs' \<and> wal_within_limits l' fs' \<and> maxEntries l' = maxEntries l \<and> maxBytes l' = maxBytes l"
proof (cases "err = None \<and> 0 < limit")
  case True
  with r have s: "wal_Replay J publish limit l fs w = ((n, None), l', fs', w')" and lim: "0 < limit" by auto
  from wal_Replay_None [OF lim s] obtain rest where
      spec: "replay_spec J publish limit (wal_lines l fs) 0 w = (n, rest, w')"
      and l': "wal_path l' = wal_path l" "depth l' = depth l - n" "maxEntries l' = maxEntries l" "maxBytes l' = maxBytes l"
      and fl: "rest = [] \<and> n = 0 \<and> content (wal_path l) fs' = content (wal_path l) fs \<or>
        (\<exists>fs1. wal_rewrite l rest fs1 = (None, fs'))"
    by blast
  have "line_bytes rest \<le> length (content (wal_path l) fs)"
    using replay_spec_bytes [OF spec] line_bytes_log_lines assms(1)
    by (fastforce simp: wal_inv_def wal_lines_def)
  then have "length (content (wal_path l) fs') \<le> length (content (wal_path l) fs)"
    using fl length_content_rewrite by fastforce
  moreover have "0 \<le> n" using replay_spec_bound [OF spec] by simp
  moreover have "wal_inv l' fs'" using wal_Replay_inv [OF lim assms(1) s] by blast
  ultimately show ?thesis using assms(2) l' by (auto simp: wal_within_limits_def)
next
  case False
  have "l' = l \<and> content (wal_path l) fs' = content (wal_path l) fs"
  proof (cases err)
    case None
    with False r show ?thesis by (auto simp: wal_Replay_def split: if_splits)
  next
    case (Some e)
    with r have "wal_Replay J publish limit l fs w = ((n, Some e), l', fs', w')" by simp
    from wal_Replay_Some [OF this] show ?thesis by simp
  qed
  with assms show ?thesis by (simp add: wal_within_limits_def wal_inv_def wal_lines_def)
qed

interpretation wal_machine: transition_system
  "\<lambda>(l, fs, w). wal_inv l fs \<and> wal_within_limits l fs \<and> maxEntries l = me \<and> maxBytes l = mb"
  "wal_step J publish" "wal_state_ok J me mb"
  for J :: wal_codec and publish :: "PublishRequest \<Rightarrow> 'w \<Rightarrow> go_error option \<times> 'w" and me mb :: int
proof (unfold_locales, goal_cases)
  case (1 s)
  then show ?case by (cases s) auto
next
  case (2 s t)
  from 2(2,1) show ?case
  proof (cases rule: wal_step.cases)
    case (append now reason req l fs err l' fs' w)
    with 2(1) show ?thesis using wal_Append_keeps [OF _ _ _ append(3-5)] by auto
  next
    case (replay limit l fs w n err l' fs' w')
    with 2(1) show ?thesis using wal_Replay_keeps [OF _ _ replay(3)] by auto
  next
    case (environment fs' fs l w w')
    then show ?thesis
      using 2(1) by (auto simp: wal_inv_def wal_lines_def wal_within_limits_def content_def)
  qed
qed



section \<open>Round trip and liveness\<close>

fun append_all ::
  "wal_codec \<Rightarrow> string \<Rightarrow> string \<Rightarrow> PublishRequest list \<Rightarrow> wal_log \<Rightarrow> filesys \<Rightarrow> go_error option \<times> wal_log \<times> filesys" where
  "append_all J now reason [] l fs = (None, l, fs)"
| "append_all J now reason (r # rs) l fs =
     (case wal_Append J now reason r l fs of
        (Some e, l1, fs1) \<Rightarrow> (Some e, l1, fs1)
      | (None, l1, fs1) \<Rightarrow> append_all J now reason rs l1 fs1)"

lemma append_all_lines:
  assumes "codec_ok J" "wal_inv l fs" "append_all J now reason rs l fs = (None, l', fs')"
    and dec: "\<forall>r\<in>set rs. \<forall>p. Marshal J \<lparr>eTime = now, eReason = reason, eRequest = r\<rparr> = Inr p \<longrightarrow>
       (\<exists>e. Unmarshal J p = Inr e \<and> eRequest e = r)"
  shows "wal_inv l' fs' \<and> (\<exists>ls. wal_lines l' fs' = wal_lines l fs @ ls \<and> requests J ls = rs \<and> length ls = length rs)"
  using assms(2-4)
proof (induction rs arbitrary: l fs)
  case Nil
  then show ?case by simp
next
  case (Cons r rs)
  from Cons.prems(2) obtain l1 fs1 where a: "wal_Append J now reason r l fs = (None, l1, fs1)"
      and rest: "append_all J now reason rs l1 fs1 = (None, l', fs')"
    by (auto split: prod.splits option.splits)
  from wal_Append_inv [OF assms(1) Cons.prems(1) a] obtain p where
      inv: "wal_inv l1 fs1" and p: "Marshal J \<lparr>eTime = now, eReason = reason, eRequest = r\<rparr> = Inr p"
      and ls1: "wal_lines l1 fs1 = wal_lines l fs @ [p]"
    by blast
  from Cons.IH [OF inv rest] Cons.prems(3) obtain ls where
      "wal_inv l' fs'" "wal_lines l' fs' = wal_lines l1 fs1 @ ls" "requests J ls = rs" "length ls = length rs"
    by auto
  moreover obtain e where "Unmarshal J p = Inr e" "eRequest e = r" using Cons.prems(3) p by auto
  ultimately have "wal_inv l' fs'" "wal_lines l' fs' = wal_lines l fs @ (p # ls)" "requests J (p # ls) = r # rs"
      "length (p # ls) = length (r # rs)"
    using ls1 by auto
  then show ?case by blast
qed

text \<open>A publish callback that always succeeds, applied to a list of requests.\<close>

lemma replay_spec_all:
  assumes "fst (publish_all publish (requests J ls) w) = None" "undecodable J ls = []" "n + int (length ls) \<le> limit"
  shows "replay_spec J publish limit ls n w = (n + int (length ls), [], snd (publish_all publish (requests J ls) w))"
  using assms
proof (induction ls arbitrary: n w)
  case Nil
  then show ?case by simp
next
  case (Cons l ls)
  then obtain e where e: "Unmarshal J l = Inr e" by (cases "Unmarshal J l") auto
  then obtain w1 where "publish (eRequest e) w = (None, w1)"
    using Cons.prems(1) by (auto split: prod.splits option.splits)
  with Cons e show ?case by simp
qed

text \<open>Remark. A healthy log drains: when the file operations succeed, no line exceeds the scanner's limit, every
  line decodes, publishing succeeds and the limit is at least the depth, one replay publishes every request
  of the log in order and leaves it empty, with depth zero.\<close>

theorem Replay_drains_all:
  assumes "wal_inv l fs" "fs_healthy l fs" "0 < limit" "depth l \<le> limit"
    and "fst (publish_all publish (requests J (wal_lines l fs)) w) = None"
    and "undecodable J (wal_lines l fs) = []"
    and "\<forall>s\<in>set (SplitByte newline (content (wal_path l) fs)). length s < replayScanLimit"
  shows "\<exists>l' fs'. wal_Replay J publish limit l fs w =
      ((depth l, None), l', fs', snd (publish_all publish (requests J (wal_lines l fs)) w)) \<and>
     wal_lines l' fs' = [] \<and> depth l' = 0"
proof -
  have d: "depth l = int (length (wal_lines l fs))" using assms(1) by (simp add: wal_inv_def)
  have spec: "replay_spec J publish limit (wal_lines l fs) 0 w
      = (depth l, [], snd (publish_all publish (requests J (wal_lines l fs)) w))"
    using replay_spec_all [OF assms(5,6), of 0 limit] assms(4) d by simp
  obtain n r l' fs' w' where "replay_spec J publish limit (wal_lines l fs) 0 w = (n, r, w')"
      and r: "wal_Replay J publish limit l fs w = ((n, None), l', fs', w')"
    by (rule wal_Replay_healthy [OF assms(2,3,7)])
  with spec have "n = depth l" "w' = snd (publish_all publish (requests J (wal_lines l fs)) w)" by simp_all
  with r wal_Replay_inv [OF assms(3,1) r] spec show ?thesis by (auto simp: wal_inv_def)
qed

lemma sample_healthy: "fs_healthy sample_log sample_fs"
  by (simp add: fs_healthy_def sample_fs_def)

lemma sample_short: "\<forall>s\<in>set (SplitByte newline (content (wal_path sample_log) sample_fs)). length s < replayScanLimit"
proof -
  have "SplitByte newline (content (wal_path sample_log) sample_fs) = [''{a}'', ''{b}'', []]" by code_simp
  then show ?thesis by (simp add: replayScanLimit_def)
qed

theorem Replay_drains_all_witness:
  "\<exists>l' fs'. wal_Replay sample_codec record_publish 2 sample_log sample_fs [] =
      ((depth sample_log, None), l', fs',
       snd (publish_all record_publish (requests sample_codec (wal_lines sample_log sample_fs)) [])) \<and>
     wal_lines l' fs' = [] \<and> depth l' = 0"
proof (rule Replay_drains_all [OF wal_inv_sample sample_healthy])
  show "(0::int) < 2" "depth sample_log \<le> 2" by (simp_all add: sample_log_def)
  show "fst (publish_all record_publish (requests sample_codec (wal_lines sample_log sample_fs)) []) = None" by code_simp
  show "undecodable sample_codec (wal_lines sample_log sample_fs) = []" by code_simp
  show "\<forall>s\<in>set (SplitByte newline (content (wal_path sample_log) sample_fs)). length s < replayScanLimit"
    by (rule sample_short)
qed

text \<open>C31. Round trip: requests appended to an empty log come back, exactly those and in the order of the
  appends, when the log is replayed with a working publisher.\<close>

theorem append_replay_roundtrip:
  assumes "codec_ok J" "wal_inv l fs" "wal_lines l fs = []" "append_all J now reason rs l fs = (None, l1, fs1)"
    and "\<forall>r\<in>set rs. \<forall>p. Marshal J \<lparr>eTime = now, eReason = reason, eRequest = r\<rparr> = Inr p \<longrightarrow>
       (\<exists>e. Unmarshal J p = Inr e \<and> eRequest e = r)"
    and "0 < limit" "int (length rs) \<le> limit" "fst (publish_all publish rs w) = None"
    and "wal_Replay J publish limit l1 fs1 w = ((n, None), l2, fs2, w')"
  shows "n = int (length rs) \<and> w' = snd (publish_all publish rs w) \<and> wal_lines l2 fs2 = []"
proof -
  from append_all_lines [OF assms(1,2,4,5)] assms(3) obtain ls where
      inv: "wal_inv l1 fs1" and ls: "wal_lines l1 fs1 = ls" "requests J ls = rs" "length ls = length rs"
    by auto
  have "length (requests J ls) + length (undecodable J ls) = length ls"
  proof (induction ls)
    case (Cons x xs)
    then show ?case by (cases "Unmarshal J x") auto
  qed simp
  then have "undecodable J ls = []" using ls by simp
  then have "replay_spec J publish limit ls 0 w = (int (length rs), [], snd (publish_all publish rs w))"
    using replay_spec_all [of publish J ls w 0 limit] ls assms(7,8) by simp
  with wal_Replay_inv [OF assms(6) inv assms(9)] ls(1) show ?thesis by auto
qed

definition sample_req :: "string \<Rightarrow> PublishRequest" where
  "sample_req t = \<lparr>Stream = ''s'', EventType = t, Sender = [], Recipient = [], Priority = [], Payload = ''1'', TTLSec = 0\<rparr>"

definition empty_log :: wal_log where
  "empty_log = \<lparr>wal_path = ''wal'', depth = 0, maxEntries = 0, maxBytes = 0\<rparr>"

definition empty_fs :: filesys where
  "empty_fs = \<lparr>files = Map.empty, fault = (\<lambda>_ _. None), write_cut = (\<lambda>_. None)\<rparr>"

lemma sample_append:
  "append_all sample_codec ''t'' ''r'' [sample_req ''a'', sample_req ''b''] empty_log empty_fs =
     (None, empty_log\<lparr>depth := 2\<rparr>, empty_fs\<lparr>files := [''wal'' \<mapsto> ''{a}'' @ [newline] @ ''{b}'' @ [newline]]\<rparr>)"
  by (simp add: wal_Append_def sample_codec_def sample_req_def empty_log_def empty_fs_def os_OpenCreate_def
      os_AppendWrite_def content_def ascii_visible_def)

theorem append_replay_roundtrip_witness:
  "\<exists>l1 fs1 l2 fs2. append_all sample_codec ''t'' ''r'' [sample_req ''a'', sample_req ''b''] empty_log empty_fs = (None, l1, fs1) \<and>
     wal_Replay sample_codec record_publish 10 l1 fs1 [] = ((2, None), l2, fs2, [''a'', ''b'']) \<and> wal_lines l2 fs2 = []"
proof -
  let ?rs = "[sample_req ''a'', sample_req ''b'']"
  let ?l = "empty_log\<lparr>depth := 2\<rparr>"
  let ?fs = "empty_fs\<lparr>files := [''wal'' \<mapsto> ''{a}'' @ [newline] @ ''{b}'' @ [newline]]\<rparr>"
  have segs: "SplitByte newline (content (wal_path ?l) ?fs) = [''{a}'', ''{b}'', []]" by code_simp
  have healthy: "fs_healthy ?l ?fs" by (simp add: fs_healthy_def empty_fs_def)
  have short: "\<forall>s\<in>set (SplitByte newline (content (wal_path ?l) ?fs)). length s < replayScanLimit"
    unfolding segs by (simp add: replayScanLimit_def)
  obtain n r l' fs' w' where rep: "wal_Replay sample_codec record_publish 10 ?l ?fs [] = ((n, None), l', fs', w')"
    by (rule wal_Replay_healthy [OF healthy _ short, of 10 sample_codec record_publish "[]"]) simp_all
  have "n = int (length ?rs) \<and> w' = snd (publish_all record_publish ?rs []) \<and> wal_lines l' fs' = []"
  proof (rule append_replay_roundtrip [OF codec_ok_sample _ _ sample_append _ _ _ _ rep])
    show "wal_inv empty_log empty_fs" "wal_lines empty_log empty_fs = []" by code_simp+
    show "\<forall>r\<in>set ?rs. \<forall>p. Marshal sample_codec \<lparr>eTime = ''t'', eReason = ''r'', eRequest = r\<rparr> = Inr p \<longrightarrow>
        (\<exists>e. Unmarshal sample_codec p = Inr e \<and> eRequest e = r)"
      by (auto simp: sample_codec_def sample_req_def ascii_visible_def)
    show "(0::int) < 10" "int (length ?rs) \<le> 10" by simp_all
    show "fst (publish_all record_publish ?rs []) = None" by (simp add: record_publish_def)
  qed
  then have "n = 2" "w' = [''a'', ''b'']" "wal_lines l' fs' = []"
    by (simp_all add: record_publish_def sample_req_def)
  with rep sample_append show ?thesis by blast
qed

section \<open>Where the log falls short\<close>

text \<open>C40. An entry of 64 KiB or more can be appended, but a log that holds it cannot be opened again: \<open>New\<close>
  counts lines with a scanner of the default token size and fails with \<open>bufio.ErrTooLong\<close>, although
  \<open>Replay\<close> accepts lines up to 4 MiB.\<close>

theorem New_fails_on_long_entry:
  assumes "codec_ok J" "Marshal J \<lparr>eTime = now, eReason = reason, eRequest = req\<rparr> = Inr p" "MaxScanTokenSize \<le> length p"
    and "wal_inv l fs" "fs_healthy l fs" "maxEntries l = 0" "maxBytes l = 0"
    and "wal_path l = filepath_Join dir sugarGliderWALFilename" "fault fs OpMkdirAll dir = None"
  shows "\<exists>l' fs'. wal_Append J now reason req l fs = (None, l', fs') \<and>
     fst (wal_New dir opts fs') = Inl (Wrapped ''count wal depth: '' ErrTooLong)"
proof -
  let ?c = "content (wal_path l) fs @ p @ [newline]"
  let ?fs = "fs\<lparr>files := (files fs)(wal_path l \<mapsto> ?c)\<rparr>"
  have app: "wal_Append J now reason req l fs = (None, l\<lparr>depth := depth l + 1\<rparr>, ?fs)"
    using assms(2,5-7) by (simp add: wal_Append_def os_OpenCreate_def os_AppendWrite_def fs_healthy_def content_def)
  have "stored_line p" using assms(1,2) by (simp add: codec_ok_def)
  then have nl: "newline \<notin> set p" by (simp add: stored_line_def)
  have "p \<in> set (SplitByte newline ?c)"
  proof (cases "content (wal_path l) fs = []")
    case True
    then show ?thesis using nl by (simp add: SplitByte_append_newline SplitByte_no_sep)
  next
    case False
    then obtain b where "content (wal_path l) fs = b @ [newline]"
      using assms(4) by (metis append_butlast_last_id terminated_def wal_inv_def)
    then show ?thesis using SplitByte_terminated [OF nl, of b] by simp
  qed
  then have "snd (scan_lines MaxScanTokenSize ?c)"
    using assms(3) by (subst scan_lines_long) (auto simp: MaxScanTokenSize_def)
  then have "snd (scan_file MaxScanTokenSize (wal_path l) ?fs) = Some ErrTooLong"
    using assms(5) by (auto simp: scan_file_def fs_healthy_def content_def split: prod.splits)
  then have "fst (countFileLines (wal_path l) ?fs) = Inl ErrTooLong"
    using assms(5)
    by (auto simp: countFileLines_def os_OpenCreate_def fs_healthy_def scan_file_def content_def
        split: prod.splits option.splits if_splits)
  moreover have "resolveWALPath dir ?fs = Inr (wal_path l)"
    using assms(5,8) by (auto simp: resolveWALPath_def os_Stat_def fs_healthy_def Let_def)
  ultimately have "fst (wal_New dir opts ?fs) = Inl (Wrapped ''count wal depth: '' ErrTooLong)"
    using assms(9) by (auto simp: wal_New_def os_MkdirAll_def Let_def split: sum.splits prod.splits)
  with app show ?thesis by blast
qed

definition long_codec :: wal_codec where
  "long_codec = \<lparr>Marshal = (\<lambda>e. Inr (replicate MaxScanTokenSize (CHR ''x''))), Unmarshal = (\<lambda>l. Inl (ErrMsg ''bad''))\<rparr>"

theorem New_fails_on_long_entry_witness:
  "\<exists>l' fs'. wal_Append long_codec ''t'' ''r'' (sample_req ''a'')
       \<lparr>wal_path = ''data/sugar-glider.wal.jsonl'', depth = 0, maxEntries = 0, maxBytes = 0\<rparr> empty_fs = (None, l', fs') \<and>
     fst (wal_New ''data'' None fs') = Inl (Wrapped ''count wal depth: '' ErrTooLong)"
proof (rule New_fails_on_long_entry [where p = "replicate MaxScanTokenSize (CHR ''x'')"])
  have "0 < MaxScanTokenSize" by (simp add: MaxScanTokenSize_def)
  then have "stored_line (replicate MaxScanTokenSize (CHR ''x''))"
    by (auto simp: stored_line_def ascii_visible_def intro!: TrimSpace_visible)
  then show "codec_ok long_codec" by (simp add: codec_ok_def long_codec_def)
qed (simp_all add: long_codec_def wal_inv_def wal_lines_def content_def empty_fs_def terminated_def fs_healthy_def sample_join)

text \<open>Remark. A replay that meets a line beyond the scanner's limit publishes the entries before that line but
  keeps them in the file and in the depth counter, so that every further replay publishes them again.\<close>

theorem Replay_overlong_republishes:
  assumes "fs_healthy l fs" "0 < limit"
    and "content (wal_path l) fs = a @ [newline] @ b @ [newline]" "stored_line a" "newline \<notin> set b"
    and "length a < replayScanLimit" "replayScanLimit \<le> length b"
    and "Unmarshal J a = Inr e" "publish (eRequest e) w = (None, w1)"
  shows "\<exists>fs'. wal_Replay J publish limit l fs w = ((1, Some ErrTooLong), l, fs', w1) \<and>
     wal_lines l fs' = wal_lines l fs \<and> a \<in> set (wal_lines l fs')"
proof -
  obtain fs1 where o: "os_OpenCreate (wal_path l) fs = (None, fs1)"
    using assms(1) by (auto simp: os_OpenCreate_def fs_healthy_def)
  have c: "content (wal_path l) fs1 = a @ [newline] @ b @ [newline]"
    using content_OpenCreate [OF o] assms(3) by simp
  have segs: "SplitByte newline (a @ [newline] @ b @ [newline]) = [a, b, []]"
    using SplitByte_terminated [OF assms(5), of a] assms(4) by (simp add: SplitByte_no_sep stored_line_def)
  have a: "TrimSpace a = a" "a \<noteq> []" using assms(4) by (simp_all add: stored_line_def)
  have scan: "scan_file replayScanLimit (wal_path l) fs1 = ([a], Some ErrTooLong)"
    using assms(1,6,7) fault_OpenCreateD [OF o]
    by (simp add: scan_file_def c scan_lines_def segs [simplified] fs_healthy_def drop_cr_trimmed a)
  have "replay_loop J publish limit [a] 0 [] True w = (1, [], w1)"
    using assms(2,8,9) a by simp
  then have "wal_Replay J publish limit l fs w = ((1, Some ErrTooLong), l, fs1, w1)"
    using assms(2) o scan by (simp add: wal_Replay_def)
  moreover have "wal_lines l fs1 = wal_lines l fs" by (simp add: wal_lines_def c assms(3))
  moreover have "a \<in> set (wal_lines l fs)"
    by (simp add: wal_lines_def log_lines_def assms(3) segs [simplified] drop_cr_trimmed a)
  ultimately show ?thesis by auto
qed

theorem Replay_overlong_republishes_witness:
  "\<exists>fs'. wal_Replay sample_codec record_publish 10 empty_log
       (empty_fs\<lparr>files := [''wal'' \<mapsto> ''{a}'' @ [newline] @ replicate replayScanLimit (CHR ''x'') @ [newline]]\<rparr>) [] =
       ((1, Some ErrTooLong), empty_log, fs', [''a'']) \<and>
     ''{a}'' \<in> set (wal_lines empty_log fs')"
proof -
  let ?b = "replicate replayScanLimit (CHR ''x'')"
  let ?fs = "empty_fs\<lparr>files := [''wal'' \<mapsto> ''{a}'' @ [newline] @ ?b @ [newline]]\<rparr>"
  have path: "wal_path empty_log = ''wal''" by (simp add: empty_log_def)
  have c: "content (wal_path empty_log) ?fs = ''{a}'' @ [newline] @ ?b @ [newline]" by (simp add: content_def path)
  have healthy: "fs_healthy empty_log ?fs" by (simp add: fs_healthy_def empty_fs_def)
  have "stored_line ''{a}''" by code_simp
  moreover have "newline \<notin> set ?b" by simp
  moreover have "length ''{a}'' < replayScanLimit" by (simp add: replayScanLimit_def)
  moreover have "Unmarshal sample_codec ''{a}'' = Inr \<lparr>eTime = [], eReason = [], eRequest = sample_req ''a''\<rparr>"
    by (simp add: sample_codec_def sample_req_def)
  moreover have "record_publish (sample_req ''a'') [] = (None, [''a''])"
    by (simp add: record_publish_def sample_req_def)
  ultimately show ?thesis
    using Replay_overlong_republishes [OF healthy _ c, of 10 sample_codec _ record_publish "[]" "[''a'']"] by auto
qed

end
