(* ===== verification/Metrics.thy ===== *)
theory Metrics
  imports Glider_Prelude
begin

text \<open>
  \<open>internal/metrics\<close>: the collector of counters and gauges and the pairs of a legacy
  (\<open>synapse_sidecar_\<close>) and a modern (\<open>sugar_glider_\<close>) series behind each of them.

  The Prometheus client is not part of the sources.  A Prometheus series is represented by the sequence of
  calls it has received, which is what the sources determine; what \<open>Write\<close> reads back from such a
  sequence is the parameter \<open>prom\<close>.  Counters and gauges of the collector are indexed by the names of the
  struct's fields.
\<close>

section \<open>Series\<close>

text \<open>
  The argument of \<open>Add\<close> and \<open>Set\<close> is a \<open>float64\<close>.  Every such argument but the uptime is converted from an
  integer; \<open>float64\<close> is that conversion (round to nearest, ties to even), whose result is an integer.
\<close>

fun bit_length :: "nat \<Rightarrow> nat" where
  "bit_length n = (if n = 0 then 0 else Suc (bit_length (n div 2)))"

declare bit_length.simps [simp del]

definition float64 :: "int \<Rightarrow> int" where
  "float64 n =
     (if \<bar>n\<bar> \<le> 2 ^ 53 then n
      else (let e = bit_length (nat \<bar>n\<bar>) - 53;
                q = \<bar>n\<bar> div 2 ^ e;
                r = \<bar>n\<bar> mod 2 ^ e;
                up = (r > 2 ^ (e - 1) \<or> (r = 2 ^ (e - 1) \<and> odd q))
            in sgn n * ((if up then q + 1 else q) * 2 ^ e)))"

lemma float64_exact [simp]: "\<bar>n\<bar> \<le> 2 ^ 53 \<Longrightarrow> float64 n = n"
  by (simp add: float64_def)

datatype metric_op =
    OpInc | OpDec
  | OpAdd int | OpSub int | OpSet int
  | OpSetSeconds int
  | OpSetToCurrentTime

type_synonym series = "metric_op list"

record prom =
  CounterWrite :: "series \<Rightarrow> int go_result"
  GaugeWrite :: "series \<Rightarrow> int go_result"

section \<open>Dual series\<close>

record dual =
  legacy :: series
  modern :: series

type_synonym dualCounter = dual
type_synonym dualGauge = dual

definition dualCounter_Inc :: "dualCounter \<Rightarrow> dualCounter" where
  "dualCounter_Inc d = d\<lparr>legacy := legacy d @ [OpInc], modern := modern d @ [OpInc]\<rparr>"

definition dualCounter_Add :: "int \<Rightarrow> dualCounter \<Rightarrow> dualCounter" where
  "dualCounter_Add v d = d\<lparr>legacy := legacy d @ [OpAdd v], modern := modern d @ [OpAdd v]\<rparr>"

definition dualCounter_Write :: "prom \<Rightarrow> dualCounter \<Rightarrow> int go_result" where
  "dualCounter_Write P d = CounterWrite P (legacy d)"

definition dualGauge_Set :: "int \<Rightarrow> dualGauge \<Rightarrow> dualGauge" where
  "dualGauge_Set v d = d\<lparr>legacy := legacy d @ [OpSet v], modern := modern d @ [OpSet v]\<rparr>"

definition dualGauge_SetSeconds :: "int \<Rightarrow> dualGauge \<Rightarrow> dualGauge" where
  "dualGauge_SetSeconds t d = d\<lparr>legacy := legacy d @ [OpSetSeconds t], modern := modern d @ [OpSetSeconds t]\<rparr>"

definition dualGauge_Inc :: "dualGauge \<Rightarrow> dualGauge" where
  "dualGauge_Inc d = d\<lparr>legacy := legacy d @ [OpInc], modern := modern d @ [OpInc]\<rparr>"

definition dualGauge_Dec :: "dualGauge \<Rightarrow> dualGauge" where
  "dualGauge_Dec d = d\<lparr>legacy := legacy d @ [OpDec], modern := modern d @ [OpDec]\<rparr>"

definition dualGauge_Add :: "int \<Rightarrow> dualGauge \<Rightarrow> dualGauge" where
  "dualGauge_Add v d = d\<lparr>legacy := legacy d @ [OpAdd v], modern := modern d @ [OpAdd v]\<rparr>"

definition dualGauge_Sub :: "int \<Rightarrow> dualGauge \<Rightarrow> dualGauge" where
  "dualGauge_Sub v d = d\<lparr>legacy := legacy d @ [OpSub v], modern := modern d @ [OpSub v]\<rparr>"

definition dualGauge_SetToCurrentTime :: "dualGauge \<Rightarrow> dualGauge" where
  "dualGauge_SetToCurrentTime d =
     d\<lparr>legacy := legacy d @ [OpSetToCurrentTime], modern := modern d @ [OpSetToCurrentTime]\<rparr>"

definition dualGauge_Write :: "prom \<Rightarrow> dualGauge \<Rightarrow> int go_result" where
  "dualGauge_Write P d = GaugeWrite P (legacy d)"

section \<open>The collector\<close>

datatype counter =
    publishAttempts | publishSuccess | publishQueued
  | publishPipelineEnqueued | publishPipelineFlushedBatch | publishPipelineFlushedEntry
  | publishPipelineFallback | publishPipelineAdaptiveDirect | publishPipelineError
  | readRequests | readEvents | ackRequests | ackRPCRequests | ackedEntries
  | groupEnsureAttempts | walReplayed | walReplaySyncCalls | dlqMoved | dlqReplayed
  | dispatcherDroppedSubscribers | errorsTotal
  | dispatcherReadSamples | dispatcherReadDurationMS
  | dispatcherFanOutSamples | dispatcherFanOutDurationMS
  | dispatcherAckFlushCalls | dispatcherAckFlushChunks | dispatcherAckFlushDurationMS
  | dispatcherAckExecSamples | dispatcherAckExecDurationMS
  | dispatcherAckInputEntries | dispatcherAckDedupedEntries | dispatcherAckDuplicateEntries
  | dispatcherAckContiguousSpans | dispatcherAckContiguousSaved

datatype gauge =
    publishPipelineQueueDepth
  | dispatcherReadDurationMSMax | dispatcherFanOutDurationMSMax
  | dispatcherAckFlushDurationMax | dispatcherAckExecDurationMax | dispatcherAckQueueDepthPeak
  | walDepth | uptimeSeconds

record collector =
  counters :: "counter \<Rightarrow> dualCounter"
  gauges :: "gauge \<Rightarrow> dualGauge"
  publishPipelineAdaptiveActive :: int

text \<open>The names registered by \<open>New\<close>, in the order of the source; every name is registered under both prefixes.\<close>

definition metric_names :: "((counter + gauge) \<times> string) list" where
  "metric_names =
    [(Inl publishAttempts, ''publish_attempts_total''),
     (Inl publishSuccess, ''publish_success_total''),
     (Inl publishQueued, ''publish_queued_total''),
     (Inl publishPipelineEnqueued, ''publish_pipeline_enqueued_total''),
     (Inl publishPipelineFlushedBatch, ''publish_pipeline_flushed_batches_total''),
     (Inl publishPipelineFlushedEntry, ''publish_pipeline_flushed_entries_total''),
     (Inl publishPipelineFallback, ''publish_pipeline_fallback_direct_total''),
     (Inl publishPipelineAdaptiveDirect, ''publish_pipeline_adaptive_direct_total''),
     (Inl publishPipelineError, ''publish_pipeline_errors_total''),
     (Inr publishPipelineQueueDepth, ''publish_pipeline_queue_depth''),
     (Inl readRequests, ''read_requests_total''),
     (Inl readEvents, ''read_events_total''),
     (Inl ackRequests, ''ack_requests_total''),
     (Inl ackRPCRequests, ''ack_rpc_requests_total''),
     (Inl ackedEntries, ''acked_entries_total''),
     (Inl groupEnsureAttempts, ''group_ensure_attempts_total''),
     (Inl walReplayed, ''wal_replayed_total''),
     (Inl walReplaySyncCalls, ''wal_replay_sync_calls_total''),
     (Inl dlqMoved, ''dlq_moved_total''),
     (Inl dlqReplayed, ''dlq_replayed_total''),
     (Inl dispatcherDroppedSubscribers, ''dispatcher_dropped_subscribers_total''),
     (Inl errorsTotal, ''errors_total''),
     (Inl dispatcherReadSamples, ''dispatcher_read_samples_total''),
     (Inl dispatcherReadDurationMS, ''dispatcher_read_duration_ms_total''),
     (Inr dispatcherReadDurationMSMax, ''dispatcher_read_duration_ms_max''),
     (Inl dispatcherFanOutSamples, ''dispatcher_fanout_samples_total''),
     (Inl dispatcherFanOutDurationMS, ''dispatcher_fanout_duration_ms_total''),
     (Inr dispatcherFanOutDurationMSMax, ''dispatcher_fanout_duration_ms_max''),
     (Inl dispatcherAckFlushCalls, ''dispatcher_ack_flush_calls_total''),
     (Inl dispatcherAckFlushChunks, ''dispatcher_ack_flush_chunks_total''),
     (Inl dispatcherAckFlushDurationMS, ''dispatcher_ack_flush_duration_ms_total''),
     (Inr dispatcherAckFlushDurationMax, ''dispatcher_ack_flush_duration_ms_max''),
     (Inl dispatcherAckExecSamples, ''dispatcher_ack_exec_samples_total''),
     (Inl dispatcherAckExecDurationMS, ''dispatcher_ack_exec_duration_ms_total''),
     (Inr dispatcherAckExecDurationMax, ''dispatcher_ack_exec_duration_ms_max''),
     (Inr dispatcherAckQueueDepthPeak, ''dispatcher_ack_queue_depth_peak''),
     (Inl dispatcherAckInputEntries, ''dispatcher_ack_input_entries_total''),
     (Inl dispatcherAckDedupedEntries, ''dispatcher_ack_deduped_entries_total''),
     (Inl dispatcherAckDuplicateEntries, ''dispatcher_ack_duplicate_entries_total''),
     (Inl dispatcherAckContiguousSpans, ''dispatcher_ack_contiguous_spans_total''),
     (Inl dispatcherAckContiguousSaved, ''dispatcher_ack_contiguous_saved_entries_total''),
     (Inr walDepth, ''wal_depth''),
     (Inr uptimeSeconds, ''uptime_seconds'')]"

text \<open>
  \<open>New\<close>: registers the two series of every metric, legacy first, with \<open>register\<close> standing for
  \<open>registry.MustRegister\<close>, which panics (\<open>None\<close>) on a name that is taken; the collector starts with empty series.
\<close>

fun register_all :: "(string \<Rightarrow> 'r \<Rightarrow> 'r option) \<Rightarrow> string list \<Rightarrow> 'r \<Rightarrow> 'r option" where
  "register_all register [] reg = Some reg"
| "register_all register (n # ns) reg =
     (case register n reg of None \<Rightarrow> None | Some reg' \<Rightarrow> register_all register ns reg')"

definition registered_names :: "string list" where
  "registered_names = concat (map (\<lambda>(_, n). [''synapse_sidecar_'' @ n, ''sugar_glider_'' @ n]) metric_names)"

definition metrics_New :: "(string \<Rightarrow> 'r \<Rightarrow> 'r option) \<Rightarrow> 'r \<Rightarrow> (collector \<times> 'r) option" where
  "metrics_New register reg =
     (case register_all register registered_names reg of
        None \<Rightarrow> None
      | Some reg' \<Rightarrow>
          Some (\<lparr>counters = (\<lambda>_. \<lparr>legacy = [], modern = []\<rparr>), gauges = (\<lambda>_. \<lparr>legacy = [], modern = []\<rparr>),
                 publishPipelineAdaptiveActive = 0\<rparr>, reg'))"

definition counter_Inc :: "counter \<Rightarrow> collector \<Rightarrow> collector" where
  "counter_Inc k c = c\<lparr>counters := (counters c)(k := dualCounter_Inc (counters c k))\<rparr>"

definition counter_Add :: "counter \<Rightarrow> int \<Rightarrow> collector \<Rightarrow> collector" where
  "counter_Add k v c = c\<lparr>counters := (counters c)(k := dualCounter_Add v (counters c k))\<rparr>"

definition gauge_Set :: "gauge \<Rightarrow> int \<Rightarrow> collector \<Rightarrow> collector" where
  "gauge_Set g v c = c\<lparr>gauges := (gauges c)(g := dualGauge_Set v (gauges c g))\<rparr>"

definition SetWALDepth :: "int \<Rightarrow> collector \<Rightarrow> collector" where
  "SetWALDepth depth c = gauge_Set walDepth (float64 depth) c"

definition SetUptime :: "int \<Rightarrow> collector \<Rightarrow> collector" where
  "SetUptime elapsed c = c\<lparr>gauges := (gauges c)(uptimeSeconds := dualGauge_SetSeconds elapsed (gauges c uptimeSeconds))\<rparr>"

definition SetPublishPipelineQueueDepth :: "int \<Rightarrow> collector \<Rightarrow> collector" where
  "SetPublishPipelineQueueDepth depth c = gauge_Set publishPipelineQueueDepth (float64 depth) c"

definition IncPublishAttempts :: "collector \<Rightarrow> collector" where "IncPublishAttempts = counter_Inc publishAttempts"
definition IncPublishSuccess :: "collector \<Rightarrow> collector" where "IncPublishSuccess = counter_Inc publishSuccess"
definition IncPublishQueued :: "collector \<Rightarrow> collector" where "IncPublishQueued = counter_Inc publishQueued"
definition IncPublishPipelineEnqueued :: "collector \<Rightarrow> collector" where
  "IncPublishPipelineEnqueued = counter_Inc publishPipelineEnqueued"
definition IncPublishPipelineFlushedBatch :: "collector \<Rightarrow> collector" where
  "IncPublishPipelineFlushedBatch = counter_Inc publishPipelineFlushedBatch"
definition IncPublishPipelineFlushedEntries :: "uint64 \<Rightarrow> collector \<Rightarrow> collector" where
  "IncPublishPipelineFlushedEntries n = counter_Add publishPipelineFlushedEntry (float64 (uint n))"
definition IncPublishPipelineFallback :: "collector \<Rightarrow> collector" where
  "IncPublishPipelineFallback = counter_Inc publishPipelineFallback"
definition IncPublishPipelineAdaptiveDirect :: "collector \<Rightarrow> collector" where
  "IncPublishPipelineAdaptiveDirect = counter_Inc publishPipelineAdaptiveDirect"
definition IncPublishPipelineError :: "uint64 \<Rightarrow> collector \<Rightarrow> collector" where
  "IncPublishPipelineError n = counter_Add publishPipelineError (float64 (uint n))"
definition IncReadRequest :: "collector \<Rightarrow> collector" where "IncReadRequest = counter_Inc readRequests"
definition IncReadEvents :: "uint64 \<Rightarrow> collector \<Rightarrow> collector" where
  "IncReadEvents n = counter_Add readEvents (float64 (uint n))"
definition IncAckRequest :: "collector \<Rightarrow> collector" where "IncAckRequest = counter_Inc ackRequests"
definition IncAckRPCRequest :: "collector \<Rightarrow> collector" where "IncAckRPCRequest = counter_Inc ackRPCRequests"
definition IncAckedEntries :: "uint64 \<Rightarrow> collector \<Rightarrow> collector" where
  "IncAckedEntries n = counter_Add ackedEntries (float64 (uint n))"
definition IncGroupEnsureAttempt :: "collector \<Rightarrow> collector" where
  "IncGroupEnsureAttempt = counter_Inc groupEnsureAttempts"
definition IncWALReplayed :: "uint64 \<Rightarrow> collector \<Rightarrow> collector" where
  "IncWALReplayed n = counter_Add walReplayed (float64 (uint n))"
definition IncWALReplaySyncCall :: "collector \<Rightarrow> collector" where
  "IncWALReplaySyncCall = counter_Inc walReplaySyncCalls"
definition IncDLQMoved :: "collector \<Rightarrow> collector" where "IncDLQMoved = counter_Inc dlqMoved"
definition IncDLQReplayed :: "uint64 \<Rightarrow> collector \<Rightarrow> collector" where
  "IncDLQReplayed n c = (if n = 0 then c else counter_Add dlqReplayed (float64 (uint n)) c)"
definition IncDispatcherDroppedSubscribers :: "collector \<Rightarrow> collector" where
  "IncDispatcherDroppedSubscribers = counter_Inc dispatcherDroppedSubscribers"
definition IncError :: "collector \<Rightarrow> collector" where "IncError = counter_Inc errorsTotal"

definition AddPublishPipelineAdaptiveActive :: "int \<Rightarrow> collector \<Rightarrow> int \<times> collector" where
  "AddPublishPipelineAdaptiveActive delta c =
     (let v = int64_wrap (publishPipelineAdaptiveActive c + delta)
      in (v, c\<lparr>publishPipelineAdaptiveActive := v\<rparr>))"

definition LoadPublishPipelineAdaptiveActive :: "collector \<Rightarrow> int" where
  "LoadPublishPipelineAdaptiveActive c = publishPipelineAdaptiveActive c"

section \<open>Reading metrics\<close>

definition counterValue :: "prom \<Rightarrow> dualCounter \<Rightarrow> uint64" where
  "counterValue P d = (case dualCounter_Write P d of Inl _ \<Rightarrow> 0 | Inr v \<Rightarrow> word_of_int v)"

definition gaugeValueGauge :: "prom \<Rightarrow> dualGauge \<Rightarrow> int" where
  "gaugeValueGauge P d = (case dualGauge_Write P d of Inl _ \<Rightarrow> 0 | Inr v \<Rightarrow> v)"

definition gaugeValue :: "prom \<Rightarrow> dualGauge \<Rightarrow> uint64" where
  "gaugeValue P d = word_of_int (gaugeValueGauge P d)"

definition atomicMaxGauge :: "prom \<Rightarrow> gauge \<Rightarrow> int \<Rightarrow> collector \<Rightarrow> bool \<times> collector" where
  "atomicMaxGauge P g candidate c =
     (let current = gaugeValueGauge P (gauges c g)
      in if candidate \<le> current then (True, c)
         else (let c1 = gauge_Set g candidate c
               in (gaugeValueGauge P (gauges c1 g) \<ge> candidate, c1)))"

text \<open>\<open>time.Duration\<close> is in nanoseconds; \<open>Milliseconds\<close> divides, truncating.\<close>

definition Milliseconds :: "int \<Rightarrow> int" where
  "Milliseconds d = sgn d * (\<bar>d\<bar> div 1000000)"

definition observeDurationMillis ::
  "prom \<Rightarrow> counter option \<Rightarrow> counter \<Rightarrow> gauge \<Rightarrow> int \<Rightarrow> collector \<Rightarrow> collector" where
  "observeDurationMillis P samples totalMS maxGauge duration c =
     (if duration \<le> 0 then c
      else (let ms = float64 (Milliseconds duration);
                c1 = (case samples of None \<Rightarrow> c | Some k \<Rightarrow> counter_Inc k c);
                c2 = counter_Add totalMS ms c1
            in snd (atomicMaxGauge P maxGauge ms c2)))"

definition ObserveDispatcherReadDuration :: "prom \<Rightarrow> int \<Rightarrow> collector \<Rightarrow> collector" where
  "ObserveDispatcherReadDuration P duration c =
     observeDurationMillis P (Some dispatcherReadSamples) dispatcherReadDurationMS dispatcherReadDurationMSMax duration c"

definition ObserveDispatcherFanOutDuration :: "prom \<Rightarrow> int \<Rightarrow> collector \<Rightarrow> collector" where
  "ObserveDispatcherFanOutDuration P duration c =
     observeDurationMillis P (Some dispatcherFanOutSamples) dispatcherFanOutDurationMS dispatcherFanOutDurationMSMax duration c"

definition ObserveDispatcherAckFlush :: "prom \<Rightarrow> int \<Rightarrow> int \<Rightarrow> collector \<Rightarrow> collector" where
  "ObserveDispatcherAckFlush P duration chunks c =
     (let c1 = counter_Inc dispatcherAckFlushCalls c;
          c2 = (if chunks > 0 then counter_Add dispatcherAckFlushChunks (float64 chunks) c1 else c1)
      in observeDurationMillis P None dispatcherAckFlushDurationMS dispatcherAckFlushDurationMax duration c2)"

definition ObserveDispatcherAckExecDuration :: "prom \<Rightarrow> int \<Rightarrow> collector \<Rightarrow> collector" where
  "ObserveDispatcherAckExecDuration P duration c =
     observeDurationMillis P (Some dispatcherAckExecSamples) dispatcherAckExecDurationMS dispatcherAckExecDurationMax duration c"

definition ObserveDispatcherAckQueueDepth :: "prom \<Rightarrow> int \<Rightarrow> collector \<Rightarrow> collector" where
  "ObserveDispatcherAckQueueDepth P depth c =
     (if depth \<le> 0 then c
      else if float64 depth > gaugeValueGauge P (gauges c dispatcherAckQueueDepthPeak)
      then gauge_Set dispatcherAckQueueDepthPeak (float64 depth) c else c)"

definition add_if :: "bool \<Rightarrow> counter \<Rightarrow> int \<Rightarrow> collector \<Rightarrow> collector" where
  "add_if b k v c = (if b then counter_Add k (float64 v) c else c)"

definition ObserveDispatcherAckCompression :: "int \<Rightarrow> int \<Rightarrow> int \<Rightarrow> int \<Rightarrow> collector \<Rightarrow> collector" where
  "ObserveDispatcherAckCompression inputEntries dedupedEntries contiguousSpans contiguousSavedEntries c =
     (let c1 = add_if (inputEntries > 0) dispatcherAckInputEntries inputEntries c;
          c2 = add_if (dedupedEntries > 0) dispatcherAckDedupedEntries dedupedEntries c1;
          c3 = add_if (inputEntries > dedupedEntries) dispatcherAckDuplicateEntries (inputEntries - dedupedEntries) c2;
          c4 = add_if (contiguousSpans > 0) dispatcherAckContiguousSpans contiguousSpans c3
      in add_if (contiguousSavedEntries > 0) dispatcherAckContiguousSaved contiguousSavedEntries c4)"


record Snapshot =
  PublishAttempts :: uint64
  PublishSuccess :: uint64
  PublishQueued :: uint64
  PublishPipelineEnqueued :: uint64
  PublishPipelineFlushedBatch :: uint64
  PublishPipelineFlushedEntry :: uint64
  PublishPipelineFallback :: uint64
  PublishPipelineAdaptiveDirect :: uint64
  PublishPipelineError :: uint64
  PublishPipelineQueueDepth :: int
  ReadRequests :: uint64
  ReadEvents :: uint64
  AckRequests :: uint64
  AckRPCRequests :: uint64
  AckedEntries :: uint64
  DispatcherReadSamples :: uint64
  DispatcherReadDurationMS :: uint64
  DispatcherReadDurationMSMax :: uint64
  DispatcherFanOutSamples :: uint64
  DispatcherFanOutDurationMS :: uint64
  DispatcherFanOutDurationMSMax :: uint64
  DispatcherAckFlushCalls :: uint64
  DispatcherAckFlushChunks :: uint64
  DispatcherAckFlushDurationMS :: uint64
  DispatcherAckFlushDurationMax :: uint64
  DispatcherAckExecSamples :: uint64
  DispatcherAckExecDurationMS :: uint64
  DispatcherAckExecDurationMax :: uint64
  DispatcherAckQueueDepthPeak :: uint64
  DispatcherAckInputEntries :: uint64
  DispatcherAckDedupedEntries :: uint64
  DispatcherAckDuplicateEntries :: uint64
  DispatcherAckContiguousSpans :: uint64
  DispatcherAckContiguousSaved :: uint64
  GroupEnsureAttempts :: uint64
  WALReplayed :: uint64
  WALReplaySyncCalls :: uint64
  DLQMoved :: uint64
  DLQReplayed :: uint64
  DispatcherDroppedSubscribers :: uint64
  Errors :: uint64

definition collector_Snapshot :: "prom \<Rightarrow> int \<Rightarrow> collector \<Rightarrow> Snapshot" where
  "collector_Snapshot P queueDepth c =
    \<lparr>PublishAttempts = counterValue P (counters c publishAttempts),
     PublishSuccess = counterValue P (counters c publishSuccess),
     PublishQueued = counterValue P (counters c publishQueued),
     PublishPipelineEnqueued = counterValue P (counters c publishPipelineEnqueued),
     PublishPipelineFlushedBatch = counterValue P (counters c publishPipelineFlushedBatch),
     PublishPipelineFlushedEntry = counterValue P (counters c publishPipelineFlushedEntry),
     PublishPipelineFallback = counterValue P (counters c publishPipelineFallback),
     PublishPipelineAdaptiveDirect = counterValue P (counters c publishPipelineAdaptiveDirect),
     PublishPipelineError = counterValue P (counters c publishPipelineError),
     PublishPipelineQueueDepth = queueDepth,
     ReadRequests = counterValue P (counters c readRequests),
     ReadEvents = counterValue P (counters c readEvents),
     AckRequests = counterValue P (counters c ackRequests),
     AckRPCRequests = counterValue P (counters c ackRPCRequests),
     AckedEntries = counterValue P (counters c ackedEntries),
     DispatcherReadSamples = counterValue P (counters c dispatcherReadSamples),
     DispatcherReadDurationMS = counterValue P (counters c dispatcherReadDurationMS),
     DispatcherReadDurationMSMax = gaugeValue P (gauges c dispatcherReadDurationMSMax),
     DispatcherFanOutSamples = counterValue P (counters c dispatcherFanOutSamples),
     DispatcherFanOutDurationMS = counterValue P (counters c dispatcherFanOutDurationMS),
     DispatcherFanOutDurationMSMax = gaugeValue P (gauges c dispatcherFanOutDurationMSMax),
     DispatcherAckFlushCalls = counterValue P (counters c dispatcherAckFlushCalls),
     DispatcherAckFlushChunks = counterValue P (counters c dispatcherAckFlushChunks),
     DispatcherAckFlushDurationMS = counterValue P (counters c dispatcherAckFlushDurationMS),
     DispatcherAckFlushDurationMax = gaugeValue P (gauges c dispatcherAckFlushDurationMax),
     DispatcherAckExecSamples = counterValue P (counters c dispatcherAckExecSamples),
     DispatcherAckExecDurationMS = counterValue P (counters c dispatcherAckExecDurationMS),
     DispatcherAckExecDurationMax = gaugeValue P (gauges c dispatcherAckExecDurationMax),
     DispatcherAckQueueDepthPeak = gaugeValue P (gauges c dispatcherAckQueueDepthPeak),
     DispatcherAckInputEntries = counterValue P (counters c dispatcherAckInputEntries),
     DispatcherAckDedupedEntries = counterValue P (counters c dispatcherAckDedupedEntries),
     DispatcherAckDuplicateEntries = counterValue P (counters c dispatcherAckDuplicateEntries),
     DispatcherAckContiguousSpans = counterValue P (counters c dispatcherAckContiguousSpans),
     DispatcherAckContiguousSaved = counterValue P (counters c dispatcherAckContiguousSaved),
     GroupEnsureAttempts = counterValue P (counters c groupEnsureAttempts),
     WALReplayed = counterValue P (counters c walReplayed),
     WALReplaySyncCalls = counterValue P (counters c walReplaySyncCalls),
     DLQMoved = counterValue P (counters c dlqMoved),
     DLQReplayed = counterValue P (counters c dlqReplayed),
     DispatcherDroppedSubscribers = counterValue P (counters c dispatcherDroppedSubscribers),
     Errors = counterValue P (counters c errorsTotal)\<rparr>"

section \<open>Both series of a metric stay equal\<close>

text \<open>
  The contract of a dual metric: an operation reaches the legacy and the modern series alike.  What
  follows for any sequence of operations is proved once and used for counters and gauges.
\<close>

definition in_sync :: "dual \<Rightarrow> bool" where
  "in_sync d \<longleftrightarrow> legacy d = modern d"

locale dual_metric =
  fixes op_of :: "'op \<Rightarrow> metric_op"
    and apply_op :: "'op \<Rightarrow> dual \<Rightarrow> dual"
  assumes legacy_apply: "legacy (apply_op p d) = legacy d @ [op_of p]"
    and modern_apply: "modern (apply_op p d) = modern d @ [op_of p]"
begin

lemma apply_in_sync: "in_sync d \<Longrightarrow> in_sync (apply_op p d)"
  by (simp add: in_sync_def legacy_apply modern_apply)

lemma run_series: "legacy (fold apply_op ps d) = legacy d @ map op_of ps"
  by (induction ps arbitrary: d) (simp_all add: legacy_apply)

lemma run_in_sync: "in_sync d \<Longrightarrow> in_sync (fold apply_op ps d)"
  by (induction ps arbitrary: d) (simp_all add: apply_in_sync)

end

datatype counter_op = CInc | CAdd int
datatype gauge_op = GSet int | GSetSeconds int | GInc | GDec | GAdd int | GSub int | GNow

primrec counter_apply :: "counter_op \<Rightarrow> dualCounter \<Rightarrow> dualCounter" where
  "counter_apply CInc d = dualCounter_Inc d"
| "counter_apply (CAdd v) d = dualCounter_Add v d"

primrec counter_op_of :: "counter_op \<Rightarrow> metric_op" where
  "counter_op_of CInc = OpInc"
| "counter_op_of (CAdd v) = OpAdd v"

primrec gauge_apply :: "gauge_op \<Rightarrow> dualGauge \<Rightarrow> dualGauge" where
  "gauge_apply (GSet v) d = dualGauge_Set v d"
| "gauge_apply (GSetSeconds v) d = dualGauge_SetSeconds v d"
| "gauge_apply GInc d = dualGauge_Inc d"
| "gauge_apply GDec d = dualGauge_Dec d"
| "gauge_apply (GAdd v) d = dualGauge_Add v d"
| "gauge_apply (GSub v) d = dualGauge_Sub v d"
| "gauge_apply GNow d = dualGauge_SetToCurrentTime d"

primrec gauge_op_of :: "gauge_op \<Rightarrow> metric_op" where
  "gauge_op_of (GSet v) = OpSet v"
| "gauge_op_of (GSetSeconds v) = OpSetSeconds v"
| "gauge_op_of GInc = OpInc"
| "gauge_op_of GDec = OpDec"
| "gauge_op_of (GAdd v) = OpAdd v"
| "gauge_op_of (GSub v) = OpSub v"
| "gauge_op_of GNow = OpSetToCurrentTime"

interpretation dual_counter: dual_metric counter_op_of counter_apply
proof unfold_locales
  fix p d
  show "legacy (counter_apply p d) = legacy d @ [counter_op_of p]"
    by (cases p) (simp_all add: dualCounter_Inc_def dualCounter_Add_def)
  show "modern (counter_apply p d) = modern d @ [counter_op_of p]"
    by (cases p) (simp_all add: dualCounter_Inc_def dualCounter_Add_def)
qed

lemmas gauge_defs = dualGauge_Set_def dualGauge_SetSeconds_def dualGauge_Inc_def dualGauge_Dec_def
  dualGauge_Add_def dualGauge_Sub_def dualGauge_SetToCurrentTime_def

interpretation dual_gauge: dual_metric gauge_op_of gauge_apply
proof unfold_locales
  fix p d
  show "legacy (gauge_apply p d) = legacy d @ [gauge_op_of p]"
    by (cases p) (simp_all add: gauge_defs)
  show "modern (gauge_apply p d) = modern d @ [gauge_op_of p]"
    by (cases p) (simp_all add: gauge_defs)
qed

text \<open>
  Every method of the collector is a sequence of primitive updates of single metrics.  The relation lists
  the methods; the invariant of the collector is that all its dual metrics are in sync.
\<close>

inductive collector_step :: "prom \<Rightarrow> collector \<Rightarrow> collector \<Rightarrow> bool" for P where
  SetWALDepth: "collector_step P c (SetWALDepth depth c)"
| SetUptime: "collector_step P c (SetUptime elapsed c)"
| SetPublishPipelineQueueDepth: "collector_step P c (SetPublishPipelineQueueDepth depth c)"
| Inc: "f \<in> {IncPublishAttempts, IncPublishSuccess, IncPublishQueued, IncPublishPipelineEnqueued,
           IncPublishPipelineFlushedBatch, IncPublishPipelineFallback, IncPublishPipelineAdaptiveDirect,
           IncReadRequest, IncAckRequest, IncAckRPCRequest, IncGroupEnsureAttempt, IncWALReplaySyncCall,
           IncDLQMoved, IncDispatcherDroppedSubscribers, IncError} \<Longrightarrow> collector_step P c (f c)"
| Add: "g \<in> {IncPublishPipelineFlushedEntries, IncPublishPipelineError, IncReadEvents, IncAckedEntries,
           IncWALReplayed, IncDLQReplayed} \<Longrightarrow> collector_step P c (g n c)"
| Active: "collector_step P c (snd (AddPublishPipelineAdaptiveActive delta c))"
| ReadDuration: "collector_step P c (ObserveDispatcherReadDuration P d c)"
| FanOutDuration: "collector_step P c (ObserveDispatcherFanOutDuration P d c)"
| AckFlush: "collector_step P c (ObserveDispatcherAckFlush P d n' c)"
| AckExec: "collector_step P c (ObserveDispatcherAckExecDuration P d c)"
| AckQueueDepth: "collector_step P c (ObserveDispatcherAckQueueDepth P depth c)"
| AckCompression: "collector_step P c (ObserveDispatcherAckCompression a b e f' c)"

definition collector_init :: "collector \<Rightarrow> bool" where
  "collector_init c \<longleftrightarrow> (\<exists>register (reg :: string list) reg'. metrics_New register reg = Some (c, reg'))"

definition collector_in_sync :: "collector \<Rightarrow> bool" where
  "collector_in_sync c \<longleftrightarrow> (\<forall>k. in_sync (counters c k)) \<and> (\<forall>g. in_sync (gauges c g))"

lemma counter_Inc_sync: "collector_in_sync c \<Longrightarrow> collector_in_sync (counter_Inc k c)"
  using dual_counter.apply_in_sync [of "counters c k" CInc] by (simp add: collector_in_sync_def counter_Inc_def)

lemma counter_Add_sync: "collector_in_sync c \<Longrightarrow> collector_in_sync (counter_Add k v c)"
  using dual_counter.apply_in_sync [of "counters c k" "CAdd v"] by (simp add: collector_in_sync_def counter_Add_def)

lemma gauge_Set_sync: "collector_in_sync c \<Longrightarrow> collector_in_sync (gauge_Set g v c)"
  using dual_gauge.apply_in_sync [of "gauges c g" "GSet v"] by (simp add: collector_in_sync_def gauge_Set_def)

lemma SetUptime_sync: "collector_in_sync c \<Longrightarrow> collector_in_sync (SetUptime t c)"
  using dual_gauge.apply_in_sync [of "gauges c uptimeSeconds" "GSetSeconds t"]
  by (simp add: collector_in_sync_def SetUptime_def)

lemma atomicMaxGauge_sync: "collector_in_sync c \<Longrightarrow> collector_in_sync (snd (atomicMaxGauge P g v c))"
  by (simp add: atomicMaxGauge_def Let_def gauge_Set_sync)

lemma add_if_sync: "collector_in_sync c \<Longrightarrow> collector_in_sync (add_if b k v c)"
  by (simp add: add_if_def counter_Add_sync)

lemma observeDurationMillis_sync:
  "collector_in_sync c \<Longrightarrow> collector_in_sync (observeDurationMillis P k t g d c)"
  by (auto simp: observeDurationMillis_def Let_def
      intro!: atomicMaxGauge_sync counter_Add_sync counter_Inc_sync split: option.split)

lemmas collector_sync = counter_Inc_sync counter_Add_sync gauge_Set_sync SetUptime_sync atomicMaxGauge_sync
  add_if_sync observeDurationMillis_sync

lemmas collector_inc_defs = IncPublishAttempts_def IncPublishSuccess_def IncPublishQueued_def
  IncPublishPipelineEnqueued_def IncPublishPipelineFlushedBatch_def IncPublishPipelineFallback_def
  IncPublishPipelineAdaptiveDirect_def IncReadRequest_def IncAckRequest_def IncAckRPCRequest_def
  IncGroupEnsureAttempt_def IncWALReplaySyncCall_def IncDLQMoved_def IncDispatcherDroppedSubscribers_def
  IncError_def

lemmas collector_add_defs = IncPublishPipelineFlushedEntries_def IncPublishPipelineError_def IncReadEvents_def
  IncAckedEntries_def IncWALReplayed_def IncDLQReplayed_def

lemma collector_step_sync: "collector_step P c c' \<Longrightarrow> collector_in_sync c \<Longrightarrow> collector_in_sync c'"
proof (induction rule: collector_step.induct)
  case (Inc f c)
  then show ?case by (auto simp: collector_inc_defs intro: counter_Inc_sync)
next
  case (Add g c n)
  then show ?case by (auto simp: collector_add_defs intro: counter_Add_sync)
next
  case (Active c delta)
  then show ?case by (simp add: AddPublishPipelineAdaptiveActive_def Let_def collector_in_sync_def)
next
  case (AckQueueDepth c depth)
  then show ?case by (simp add: ObserveDispatcherAckQueueDepth_def gauge_Set_sync)
qed (simp_all add: collector_sync SetWALDepth_def SetPublishPipelineQueueDepth_def ObserveDispatcherReadDuration_def
    ObserveDispatcherFanOutDuration_def ObserveDispatcherAckFlush_def ObserveDispatcherAckExecDuration_def
    ObserveDispatcherAckCompression_def Let_def)

lemma collector_init_sync: "collector_init c \<Longrightarrow> collector_in_sync c"
  by (auto simp: collector_init_def metrics_New_def collector_in_sync_def in_sync_def split: option.splits)

interpretation collector_machine: transition_system collector_init "collector_step P" collector_in_sync for P
  by unfold_locales (auto intro: collector_init_sync collector_step_sync)

text \<open>Remark. Whatever methods of the collector run after \<open>New\<close>, in any order and with any arguments, the
  \<open>synapse_sidecar_\<close> series and the \<open>sugar_glider_\<close> series of every counter and gauge have received the same
  calls, so dashboards on the old and the new names agree.\<close>

theorem dual_series_agree:
  assumes "metrics_New register (reg :: string list) = Some (c0, reg')" "(collector_step P)\<^sup>*\<^sup>* c0 c"
  shows "legacy (counters c k) = modern (counters c k) \<and> legacy (gauges c g) = modern (gauges c g)"
proof -
  from assms(1) have "collector_init c0" by (auto simp: collector_init_def)
  then have "collector_in_sync c" by (rule collector_machine.reachable_inv) (rule assms(2))
  then show ?thesis by (simp add: collector_in_sync_def in_sync_def)
qed

definition register_name :: "string \<Rightarrow> string list \<Rightarrow> string list option" where
  "register_name n reg = (if n \<in> set reg then None else Some (n # reg))"

definition sample_collector :: collector where
  "sample_collector = \<lparr>counters = (\<lambda>_. \<lparr>legacy = [], modern = []\<rparr>), gauges = (\<lambda>_. \<lparr>legacy = [], modern = []\<rparr>),
     publishPipelineAdaptiveActive = 0\<rparr>"

lemma register_all_fresh:
  assumes "\<And>n reg. n \<notin> names reg \<Longrightarrow> \<exists>reg'. register n reg = Some reg' \<and> names reg' = insert n (names reg)"
  shows "distinct ns \<Longrightarrow> set ns \<inter> names reg = {} \<Longrightarrow> \<exists>reg'. register_all register ns reg = Some reg' \<and> names reg' = set ns \<union> names reg"
proof (induction ns arbitrary: reg)
  case (Cons n ns)
  then obtain r where "register n reg = Some r" "names r = insert n (names reg)" using assms [of n reg] by auto
  moreover from this Cons.prems have "set ns \<inter> names r = {}" by auto
  ultimately show ?case using Cons.IH [of r] Cons.prems by auto
qed simp

lemma distinct_two_prefixes:
  assumes "\<And>a b. p @ a \<noteq> q @ b"
  shows "distinct ns \<Longrightarrow> distinct (concat (map (\<lambda>n. [p @ n, q @ n]) ns))"
proof (induction ns)
  case (Cons n ns)
  have "p @ n \<notin> set (concat (map (\<lambda>n. [p @ n, q @ n]) ns))" "q @ n \<notin> set (concat (map (\<lambda>n. [p @ n, q @ n]) ns))"
    using Cons.prems assms assms [symmetric] by auto
  then show ?case using Cons assms [of n n] by simp
qed simp

lemma metric_names_distinct: "distinct (map snd metric_names)"
  by (simp add: metric_names_def)

lemma registered_distinct: "distinct registered_names"
proof -
  have "registered_names = concat (map (\<lambda>n. [''synapse_sidecar_'' @ n, ''sugar_glider_'' @ n]) (map snd metric_names))"
    by (simp add: registered_names_def split_def comp_def)
  then show ?thesis
    using distinct_two_prefixes [OF _ metric_names_distinct, of "''synapse_sidecar_''" "''sugar_glider_''"] by simp
qed


text \<open>Remark. \<open>New\<close> cannot panic: with a registry that accepts every name it does not hold yet (which is what
  \<open>MustRegister\<close> documents), all series of the collector are registered, because the names are pairwise distinct.\<close>

theorem metrics_New_registers:
  assumes "\<And>n reg. n \<notin> names reg \<Longrightarrow> \<exists>reg'. register n reg = Some reg' \<and> names reg' = insert n (names reg)"
    and "names reg0 = {}"
  shows "\<exists>c reg'. metrics_New register reg0 = Some (c, reg') \<and> names reg' = set registered_names"
  using register_all_fresh [OF assms(1) registered_distinct, of reg0] assms(2) by (auto simp: metrics_New_def)

theorem metrics_New_registers_witness:
  "\<exists>c reg'. metrics_New register_name [] = Some (c, reg') \<and> set reg' = set registered_names"
  by (rule metrics_New_registers [of set]) (simp_all add: register_name_def)

theorem dual_series_agree_witness:
  "\<exists>c0 reg'. metrics_New register_name [] = Some (c0, reg') \<and>
     legacy (counters (IncError c0) errorsTotal) = modern (counters (IncError c0) errorsTotal)"
proof -
  obtain reg' where "register_all register_name registered_names [] = Some reg'"
    using register_all_fresh [of set register_name registered_names "[]"] registered_distinct
    by (auto simp: register_name_def)
  then have init: "metrics_New register_name [] = Some (sample_collector, reg')"
    by (simp add: metrics_New_def sample_collector_def)
  have "(collector_step P)\<^sup>*\<^sup>* sample_collector (IncError sample_collector)" for P
    by (rule r_into_rtranclp) (simp add: collector_step.Inc)
  from dual_series_agree [OF init this] init show ?thesis by blast
qed

section \<open>What the gauges and counters report\<close>

text \<open>
  The behaviour of the Prometheus client that the collector relies on: a counter reads as the sum of its
  increments, a gauge as the last value set.
\<close>

primrec counted :: "metric_op \<Rightarrow> int" where
  "counted OpInc = 1"
| "counted OpDec = - 1"
| "counted (OpAdd v) = v"
| "counted (OpSub v) = - v"
| "counted (OpSet v) = 0"
| "counted (OpSetSeconds v) = 0"
| "counted OpSetToCurrentTime = 0"

definition counter_total :: "series \<Rightarrow> int" where
  "counter_total ops = sum_list (map counted ops)"

definition reads_counters :: "prom \<Rightarrow> bool" where
  "reads_counters P \<longleftrightarrow> (\<forall>ops. CounterWrite P ops = Inr (counter_total ops))"

definition reads_gauges :: "prom \<Rightarrow> bool" where
  "reads_gauges P \<longleftrightarrow> (\<forall>ops v. GaugeWrite P [] = Inr 0 \<and> GaugeWrite P (ops @ [OpSet v]) = Inr v)"

definition sample_prom :: prom where
  "sample_prom = \<lparr>CounterWrite = (\<lambda>ops. Inr (counter_total ops)),
     GaugeWrite = (\<lambda>ops. Inr (case rev ops of OpSet v # _ \<Rightarrow> v | _ \<Rightarrow> 0))\<rparr>"

lemma counter_total_simps [simp]:
  "counter_total [] = 0"
  "counter_total (ops @ [x]) = counter_total ops + counted x"
  by (simp_all add: counter_total_def)

lemma gaugeValueGauge_Set: "reads_gauges P \<Longrightarrow> gaugeValueGauge P (gauges (gauge_Set g v c) g) = v"
  by (simp add: reads_gauges_def gaugeValueGauge_def dualGauge_Write_def gauge_Set_def dualGauge_Set_def)

lemma gauge_other [simp]:
  "gauges (counter_Inc k c) = gauges c" "gauges (counter_Add k v c) = gauges c"
  "counters (gauge_Set g v c) = counters c"
  by (simp_all add: counter_Inc_def counter_Add_def gauge_Set_def)

lemma atomicMaxGauge_max:
  assumes "reads_gauges P"
  shows "gaugeValueGauge P (gauges (snd (atomicMaxGauge P g v c)) g) = max (gaugeValueGauge P (gauges c g)) v"
    and "fst (atomicMaxGauge P g v c)"
    and "counters (snd (atomicMaxGauge P g v c)) = counters c"
  using gaugeValueGauge_Set [OF assms, of g v c] by (simp_all add: atomicMaxGauge_def Let_def)

lemma Milliseconds_exact: "0 < d \<Longrightarrow> d \<le> MaxInt64 \<Longrightarrow> float64 (Milliseconds d) = d div 1000000"
proof -
  assume d: "0 < d" "d \<le> MaxInt64"
  then have "\<bar>Milliseconds d\<bar> \<le> 2 ^ 53" "Milliseconds d = d div 1000000" by (simp_all add: Milliseconds_def)
  then show ?thesis by simp
qed

lemma observeDurationMillis_one:
  fixes c :: collector and g :: gauge
  assumes "reads_gauges P" "t \<noteq> k" "d \<le> MaxInt64"
  defines "c' \<equiv> observeDurationMillis P (Some k) t g d c"
  shows "counter_total (legacy (counters c' k)) = counter_total (legacy (counters c k)) + (if d > 0 then 1 else 0)"
    and "counter_total (legacy (counters c' t)) = counter_total (legacy (counters c t)) + (if d > 0 then d div 1000000 else 0)"
    and "gaugeValueGauge P (gauges c' g) =
           (if d > 0 then max (gaugeValueGauge P (gauges c g)) (d div 1000000) else gaugeValueGauge P (gauges c g))"
  using assms(2,3) Milliseconds_exact [of d]
  by (auto simp: c'_def observeDurationMillis_def Let_def atomicMaxGauge_max [OF assms(1)] counter_Add_def counter_Inc_def
      dualCounter_Inc_def dualCounter_Add_def)

text \<open>Remark. The duration statistics of the dispatcher's reads are exact: after any sequence of observed
  durations the samples counter is the number of positive durations, the total is the sum of their whole
  milliseconds, and the maximum gauge is their largest.\<close>

definition max_ms :: "int list \<Rightarrow> int" where
  "max_ms ds = fold (\<lambda>d m. max m (d div 1000000)) ds 0"

lemma read_durations:
  assumes "reads_gauges P" "\<forall>d\<in>set ds. d \<le> MaxInt64" "c' = fold (ObserveDispatcherReadDuration P) ds c"
  shows "counter_total (legacy (counters c' dispatcherReadSamples)) =
           counter_total (legacy (counters c dispatcherReadSamples)) + int (length (filter (\<lambda>d. d > 0) ds)) \<and>
         counter_total (legacy (counters c' dispatcherReadDurationMS)) =
           counter_total (legacy (counters c dispatcherReadDurationMS)) + sum_list (map (\<lambda>d. d div 1000000) (filter (\<lambda>d. d > 0) ds)) \<and>
         gaugeValueGauge P (gauges c' dispatcherReadDurationMSMax) =
           fold (\<lambda>d m. max m (d div 1000000)) (filter (\<lambda>d. d > 0) ds) (gaugeValueGauge P (gauges c dispatcherReadDurationMSMax))"
  using assms(2,3)
proof (induction ds arbitrary: c)
  case (Cons d ds)
  have one: "ObserveDispatcherReadDuration P d c =
      observeDurationMillis P (Some dispatcherReadSamples) dispatcherReadDurationMS dispatcherReadDurationMSMax d c"
    by (simp add: ObserveDispatcherReadDuration_def)
  note step = observeDurationMillis_one [OF assms(1), of dispatcherReadDurationMS dispatcherReadSamples d
      dispatcherReadDurationMSMax c, folded one]
  show ?case
    using Cons.IH [of "ObserveDispatcherReadDuration P d c"] Cons.prems step by (cases "0 < d") simp_all
qed simp

theorem read_duration_statistics:
  assumes "reads_counters P" "reads_gauges P" "\<forall>d\<in>set ds. d \<le> MaxInt64"
    and "metrics_New register (reg :: string list) = Some (c0, reg')"
  shows "(let c = fold (ObserveDispatcherReadDuration P) ds c0; pos = filter (\<lambda>d. d > 0) ds; s = collector_Snapshot P q c
     in DispatcherReadSamples s = word_of_nat (length pos) \<and>
        DispatcherReadDurationMS s = word_of_int (sum_list (map (\<lambda>d. d div 1000000) pos)) \<and>
        DispatcherReadDurationMSMax s = word_of_int (max_ms pos))"
proof -
  have c0: "counters c0 k = \<lparr>legacy = [], modern = []\<rparr>" "gauges c0 g = \<lparr>legacy = [], modern = []\<rparr>" for k g
    using assms(4) by (auto simp: metrics_New_def split: option.splits)
  have "gaugeValueGauge P (gauges c0 dispatcherReadDurationMSMax) = 0"
    using assms(2) by (simp add: c0 gaugeValueGauge_def dualGauge_Write_def reads_gauges_def)
  then show ?thesis
    using read_durations [OF assms(2,3) refl, of c0] assms(1)
    by (simp add: collector_Snapshot_def Let_def counterValue_def dualCounter_Write_def reads_counters_def c0
        gaugeValue_def max_ms_def)
qed

theorem read_duration_statistics_witness:
  "\<exists>c0 reg'. metrics_New register_name [] = Some (c0, reg') \<and>
     DispatcherReadDurationMSMax (collector_Snapshot sample_prom 0
       (fold (ObserveDispatcherReadDuration sample_prom) [3000000, 0, 7500000, 2000000] c0)) = 7"
proof -
  obtain reg' where "register_all register_name registered_names [] = Some reg'"
    using register_all_fresh [of set register_name registered_names "[]"] registered_distinct
    by (auto simp: register_name_def)
  then have init: "metrics_New register_name [] = Some (sample_collector, reg')"
    by (simp add: metrics_New_def sample_collector_def)
  have "reads_counters sample_prom" "reads_gauges sample_prom"
    by (simp_all add: reads_counters_def reads_gauges_def sample_prom_def)
  then have "DispatcherReadDurationMSMax (collector_Snapshot sample_prom 0
       (fold (ObserveDispatcherReadDuration sample_prom) [3000000, 0, 7500000, 2000000] sample_collector)) = word_of_int (max_ms [3000000, 7500000, 2000000])"
    using read_duration_statistics [OF _ _ _ init, of sample_prom "[3000000, 0, 7500000, 2000000]" 0]
    by (simp add: Let_def)
  then show ?thesis using init by (auto simp: max_ms_def)
qed

end
