(* ===== verification/Redis_Memory.thy ===== *)
theory Redis_Memory
  imports Redis_Streams
begin

text \<open>
  A concrete instance of the Redis interface, kept in memory: streams with increasing identifiers, pending
  entries per group, acknowledgements, the accepted \<open>XADD\<close> commands, and a switch that makes every command fail.  Only the examples
  that exercise the theorems use it.
\<close>

record mem_world =
  memStreams :: "string \<Rightarrow> XMessage list"
  memPending :: "string \<Rightarrow> XPendingExt list"
  memAcked :: "(string \<times> string \<times> string list) list"
  memAdded :: "XAddArgs list"
  memNext :: nat
  memDown :: bool

definition mem_fields :: "XAddArgs \<Rightarrow> string \<rightharpoonup> goany" where
  "mem_fields a = (case xaValues a of ValueSlice vs \<Rightarrow> stored_fields a
     | ValueMap m \<Rightarrow> (\<lambda>k. map_option (\<lambda>v. GoString (toString v)) (m k)))"

definition mem_down :: go_error where "mem_down = ErrMsg ''connection refused''"

definition mem_XAdd :: "ctx \<Rightarrow> XAddArgs \<Rightarrow> mem_world \<Rightarrow> string go_result \<times> mem_world" where
  "mem_XAdd ctx a w =
     (if memDown w then (Inl mem_down, w)
      else (let eid = FormatNat (memNext w) @ ''-0''
            in (Inr eid, w\<lparr>memNext := memNext w + 1, memAdded := memAdded w @ [a],
                  memStreams := (memStreams w)(xaStream a := memStreams w (xaStream a) @ [\<lparr>msgID = eid, msgValues = mem_fields a\<rparr>])\<rparr>)))"

definition mem_XAck :: "ctx \<Rightarrow> string \<Rightarrow> string \<Rightarrow> string list \<Rightarrow> mem_world \<Rightarrow> int go_result \<times> mem_world" where
  "mem_XAck ctx st grp ids w =
     (if memDown w then (Inl mem_down, w)
      else (Inr (int (length (filter (\<lambda>p. pendID p \<in> set ids) (memPending w st)))),
            w\<lparr>memAcked := memAcked w @ [(st, grp, ids)],
              memPending := (memPending w)(st := filter (\<lambda>p. pendID p \<notin> set ids) (memPending w st))\<rparr>))"

definition mem_XDel :: "ctx \<Rightarrow> string \<Rightarrow> string \<Rightarrow> mem_world \<Rightarrow> int go_result \<times> mem_world" where
  "mem_XDel ctx st i w =
     (if memDown w then (Inl mem_down, w)
      else (Inr 1, w\<lparr>memStreams := (memStreams w)(st := filter (\<lambda>m. msgID m \<noteq> i) (memStreams w st))\<rparr>))"

definition mem_XRange :: "ctx \<Rightarrow> string \<Rightarrow> string \<Rightarrow> string \<Rightarrow> mem_world \<Rightarrow> XMessage list go_result \<times> mem_world" where
  "mem_XRange ctx st a b w =
     (if memDown w then (Inl mem_down, w)
      else (Inr (filter (\<lambda>m. (a = ''-'' \<or> msgID m = a) \<and> (b = ''+'' \<or> msgID m = b)) (memStreams w st)), w))"

definition mem_XRangeN :: "ctx \<Rightarrow> string \<Rightarrow> string \<Rightarrow> string \<Rightarrow> int \<Rightarrow> mem_world \<Rightarrow> XMessage list go_result \<times> mem_world" where
  "mem_XRangeN ctx st a b n w =
     (case mem_XRange ctx st a b w of (Inl e, w1) \<Rightarrow> (Inl e, w1) | (Inr ms, w1) \<Rightarrow> (Inr (take (nat n) ms), w1))"

definition mem_XReadGroup ::
  "ctx \<Rightarrow> XReadGroupArgs \<Rightarrow> mem_world \<Rightarrow> (string \<times> XMessage list) list go_result \<times> mem_world" where
  "mem_XReadGroup ctx a w =
     (let st = hd (xrStreams a); ms = take (nat (xrCount a)) (memStreams w st)
      in if memDown w then (Inl mem_down, w)
         else if ms = [] then (Inl RedisNil, w)
         else (Inr [(st, ms)],
               w\<lparr>memPending := (memPending w)(st := memPending w st @
                   map (\<lambda>m. \<lparr>pendID = msgID m, pendIdle = 0, pendRetryCount = 1\<rparr>)
                     (filter (\<lambda>m. msgID m \<notin> pendID ` set (memPending w st)) ms))\<rparr>))"

definition mem_XPendingExt :: "ctx \<Rightarrow> XPendingExtArgs \<Rightarrow> mem_world \<Rightarrow> XPendingExt list go_result \<times> mem_world" where
  "mem_XPendingExt ctx a w =
     (if memDown w then (Inl mem_down, w)
      else (Inr (take (nat (xpCount a)) (if xpStart a = ''-'' then memPending w (xpStream a) else [])), w))"

fun mem_ExecXAdds :: "ctx \<Rightarrow> XAddArgs list \<Rightarrow> mem_world \<Rightarrow> (go_error option \<times> string go_result list) \<times> mem_world" where
  "mem_ExecXAdds ctx [] w = ((None, []), w)"
| "mem_ExecXAdds ctx (a # as) w =
     (case mem_XAdd ctx a w of (r, w1) \<Rightarrow>
        (case mem_ExecXAdds ctx as w1 of ((e, rs), w2) \<Rightarrow>
           ((case r of Inl err \<Rightarrow> Some err | Inr _ \<Rightarrow> e, r # rs), w2)))"

fun mem_ExecXAcks ::
  "ctx \<Rightarrow> (string \<times> string \<times> string list) list \<Rightarrow> mem_world \<Rightarrow> (go_error option \<times> int go_result list) \<times> mem_world" where
  "mem_ExecXAcks ctx [] w = ((None, []), w)"
| "mem_ExecXAcks ctx ((st, grp, ids) # as) w =
     (case mem_XAck ctx st grp ids w of (r, w1) \<Rightarrow>
        (case mem_ExecXAcks ctx as w1 of ((e, rs), w2) \<Rightarrow>
           ((case r of Inl err \<Rightarrow> Some err | Inr _ \<Rightarrow> e, r # rs), w2)))"

definition mem_redis :: "mem_world redis" where
  "mem_redis =
     \<lparr>Ping = (\<lambda>c w. (if memDown w then Some mem_down else None, w)),
      XAdd = mem_XAdd, XAck = mem_XAck, XDel = mem_XDel, XRange = mem_XRange, XRangeN = mem_XRangeN,
      XReadGroup = mem_XReadGroup,
      XGroupCreateMkStream = (\<lambda>c st grp start w. (if memDown w then Some mem_down else None, w)),
      XInfoGroups = (\<lambda>c st w. (if memDown w then Inl mem_down else Inr [''g''], w)),
      XInfoStreamCmd = (\<lambda>c st w.
        (if memDown w then Inl mem_down
         else if memStreams w st = [] then Inl (ErrMsg ''ERR no such key'')
         else Inr \<lparr>infoLength = int (length (memStreams w st)), infoFirstEntryID = msgID (hd (memStreams w st)),
                   infoLastEntryID = msgID (last (memStreams w st))\<rparr>, w)),
      XPendingExtCmd = mem_XPendingExt,
      ExecXAdds = mem_ExecXAdds, ExecXAcks = mem_ExecXAcks,
      Now = (\<lambda>w. (''2025-01-01T00:00:00Z'', w)), Clock = (\<lambda>w. (0, w)),
      CtxErr = (\<lambda>c w. None)\<rparr>"

definition mem_empty :: mem_world where
  "mem_empty = \<lparr>memStreams = (\<lambda>_. []), memPending = (\<lambda>_. []), memAcked = [], memAdded = [], memNext = 1, memDown = False\<rparr>"

lemmas mem_defs = mem_redis_def mem_XAdd_def mem_XAck_def mem_XDel_def mem_XRange_def mem_XRangeN_def mem_XReadGroup_def
  mem_XPendingExt_def mem_down_def mem_empty_def mem_fields_def

lemma mem_redis_simps [simp]:
  "XAdd mem_redis = mem_XAdd" "XAck mem_redis = mem_XAck" "XDel mem_redis = mem_XDel"
  "XRange mem_redis = mem_XRange" "XRangeN mem_redis = mem_XRangeN" "XReadGroup mem_redis = mem_XReadGroup"
  "XPendingExtCmd mem_redis = mem_XPendingExt" "ExecXAdds mem_redis = mem_ExecXAdds" "ExecXAcks mem_redis = mem_ExecXAcks"
  "Now mem_redis = (\<lambda>w. (''2025-01-01T00:00:00Z'', w))" "Clock mem_redis = (\<lambda>w. (0, w))" "CtxErr mem_redis = (\<lambda>c w. None)"
  by (simp_all add: mem_redis_def)

end
