(* ===== verification/Sidecar.thy ===== *)
theory Sidecar
  imports Config Wal Metrics Redis_Memory
begin

text \<open>
  \<open>internal/service/service.go\<close>: the state of the sidecar and its publish path, from the HTTP handler through
  normalisation, the choice between the pipeline and the direct publisher, the write-ahead log on failure and
  the replay of the log.

  A method of \<open>*Sidecar\<close> is a function from the state to its results and the new state.  The state holds the
  struct's fields and, in addition, what the methods act on outside the process: the disk and the world behind
  Redis.  \<open>publishClient\<close> and \<open>publishPipelineClient\<close> are interfaces of the source and are fields holding their
  operations; the pipeline's operations also see the collector, since its goroutine increments counters of the
  sidecar.  A call is atomic in the model; \<open>replayMu\<close> says whether another goroutine holds the replay lock.
\<close>

section \<open>State\<close>

record 'w publishPipelineClient =
  pipePublish :: "ctx \<Rightarrow> PublishRequest \<Rightarrow> 'w \<times> collector \<Rightarrow> string go_result \<times> 'w \<times> collector"
  pipePublishMany :: "ctx \<Rightarrow> PublishRequest list \<Rightarrow> 'w \<times> collector \<Rightarrow> string go_result list go_result \<times> 'w \<times> collector"
  pipeQueueLength :: "'w \<Rightarrow> int"

type_synonym 'w publishClient = "ctx \<Rightarrow> PublishRequest \<Rightarrow> 'w \<Rightarrow> string go_result \<times> 'w"

record 'w sidecar =
  cfg :: Config
  redis :: "'w redis"
  publisher :: "'w publishClient"
  publishPipeline :: "'w publishPipelineClient option"
  wal :: wal_log
  replayMu :: bool
  consumerGroupsEnsured :: "string set"
  startedAt :: int
  collector :: collector
  walJSON :: wal_codec
  promClient :: prom
  disk :: filesys
  world :: 'w

section \<open>HTTP vocabulary\<close>

abbreviation StatusOK :: int where "StatusOK \<equiv> 200"
abbreviation StatusBadRequest :: int where "StatusBadRequest \<equiv> 400"
abbreviation StatusForbidden :: int where "StatusForbidden \<equiv> 403"
abbreviation StatusNotFound :: int where "StatusNotFound \<equiv> 404"
abbreviation StatusMethodNotAllowed :: int where "StatusMethodNotAllowed \<equiv> 405"
abbreviation StatusServiceUnavailable :: int where "StatusServiceUnavailable \<equiv> 503"
abbreviation StatusGatewayTimeout :: int where "StatusGatewayTimeout \<equiv> 504"

datatype jval =
    JNull | JBool bool | JNum int | JUint uint64 | JStr string
  | JList "jval list" | JObj "(string \<times> jval) list" | JFields "string \<rightharpoonup> goany"
  | JPolicies "string \<rightharpoonup> StreamDLQPolicy"

text \<open>A response: the status code and, unless only the header was written, the payload of \<open>writeJSON\<close>.\<close>

type_synonym response = "int \<times> (string \<times> jval) list option"

definition writeJSON :: "int \<Rightarrow> (string \<times> jval) list \<Rightarrow> response" where
  "writeJSON status payload = (status, Some payload)"

record http_request =
  reqMethod :: string
  reqBody :: string

section \<open>Counters\<close>

definition on_collector :: "(collector \<Rightarrow> collector) \<Rightarrow> 'w sidecar \<Rightarrow> 'w sidecar" where
  "on_collector f s = s\<lparr>collector := f (collector s)\<rparr>"

abbreviation incrementPublishAttempts :: "'w sidecar \<Rightarrow> 'w sidecar" where
  "incrementPublishAttempts \<equiv> on_collector IncPublishAttempts"
abbreviation incrementPublishSuccess :: "'w sidecar \<Rightarrow> 'w sidecar" where
  "incrementPublishSuccess \<equiv> on_collector IncPublishSuccess"
abbreviation incrementPublishQueued :: "'w sidecar \<Rightarrow> 'w sidecar" where
  "incrementPublishQueued \<equiv> on_collector IncPublishQueued"
abbreviation incrementPublishPipelineFallback :: "'w sidecar \<Rightarrow> 'w sidecar" where
  "incrementPublishPipelineFallback \<equiv> on_collector IncPublishPipelineFallback"
abbreviation incrementPublishPipelineAdaptiveDirect :: "'w sidecar \<Rightarrow> 'w sidecar" where
  "incrementPublishPipelineAdaptiveDirect \<equiv> on_collector IncPublishPipelineAdaptiveDirect"
abbreviation incrementPublishPipelineError :: "uint64 \<Rightarrow> 'w sidecar \<Rightarrow> 'w sidecar" where
  "incrementPublishPipelineError n \<equiv> on_collector (IncPublishPipelineError n)"
abbreviation incrementWALReplayed :: "uint64 \<Rightarrow> 'w sidecar \<Rightarrow> 'w sidecar" where
  "incrementWALReplayed n \<equiv> on_collector (IncWALReplayed n)"
abbreviation incrementWALReplaySyncCall :: "'w sidecar \<Rightarrow> 'w sidecar" where
  "incrementWALReplaySyncCall \<equiv> on_collector IncWALReplaySyncCall"
abbreviation incrementError :: "'w sidecar \<Rightarrow> 'w sidecar" where
  "incrementError \<equiv> on_collector IncError"

lemma on_collector_simps [simp]:
  "cfg (on_collector f s) = cfg s" "redis (on_collector f s) = redis s"
  "publisher (on_collector f s) = publisher s" "publishPipeline (on_collector f s) = publishPipeline s"
  "wal (on_collector f s) = wal s" "replayMu (on_collector f s) = replayMu s"
  "consumerGroupsEnsured (on_collector f s) = consumerGroupsEnsured s" "startedAt (on_collector f s) = startedAt s"
  "collector (on_collector f s) = f (collector s)" "walJSON (on_collector f s) = walJSON s"
  "promClient (on_collector f s) = promClient s" "disk (on_collector f s) = disk s"
  "world (on_collector f s) = world s"
  by (simp_all add: on_collector_def)

section \<open>Contexts and errors\<close>

definition defaultPublishRedisTimeout :: int where "defaultPublishRedisTimeout = 3000"

definition shouldSkipWALForPublishError :: "go_error option \<Rightarrow> go_error \<Rightarrow> bool" where
  "shouldSkipWALForPublishError callerCtxErr pubErr =
     (if errors_Is pubErr ContextCanceled then True
      else if callerCtxErr \<noteq> None \<and> errors_Is pubErr ContextDeadlineExceeded then True
      else False)"

definition publishRedisContext :: "ctx \<Rightarrow> ctx" where
  "publishRedisContext parent = WithTimeout (WithoutCancel parent) defaultPublishRedisTimeout"

definition isNoSuchStreamErr :: "go_error option \<Rightarrow> bool" where
  "isNoSuchStreamErr err =
     (case err of None \<Rightarrow> False | Some e \<Rightarrow> Contains (ToLower (Error e)) ''no such key'')"

section \<open>Publishing\<close>

definition call_publisher :: "ctx \<Rightarrow> PublishRequest \<Rightarrow> 'w sidecar \<Rightarrow> string go_result \<times> 'w sidecar" where
  "call_publisher ctx req s =
     (let (r, w) = publisher s ctx req (world s) in (r, s\<lparr>world := w\<rparr>))"

definition normalizePublishRequest ::
  "PublishRequest \<Rightarrow> string \<Rightarrow> 'w sidecar \<Rightarrow> (PublishRequest \<times> int \<times> go_error option) \<times> 'w sidecar" where
  "normalizePublishRequest req0 defaultStream s =
     (let req1 = req0\<lparr>Stream := TrimSpace (Stream req0), EventType := TrimSpace (EventType req0),
                     Sender := TrimSpace (Sender req0), Recipient := TrimSpace (Recipient req0),
                     Priority := TrimSpace (Priority req0)\<rparr>;
          streams = PublishStreams (cfg s);
          chosen = (if Stream req1 = ''''
                    then (if defaultStream \<noteq> '''' then Some (req1\<lparr>Stream := defaultStream\<rparr>)
                          else if length streams = 1 then Some (req1\<lparr>Stream := streams ! 0\<rparr>)
                          else None)
                    else Some req1)
      in case chosen of
           None \<Rightarrow> ((req1, StatusBadRequest, Some (ErrMsg ''stream is required'')), incrementError s)
         | Some req \<Rightarrow>
             if \<not> IsStreamAllowed streams (Stream req)
             then ((req, StatusForbidden, Some (ErrMsg ''stream not allowed for this sugar glider'')), incrementError s)
             else if EventType req = ''''
             then ((req, StatusBadRequest, Some (ErrMsg ''event_type is required'')), incrementError s)
             else if length (Payload req) = 0
             then ((req, StatusBadRequest, Some (ErrMsg ''payload is required'')), incrementError s)
             else ((req, StatusOK, None), s))"

definition shouldUseAdaptiveDirectPublish :: "int \<Rightarrow> 'w sidecar \<Rightarrow> bool" where
  "shouldUseAdaptiveDirectPublish activePublishes s =
     (case publishPipeline s of
        None \<Rightarrow> False
      | Some p \<Rightarrow>
          if \<not> PublishPipelineAdaptiveEnabled (cfg s) then False
          else activePublishes < PublishPipelineMinBatch (cfg s) \<and>
               int64_wrap (pipeQueueLength p (world s) + 1) < PublishPipelineMinBatch (cfg s))"

definition addAdaptiveActive :: "int \<Rightarrow> 'w sidecar \<Rightarrow> int \<times> 'w sidecar" where
  "addAdaptiveActive delta s =
     (let (v, c) = AddPublishPipelineAdaptiveActive delta (collector s) in (v, s\<lparr>collector := c\<rparr>))"

definition call_pipeline ::
  "'w publishPipelineClient \<Rightarrow> ctx \<Rightarrow> PublishRequest \<Rightarrow> 'w sidecar \<Rightarrow> string go_result \<times> 'w sidecar" where
  "call_pipeline p ctx req s =
     (let (r, w, c) = pipePublish p ctx req (world s, collector s) in (r, s\<lparr>world := w, collector := c\<rparr>))"

text \<open>The part of \<open>publishToRedis\<close> between the increment of the active counter and its deferred decrement.\<close>

definition publish_via_pipeline ::
  "'w publishPipelineClient \<Rightarrow> int \<Rightarrow> ctx \<Rightarrow> PublishRequest \<Rightarrow> 'w sidecar \<Rightarrow> string go_result \<times> 'w sidecar" where
  "publish_via_pipeline p adaptiveActive ctx req s =
     (if shouldUseAdaptiveDirectPublish adaptiveActive s
      then call_publisher ctx req (incrementPublishPipelineAdaptiveDirect s)
      else case call_pipeline p ctx req s of
        (Inr eid, s1) \<Rightarrow> (Inr eid, s1)
      | (Inl err, s1) \<Rightarrow>
          if errors_Is err ErrPublishPipelineQueueFull \<or> errors_Is err ErrPublishPipelineStopped
          then (case call_publisher ctx req (incrementPublishPipelineFallback s1) of
                  (Inl directErr, s2) \<Rightarrow> (Inl directErr, incrementPublishPipelineError 1 s2)
                | (Inr eid, s2) \<Rightarrow> (Inr eid, s2))
          else (Inl err, incrementPublishPipelineError 1 s1))"

definition publishToRedis :: "ctx \<Rightarrow> PublishRequest \<Rightarrow> 'w sidecar \<Rightarrow> string go_result \<times> 'w sidecar" where
  "publishToRedis ctx req s =
     (case publishPipeline s of
        None \<Rightarrow> call_publisher ctx req s
      | Some p \<Rightarrow>
          if PublishPipelineAdaptiveEnabled (cfg s)
          then (let (active, s1) = addAdaptiveActive 1 s;
                    (r, s2) = publish_via_pipeline p active ctx req s1
                in (r, snd (addAdaptiveActive (- 1) s2)))
          else publish_via_pipeline p 0 ctx req s)"

text \<open>The loops of \<open>publishBatchToRedis\<close>; a batch returns the identifiers obtained so far together with the error.\<close>

fun publish_each :: "ctx \<Rightarrow> PublishRequest list \<Rightarrow> string list \<Rightarrow> 'w sidecar \<Rightarrow> (string list \<times> go_error option) \<times> 'w sidecar" where
  "publish_each ctx [] entryIDs s = ((entryIDs, None), s)"
| "publish_each ctx (req # reqs) entryIDs s =
     (case publishToRedis ctx req s of
        (Inl err, s1) \<Rightarrow> ((entryIDs, Some err), s1)
      | (Inr eid, s1) \<Rightarrow> publish_each ctx reqs (entryIDs @ [eid]) s1)"

fun publish_each_direct :: "ctx \<Rightarrow> PublishRequest list \<Rightarrow> string list \<Rightarrow> 'w sidecar \<Rightarrow> (string list \<times> go_error option) \<times> 'w sidecar" where
  "publish_each_direct ctx [] entryIDs s = ((entryIDs, None), s)"
| "publish_each_direct ctx (req # reqs) entryIDs s =
     (case call_publisher ctx req s of
        (Inl directErr, s1) \<Rightarrow> ((entryIDs, Some directErr), incrementPublishPipelineError 1 s1)
      | (Inr eid, s1) \<Rightarrow> publish_each_direct ctx reqs (entryIDs @ [eid]) s1)"

fun collect_results :: "string go_result list \<Rightarrow> string list \<Rightarrow> 'w sidecar \<Rightarrow> (string list \<times> go_error option) \<times> 'w sidecar" where
  "collect_results [] entryIDs s = ((entryIDs, None), s)"
| "collect_results (r # rs) entryIDs s =
     (case r of
        Inl err \<Rightarrow> ((entryIDs, Some err), incrementPublishPipelineError 1 s)
      | Inr eid \<Rightarrow> collect_results rs (entryIDs @ [eid]) s)"

definition publishBatchToRedis ::
  "ctx \<Rightarrow> PublishRequest list \<Rightarrow> 'w sidecar \<Rightarrow> (string list \<times> go_error option) \<times> 'w sidecar" where
  "publishBatchToRedis ctx reqs s =
     (if reqs = [] then (([], None), s)
      else case publishPipeline s of
        None \<Rightarrow> publish_each ctx reqs [] s
      | Some p \<Rightarrow>
          if length reqs = 1 then publish_each ctx reqs [] s
          else (let (res, w, c) = pipePublishMany p ctx reqs (world s, collector s);
                    s1 = s\<lparr>world := w, collector := c\<rparr>
                in case res of
                     Inl err \<Rightarrow>
                       if errors_Is err ErrPublishPipelineQueueFull \<or> errors_Is err ErrPublishPipelineStopped
                       then publish_each_direct ctx reqs [] (incrementPublishPipelineFallback s1)
                       else (([], Some err), incrementPublishPipelineError (word_of_nat (length reqs)) s1)
                   | Inr results \<Rightarrow> collect_results results [] s1))"

section \<open>Replaying the log\<close>

definition replay_publish :: "ctx \<Rightarrow> 'w sidecar \<Rightarrow> PublishRequest \<Rightarrow> 'w \<Rightarrow> go_error option \<times> 'w" where
  "replay_publish ctx s req w =
     (case publisher s ctx req w of (Inl pubErr, w1) \<Rightarrow> (Some pubErr, w1) | (Inr _, w1) \<Rightarrow> (None, w1))"

definition replayWAL :: "ctx \<Rightarrow> 'w sidecar \<Rightarrow> 'w sidecar" where
  "replayWAL ctx s =
     (if WALReplayBatch (cfg s) = 0 then s
      else if replayMu s then s
      else case wal_Replay (walJSON s) (replay_publish ctx s) (WALReplayBatch (cfg s)) (wal s) (disk s) (world s) of
        ((replayed, err), l, d, w) \<Rightarrow>
          (let s1 = s\<lparr>wal := l, disk := d, world := w\<rparr>
           in case err of
                Some _ \<Rightarrow> incrementError s1
              | None \<Rightarrow> if replayed > 0 then incrementWALReplayed (word_of_int replayed) s1 else s1))"

text \<open>The background loop, for a number of ticks before its context ends; it does not start when its period or batch is zero.\<close>

definition replay_loop_enabled :: "'w sidecar \<Rightarrow> bool" where
  "replay_loop_enabled s \<longleftrightarrow> \<not> (WALReplayBatch (cfg s) = 0 \<or> WALReplayInterval (cfg s) = 0)"

definition runReplayLoop :: "ctx \<Rightarrow> nat \<Rightarrow> 'w sidecar \<Rightarrow> 'w sidecar" where
  "runReplayLoop ctx ticks s = (if replay_loop_enabled s then ((replayWAL ctx) ^^ ticks) s else s)"

section \<open>The publish operation\<close>

definition appendWAL :: "string \<Rightarrow> PublishRequest \<Rightarrow> 'w sidecar \<Rightarrow> go_error option \<times> 'w sidecar" where
  "appendWAL reason req s =
     (let (now, w) = Now (redis s) (world s);
          (r, l, d) = wal_Append (walJSON s) now reason req (wal s) (disk s)
      in (r, s\<lparr>wal := l, disk := d, world := w\<rparr>))"

record publish_outcome =
  poEntryID :: string
  poQueued :: bool
  poWalDepth :: int
  poStatus :: int
  poErr :: "go_error option"

definition failed :: "int \<Rightarrow> go_error \<Rightarrow> publish_outcome" where
  "failed code err = \<lparr>poEntryID = '''', poQueued = False, poWalDepth = 0, poStatus = code, poErr = Some err\<rparr>"

definition publishInternal :: "ctx \<Rightarrow> PublishRequest \<Rightarrow> 'w sidecar \<Rightarrow> publish_outcome \<times> 'w sidecar" where
  "publishInternal ctx req0 s =
     (case normalizePublishRequest req0 '''' s of
        ((req, code, Some normErr), s1) \<Rightarrow> (failed code normErr, s1)
      | ((req, code, None), s1) \<Rightarrow>
          (case publishToRedis (publishRedisContext ctx) req s1 of
             (Inl pubErr, s2) \<Rightarrow>
               if shouldSkipWALForPublishError (CtxErr (redis s2) ctx (world s2)) pubErr
               then (failed StatusGatewayTimeout pubErr, incrementError s2)
               else (case appendWAL (Error pubErr) req s2 of
                       (Some appendErr, s3) \<Rightarrow>
                         (if errors_Is appendErr ErrWALFull \<or> errors_Is appendErr ErrWALDiskFull
                          then (failed StatusServiceUnavailable (ErrMsg ''redis unavailable and wal is full''), incrementError s3)
                          else (failed StatusServiceUnavailable (ErrMsg ''redis unavailable and wal append failed''), incrementError s3))
                     | (None, s3) \<Rightarrow>
                         (let s4 = incrementPublishQueued s3
                          in (\<lparr>poEntryID = '''', poQueued = True, poWalDepth = wal_Depth (wal s4),
                               poStatus = StatusServiceUnavailable, poErr = None\<rparr>, s4)))
           | (Inr eid, s2) \<Rightarrow>
               (let s3 = incrementPublishSuccess s2;
                    s4 = (if WALReplayMode (cfg s3) = WALReplayModeSyncOnSuccess
                          then replayWAL ctx (incrementWALReplaySyncCall s3) else s3)
                in (\<lparr>poEntryID = eid, poQueued = False, poWalDepth = 0, poStatus = StatusOK, poErr = None\<rparr>, s4))))"

definition publish_handler ::
  "(string \<Rightarrow> PublishRequest go_result) \<Rightarrow> http_request \<Rightarrow> 'w sidecar \<Rightarrow> response \<times> 'w sidecar" where
  "publish_handler decode r s0 =
     (let s = incrementPublishAttempts s0
      in if reqMethod r \<noteq> ''POST'' then ((StatusMethodNotAllowed, None), s)
         else case decode (reqBody r) of
           Inl err \<Rightarrow> (writeJSON StatusBadRequest [(''error'', JStr ''invalid JSON'')], incrementError s)
         | Inr req \<Rightarrow>
             (case publishInternal RequestCtx req s of
                (po, s1) \<Rightarrow>
                  (case poErr po of
                     Some err \<Rightarrow> (writeJSON (poStatus po) [(''error'', JStr (Error err))], s1)
                   | None \<Rightarrow>
                       if poQueued po
                       then (writeJSON StatusServiceUnavailable
                               [(''queued'', JBool True), (''wal_depth'', JNum (poWalDepth po)),
                                (''error'', JStr ''redis unavailable; message queued in WAL'')], s1)
                       else (writeJSON StatusOK [(''entry_id'', JStr (poEntryID po))], s1))))"

section \<open>Frame of the publish path\<close>

text \<open>Publishing changes the world behind Redis and the counters, nothing else of the state.\<close>

definition publish_frame :: "'w sidecar \<Rightarrow> 'w sidecar \<Rightarrow> bool" where
  "publish_frame s s' \<longleftrightarrow> s' = s\<lparr>world := world s', collector := collector s'\<rparr>"

lemma publish_frameD:
  assumes "publish_frame s s'"
  shows "cfg s' = cfg s" "redis s' = redis s" "publisher s' = publisher s" "publishPipeline s' = publishPipeline s"
    "wal s' = wal s" "replayMu s' = replayMu s" "consumerGroupsEnsured s' = consumerGroupsEnsured s"
    "startedAt s' = startedAt s" "walJSON s' = walJSON s" "promClient s' = promClient s" "disk s' = disk s"
  using assms by (cases s; cases s'; simp add: publish_frame_def)+

lemma publish_frame_refl [simp, intro]: "publish_frame s s"
  by (simp add: publish_frame_def)

lemma publish_frame_trans [trans]: "publish_frame s t \<Longrightarrow> publish_frame t u \<Longrightarrow> publish_frame s u"
  by (cases s; cases t; cases u) (simp add: publish_frame_def)

lemma publish_frame_update [simp]:
  "publish_frame s (t\<lparr>world := w\<rparr>) \<longleftrightarrow> publish_frame s t"
  "publish_frame s (t\<lparr>collector := c\<rparr>) \<longleftrightarrow> publish_frame s t"
  "publish_frame s (on_collector f t) \<longleftrightarrow> publish_frame s t"
  by (cases s; cases t; simp add: publish_frame_def on_collector_def)+

lemma addAdaptiveActive_frame [simp]: "publish_frame s (snd (addAdaptiveActive d t)) \<longleftrightarrow> publish_frame s t"
  by (simp add: addAdaptiveActive_def Let_def split_def)

lemma call_publisher_frame: "call_publisher ctx req t = (r, s') \<Longrightarrow> publish_frame s t \<Longrightarrow> publish_frame s s'"
  by (auto simp: call_publisher_def split: prod.splits)

lemma call_pipeline_frame: "call_pipeline p ctx req t = (r, s') \<Longrightarrow> publish_frame s t \<Longrightarrow> publish_frame s s'"
  by (auto simp: call_pipeline_def split: prod.splits)

lemma publish_via_pipeline_frame:
  "publish_via_pipeline p a ctx req t = (r, s') \<Longrightarrow> publish_frame s t \<Longrightarrow> publish_frame s s'"
  by (auto simp: publish_via_pipeline_def split: if_splits prod.splits sum.splits
      dest!: call_publisher_frame [where s = s] call_pipeline_frame [where s = s])

lemma publishToRedis_frame:
  assumes "publishToRedis ctx req s = (r, s')"
  shows "publish_frame s s'"
proof (cases "publishPipeline s")
  case None
  with assms show ?thesis by (auto simp: publishToRedis_def dest: call_publisher_frame)
next
  case (Some p)
  obtain a s1 where a: "addAdaptiveActive 1 s = (a, s1)" by fastforce
  then have s1: "publish_frame s s1" using addAdaptiveActive_frame [of s 1 s] by simp
  obtain r2 s2 where v: "publish_via_pipeline p a ctx req s1 = (r2, s2)" by fastforce
  from publish_via_pipeline_frame [OF v s1] Some assms a v show ?thesis
    by (auto simp: publishToRedis_def dest: publish_via_pipeline_frame split: if_splits)
qed

lemmas publishToRedis_same [svc_simps] = publish_frameD [OF publishToRedis_frame]

section \<open>Normalisation\<close>

text \<open>A request as it is handed to Redis and to the log: trimmed, on an allowed stream, with a type and a payload.\<close>

definition publishable :: "Config \<Rightarrow> PublishRequest \<Rightarrow> bool" where
  "publishable c req \<longleftrightarrow>
     IsStreamAllowed (PublishStreams c) (Stream req) \<and> Stream req \<noteq> '''' \<and> EventType req \<noteq> '''' \<and> Payload req \<noteq> '''' \<and>
     TrimSpace (EventType req) = EventType req \<and> TrimSpace (Sender req) = Sender req \<and>
     TrimSpace (Recipient req) = Recipient req \<and> TrimSpace (Priority req) = Priority req"

lemma normalize_ok:
  assumes "normalizePublishRequest req0 d s = ((req, code, None), s')"
  shows "s' = s" "code = StatusOK" "IsStreamAllowed (PublishStreams (cfg s)) (Stream req)" "EventType req \<noteq> ''''"
    "Payload req = Payload req0" "Payload req \<noteq> ''''"
  using assms
  by (auto simp: normalizePublishRequest_def Let_def split: if_splits option.splits)

lemma normalize_error:
  assumes "normalizePublishRequest req0 d s = ((req, code, Some err), s')"
  shows "s' = incrementError s" "code = StatusBadRequest \<or> code = StatusForbidden"
  using assms
  by (auto simp: normalizePublishRequest_def Let_def split: if_splits option.splits)

lemma normalize_publishable:
  assumes "normalizePublishRequest req0 '''' s = ((req, code, None), s')" "config_valid (cfg s)"
  shows "publishable (cfg s) req" "TrimSpace (Stream req) = Stream req" "TTLSec req = TTLSec req0"
proof -
  have item: "csv_item (PublishStreams (cfg s) ! 0)" if "length (PublishStreams (cfg s)) = 1"
    using that assms(2) nth_mem [of 0 "PublishStreams (cfg s)"] unfolding config_valid_def by auto
  show "publishable (cfg s) req" "TrimSpace (Stream req) = Stream req" "TTLSec req = TTLSec req0"
    using assms(1) item
    by (auto simp: normalizePublishRequest_def publishable_def csv_item_def TrimSpace_idem Let_def split: if_splits option.splits)
qed

lemma normalize_id:
  assumes "publishable (cfg s) req" "TrimSpace (Stream req) = Stream req"
  shows "normalizePublishRequest req d s = ((req, StatusOK, None), s)"
proof -
  have "req\<lparr>Stream := TrimSpace (Stream req), EventType := TrimSpace (EventType req), Sender := TrimSpace (Sender req),
      Recipient := TrimSpace (Recipient req), Priority := TrimSpace (Priority req)\<rparr> = req"
    using assms by (cases req) (simp add: publishable_def)
  then show ?thesis
    unfolding normalizePublishRequest_def using assms by (simp add: Let_def publishable_def)
qed

text \<open>Remark. Normalisation decides exactly: with a loaded configuration, a request is accepted if and only if it
  has, after trimming, a type, a payload and a stream that is given or is the only configured one, and that
  stream is allowed; the accepted request is trimmed and normalising it again changes nothing.\<close>

theorem normalize_accepts_iff:
  assumes "config_valid (cfg s)" "normalizePublishRequest req0 '''' s = ((req, code, err), s')"
  shows "(err = None \<longleftrightarrow>
      TrimSpace (EventType req0) \<noteq> '''' \<and> Payload req0 \<noteq> '''' \<and>
      (if TrimSpace (Stream req0) = '''' then length (PublishStreams (cfg s)) = 1
       else PublishStreams (cfg s) = [] \<or> TrimSpace (Stream req0) \<in> set (PublishStreams (cfg s)))) \<and>
    (err = None \<longrightarrow> publishable (cfg s) req \<and> (\<forall>d. normalizePublishRequest req d s = ((req, StatusOK, None), s)))"
proof (intro conjI impI allI)
  show "err = None \<longleftrightarrow>
      TrimSpace (EventType req0) \<noteq> '''' \<and> Payload req0 \<noteq> '''' \<and>
      (if TrimSpace (Stream req0) = '''' then length (PublishStreams (cfg s)) = 1
       else PublishStreams (cfg s) = [] \<or> TrimSpace (Stream req0) \<in> set (PublishStreams (cfg s)))"
    using assms(2)
    by (auto simp: normalizePublishRequest_def Let_def IsStreamAllowed_iff length_Suc_conv split: if_splits option.splits)
  assume "err = None"
  with assms(2) have n: "normalizePublishRequest req0 '''' s = ((req, code, None), s')" by simp
  show "publishable (cfg s) req" by (rule normalize_publishable [OF n assms(1)])
  then show "normalizePublishRequest req d s = ((req, StatusOK, None), s)" for d
    by (rule normalize_id) (rule normalize_publishable [OF n assms(1)])
qed

section \<open>Appending to the log from the publish path\<close>

text \<open>What the handlers rely on in the log, and keep.\<close>

definition wal_ready :: "'w sidecar \<Rightarrow> bool" where
  "wal_ready s \<longleftrightarrow> codec_ok (walJSON s) \<and> wal_inv (wal s) (disk s) \<and> write_cut (disk s) (wal_path (wal s)) = None"

abbreviation backlog :: "'w sidecar \<Rightarrow> string list" where
  "backlog s \<equiv> wal_lines (wal s) (disk s)"

text \<open>A line of the log holds a request: it is the encoding of an entry with that request.\<close>

definition holds_request :: "wal_codec \<Rightarrow> string \<Rightarrow> PublishRequest \<Rightarrow> bool" where
  "holds_request J line req \<longleftrightarrow> (\<exists>now reason. Marshal J \<lparr>eTime = now, eReason = reason, eRequest = req\<rparr> = Inr line)"

lemma appendWAL_ok:
  assumes "wal_ready s" "appendWAL reason req s = (None, s')"
  shows "wal_inv (wal s') (disk s')" "\<exists>p. holds_request (walJSON s) p req \<and> backlog s' = backlog s @ [p]"
    "collector s' = collector s" "cfg s' = cfg s" "walJSON s' = walJSON s"
proof -
  from assms(2) obtain now where
    a: "wal_Append (walJSON s) now reason req (wal s) (disk s) = (None, wal s', disk s')"
    by (auto simp: appendWAL_def Let_def split: prod.splits)
  have ok: "codec_ok (walJSON s)" "wal_inv (wal s) (disk s)" using assms(1) by (simp_all add: wal_ready_def)
  show "wal_inv (wal s') (disk s')" by (rule wal_Append_inv(1) [OF ok a])
  show "\<exists>p. holds_request (walJSON s) p req \<and> backlog s' = backlog s @ [p]"
    using wal_Append_inv(2) [OF ok a] unfolding holds_request_def by blast
  show "collector s' = collector s" "cfg s' = cfg s" "walJSON s' = walJSON s"
    using assms(2) by (auto simp: appendWAL_def Let_def split: prod.splits)
qed

lemma appendWAL_error:
  assumes "wal_ready s" "appendWAL reason req s = (Some err, s')"
  shows "wal s' = wal s" "backlog s' = backlog s" "wal_inv (wal s') (disk s')"
    "collector s' = collector s" "cfg s' = cfg s" "walJSON s' = walJSON s"
proof -
  from assms(2) obtain now where
    a: "wal_Append (walJSON s) now reason req (wal s) (disk s) = (Some err, wal s', disk s')"
    by (auto simp: appendWAL_def Let_def split: prod.splits)
  note f = wal_Append_failure [OF a]
  show "wal s' = wal s" "backlog s' = backlog s" "wal_inv (wal s') (disk s')"
    using f assms(1) by (simp_all add: wal_ready_def wal_lines_def wal_inv_def)
  show "collector s' = collector s" "cfg s' = cfg s" "walJSON s' = walJSON s"
    using assms(2) by (auto simp: appendWAL_def Let_def split: prod.splits)
qed

section \<open>Outcomes of a publish\<close>

lemma publishInternal_cases:
  assumes "publishInternal ctx req0 s = (po, s')"
  obtains
    (rejected) req code err where "normalizePublishRequest req0 '''' s = ((req, code, Some err), s')" "po = failed code err"
  | (published) req code eid s2 where "normalizePublishRequest req0 '''' s = ((req, code, None), s)"
      "publishToRedis (publishRedisContext ctx) req s = (Inr eid, s2)"
      "po = \<lparr>poEntryID = eid, poQueued = False, poWalDepth = 0, poStatus = StatusOK, poErr = None\<rparr>"
      "s' = (if WALReplayMode (cfg s) = WALReplayModeSyncOnSuccess
             then replayWAL ctx (incrementWALReplaySyncCall (incrementPublishSuccess s2)) else incrementPublishSuccess s2)"
  | (abandoned) req code err s2 where "normalizePublishRequest req0 '''' s = ((req, code, None), s)"
      "publishToRedis (publishRedisContext ctx) req s = (Inl err, s2)"
      "shouldSkipWALForPublishError (CtxErr (redis s2) ctx (world s2)) err"
      "po = failed StatusGatewayTimeout err" "s' = incrementError s2"
  | (refused) req code err s2 appendErr s3 where "normalizePublishRequest req0 '''' s = ((req, code, None), s)"
      "publishToRedis (publishRedisContext ctx) req s = (Inl err, s2)"
      "\<not> shouldSkipWALForPublishError (CtxErr (redis s2) ctx (world s2)) err"
      "appendWAL (Error err) req s2 = (Some appendErr, s3)" "s' = incrementError s3"
      "po = failed StatusServiceUnavailable
         (if errors_Is appendErr ErrWALFull \<or> errors_Is appendErr ErrWALDiskFull
          then ErrMsg ''redis unavailable and wal is full'' else ErrMsg ''redis unavailable and wal append failed'')"
  | (queued) req code err s2 s3 where "normalizePublishRequest req0 '''' s = ((req, code, None), s)"
      "publishToRedis (publishRedisContext ctx) req s = (Inl err, s2)"
      "\<not> shouldSkipWALForPublishError (CtxErr (redis s2) ctx (world s2)) err"
      "appendWAL (Error err) req s2 = (None, s3)" "s' = incrementPublishQueued s3"
      "po = \<lparr>poEntryID = '''', poQueued = True, poWalDepth = wal_Depth (wal s'), poStatus = StatusServiceUnavailable, poErr = None\<rparr>"
proof -
  obtain req code nerr s1 where n: "normalizePublishRequest req0 '''' s = ((req, code, nerr), s1)" by (metis prod_cases3 surj_pair)
  show thesis
  proof (cases nerr)
    case (Some err)
    with n assms show thesis by (intro rejected) (auto simp: publishInternal_def)
  next
    case None
    with n have n': "normalizePublishRequest req0 '''' s = ((req, code, None), s)" using normalize_ok(1) by fastforce
    obtain r s2 where p: "publishToRedis (publishRedisContext ctx) req s = (r, s2)" by fastforce
    have cfg2: "cfg s2 = cfg s" by (rule publishToRedis_same(1) [OF p])
    show thesis
    proof (cases r)
      case (Inr eid)
      with n' p assms cfg2 show thesis by (intro published) (auto simp: publishInternal_def Let_def)
    next
      case (Inl err)
      obtain a s3 where a: "appendWAL (Error err) req s2 = (a, s3)" by fastforce
      show thesis
      proof (cases "shouldSkipWALForPublishError (CtxErr (redis s2) ctx (world s2)) err")
        case True
        with n' p Inl assms show thesis by (intro abandoned) (auto simp: publishInternal_def)
      next
        case skip: False
        show thesis
        proof (cases a)
          case None
          with n' p Inl a skip assms show thesis by (intro queued) (auto simp: publishInternal_def Let_def)
        next
          case (Some e)
          with n' p Inl a skip assms show thesis by (intro refused) (auto simp: publishInternal_def split: if_splits)
        qed
      qed
    qed
  qed
qed

lemma publishToRedis_wal_ready: "publishToRedis ctx req s = (r, s') \<Longrightarrow> wal_ready s' = wal_ready s"
  by (simp add: wal_ready_def svc_simps)

lemma publishToRedis_backlog: "publishToRedis ctx req s = (r, s') \<Longrightarrow> backlog s' = backlog s"
  by (simp add: svc_simps)



section \<open>Example state\<close>

definition sample_cfg :: Config where
  "sample_cfg = \<lparr>ServiceName = ''svc'', RedisURL = ''redis://localhost'', ListenAddr = ''tcp://:8081'',
     GRPCListenAddr = ''tcp://:50051'', PublishPipelineEnabled = False, PublishPipelineAdaptiveEnabled = False,
     PublishPipelineMaxBatch = 64, PublishPipelineMinBatch = 8, PublishPipelineFlushInterval = 2000000,
     PublishPipelineQueueSize = 1024, PublishPipelineMaxBytes = 1048576, ConsumeMode = ''stateless'',
     WALReplayMode = ''background'', DispatcherConsumerName = ''dispatcher'', DispatcherReadCount = 64,
     DispatcherBlockMS = 1000, DispatcherSubscriberBuffer = 100, DispatcherAckBatchSize = 64,
     DispatcherAckFlushConcurrency = 4, DispatcherAckFlushInterval = 5000000, DispatcherAckQueueSize = 1024,
     WALDir = ''data'', WALMaxEntries = 0, WALMaxBytes = 0, WALReplayBatch = 10, WALReplayInterval = 5000000000,
     PublishStreams = [''s''], ConsumeStreams = [''s''], MaxStreamLen = 1000, DLQMaxRetries = 3, DLQMinIdle = 0,
     DLQScanInterval = 1000000000, DLQScanBatch = 100, DLQStreamPolicies = Map.empty, ReadinessTimeout = 2000000000,
     ReadyMaxWALDepth = 0, ReadyMaxPublishQueueDepth = 0\<rparr>"

definition sample_sidecar :: "bool \<Rightarrow> mem_world sidecar" where
  "sample_sidecar down = \<lparr>cfg = sample_cfg, redis = mem_redis, publisher = Publisher_Publish mem_redis 1000,
     publishPipeline = None, wal = empty_log, replayMu = False, consumerGroupsEnsured = {}, startedAt = 0,
     collector = sample_collector, walJSON = sample_codec, promClient = sample_prom, disk = empty_fs,
     world = mem_empty\<lparr>memDown := down\<rparr>\<rparr>"

lemma sample_sidecar_simps [simp]:
  "cfg (sample_sidecar b) = sample_cfg" "redis (sample_sidecar b) = mem_redis"
  "publisher (sample_sidecar b) = Publisher_Publish mem_redis 1000" "publishPipeline (sample_sidecar b) = None"
  "wal (sample_sidecar b) = empty_log" "walJSON (sample_sidecar b) = sample_codec" "disk (sample_sidecar b) = empty_fs"
  "world (sample_sidecar b) = mem_empty\<lparr>memDown := b\<rparr>" "collector (sample_sidecar b) = sample_collector"
  "replayMu (sample_sidecar b) = False"  "promClient (sample_sidecar b) = sample_prom"
  by (simp_all add: sample_sidecar_def)

lemma sample_cfg_valid: "config_valid sample_cfg"
  by (simp add: config_valid_def sample_cfg_def csv_item_def TrimSpace_visible ascii_visible_def)

lemma sample_wal_ready: "wal_ready (sample_sidecar b)"
  by (simp add: wal_ready_def codec_ok_sample wal_inv_def wal_lines_def content_def empty_fs_def empty_log_def terminated_def)

lemma sample_normalize: "normalizePublishRequest (sample_req ''a'') '''' (sample_sidecar b) = ((sample_req ''a'', StatusOK, None), sample_sidecar b)"
  by (rule normalize_id)
    (simp_all add: publishable_def sample_req_def sample_cfg_def IsStreamAllowed_iff TrimSpace_visible ascii_visible_def)

theorem normalize_accepts_iff_witness:
  "\<forall>d. normalizePublishRequest (sample_req ''a'') d (sample_sidecar False) = ((sample_req ''a'', StatusOK, None), sample_sidecar False)"
  using normalize_accepts_iff [OF _ sample_normalize, of False] sample_cfg_valid by simp

lemma sample_publish_down:
  "publishToRedis ctx (sample_req ''a'') (sample_sidecar True) = (Inl mem_down, sample_sidecar True)"
  by (simp add: publishToRedis_def call_publisher_def Publisher_Publish_def mem_XAdd_def)

lemma sample_appendWAL:
  "\<exists>s3. appendWAL (Error mem_down) (sample_req ''a'') (sample_sidecar True) = (None, s3) \<and> depth (wal s3) = 1"
  by (simp add: appendWAL_def wal_Append_def sample_codec_def sample_req_def empty_log_def empty_fs_def os_OpenCreate_def
      os_AppendWrite_def content_def ascii_visible_def Let_def)

lemma sample_queued:
  "\<exists>s'. publishInternal RequestCtx (sample_req ''a'') (sample_sidecar True) =
     (\<lparr>poEntryID = '''', poQueued = True, poWalDepth = 1, poStatus = StatusServiceUnavailable, poErr = None\<rparr>, s')"
proof -
  obtain s3 where a: "appendWAL (Error mem_down) (sample_req ''a'') (sample_sidecar True) = (None, s3)" "depth (wal s3) = 1"
    using sample_appendWAL by blast
  have "\<not> shouldSkipWALForPublishError None mem_down" by (simp add: shouldSkipWALForPublishError_def mem_down_def)
  with a show ?thesis
    by (simp add: publishInternal_def sample_normalize [simplified] sample_publish_down Let_def wal_Depth_def)
qed



section \<open>Counters of the publish path\<close>

definition pipeline_counters :: "counter set" where
  "pipeline_counters = {publishPipelineEnqueued, publishPipelineFlushedBatch, publishPipelineFlushedEntry,
     publishPipelineFallback, publishPipelineAdaptiveDirect, publishPipelineError}"

definition pipeline_only :: "collector \<Rightarrow> collector \<Rightarrow> bool" where
  "pipeline_only c c' \<longleftrightarrow> (\<forall>k. k \<notin> pipeline_counters \<longrightarrow> counters c' k = counters c k) \<and>
     publishPipelineAdaptiveActive c' = publishPipelineAdaptiveActive c"

lemma pipeline_only_refl [simp]: "pipeline_only c c"
  by (simp add: pipeline_only_def)

lemma pipeline_only_trans [trans]: "pipeline_only a b \<Longrightarrow> pipeline_only b c \<Longrightarrow> pipeline_only a c"
  by (simp add: pipeline_only_def)

lemma pipeline_only_inc [simp]:
  "pipeline_only c (IncPublishPipelineFallback d) \<longleftrightarrow> pipeline_only c d"
  "pipeline_only c (IncPublishPipelineAdaptiveDirect d) \<longleftrightarrow> pipeline_only c d"
  "pipeline_only c (IncPublishPipelineError n d) \<longleftrightarrow> pipeline_only c d"
  "pipeline_only c (IncPublishPipelineEnqueued d) \<longleftrightarrow> pipeline_only c d"
  "pipeline_only c (IncPublishPipelineFlushedBatch d) \<longleftrightarrow> pipeline_only c d"
  "pipeline_only c (IncPublishPipelineFlushedEntries n d) \<longleftrightarrow> pipeline_only c d"
  by (auto simp: pipeline_only_def pipeline_counters_def IncPublishPipelineFallback_def IncPublishPipelineAdaptiveDirect_def
      IncPublishPipelineError_def IncPublishPipelineEnqueued_def IncPublishPipelineFlushedBatch_def
      IncPublishPipelineFlushedEntries_def counter_Inc_def counter_Add_def)

text \<open>
  The contract of \<open>publishPipelineClient\<close> as far as counters are concerned: a pipeline only moves the
  pipeline's own counters.  The publish path is analysed once under this contract.
\<close>

locale pipeline_client =
  fixes p :: "'w publishPipelineClient"
  assumes publish_counters: "pipePublish p ctx req (w, c) = (r, w', c') \<Longrightarrow> pipeline_only c c'"
    and publishMany_counters: "pipePublishMany p ctx reqs (w, c) = (rs, w', c') \<Longrightarrow> pipeline_only c c'"
begin

lemma call_pipeline_counters: "call_pipeline p ctx req s = (r, s') \<Longrightarrow> pipeline_only (collector s) (collector s')"
  by (auto simp: call_pipeline_def split: prod.splits dest: publish_counters)

lemma publish_via_pipeline_counters:
  assumes "publish_via_pipeline p a ctx req s = (r, s')"
  shows "pipeline_only (collector s) (collector s')"
proof -
  have direct: "collector t' = collector t" if "call_publisher ctx req t = (x, t')" for t x and t' :: "'w sidecar"
    using that by (auto simp: call_publisher_def split: prod.splits)
  show ?thesis
    using assms
    by (auto simp: publish_via_pipeline_def split: if_splits prod.splits sum.splits
        dest!: direct call_pipeline_counters)
qed

end

definition pipeline_ok :: "'w sidecar \<Rightarrow> bool" where
  "pipeline_ok s \<longleftrightarrow> (\<forall>p. publishPipeline s = Some p \<longrightarrow> pipeline_client p)"

lemma int64_inc_dec:
  assumes "MinInt64 \<le> x" "x \<le> MaxInt64"
  shows "int64_wrap (int64_wrap (x + 1) + - 1) = x"
proof -
  have "(word_of_int (int64_wrap (x + 1)) :: 64 word) = word_of_int (x + 1)" by (simp add: int64_wrap_def)
  then have "(word_of_int (int64_wrap (x + 1) + - 1) :: 64 word) = word_of_int x"
    by (simp del: word_of_int_minus add: wi_hom_syms)
  then show ?thesis using int64_wrap_id [OF assms] by (simp add: int64_wrap_def)
qed

lemma addAdaptiveActive_simps:
  "collector (snd (addAdaptiveActive d s)) =
     (collector s)\<lparr>publishPipelineAdaptiveActive := int64_wrap (publishPipelineAdaptiveActive (collector s) + d)\<rparr>"
  by (simp add: addAdaptiveActive_def AddPublishPipelineAdaptiveActive_def Let_def)

lemma publishToRedis_counters:
  assumes "pipeline_ok s" "publishToRedis ctx req s = (r, s')"
  shows "k \<notin> pipeline_counters \<Longrightarrow> counters (collector s') k = counters (collector s) k"
    and "MinInt64 \<le> publishPipelineAdaptiveActive (collector s) \<Longrightarrow> publishPipelineAdaptiveActive (collector s) \<le> MaxInt64 \<Longrightarrow>
      publishPipelineAdaptiveActive (collector s') = publishPipelineAdaptiveActive (collector s)"
proof -
  have "(k \<notin> pipeline_counters \<longrightarrow> counters (collector s') k = counters (collector s) k) \<and>
    (MinInt64 \<le> publishPipelineAdaptiveActive (collector s) \<longrightarrow> publishPipelineAdaptiveActive (collector s) \<le> MaxInt64 \<longrightarrow>
      publishPipelineAdaptiveActive (collector s') = publishPipelineAdaptiveActive (collector s))"
  proof (cases "publishPipeline s")
    case None
    with assms(2) show ?thesis by (auto simp: publishToRedis_def call_publisher_def split: prod.splits)
  next
    case (Some p)
    with assms(1) have pc: "pipeline_client p" by (simp add: pipeline_ok_def)
    obtain a s1 where a: "addAdaptiveActive 1 s = (a, s1)" by fastforce
    obtain r2 s2 where v: "publish_via_pipeline p a ctx req s1 = (r2, s2)" by fastforce
    from pipeline_client.publish_via_pipeline_counters [OF pc v] addAdaptiveActive_simps [of 1 s] a
    have c2: "pipeline_only ((collector s)\<lparr>publishPipelineAdaptiveActive := int64_wrap (publishPipelineAdaptiveActive (collector s) + 1)\<rparr>)
        (collector s2)" by simp
    show ?thesis
    proof (cases "PublishPipelineAdaptiveEnabled (cfg s)")
      case True
      with Some assms(2) a v have "s' = snd (addAdaptiveActive (- 1) s2)" by (simp add: publishToRedis_def)
      then show ?thesis using c2 int64_inc_dec by (auto simp: pipeline_only_def addAdaptiveActive_simps)
    next
      case False
      with Some assms(2) have "publish_via_pipeline p 0 ctx req s = (r, s')" by (simp add: publishToRedis_def)
      from pipeline_client.publish_via_pipeline_counters [OF pc this] show ?thesis by (simp add: pipeline_only_def)
    qed
  qed
  then show "k \<notin> pipeline_counters \<Longrightarrow> counters (collector s') k = counters (collector s) k"
    and "MinInt64 \<le> publishPipelineAdaptiveActive (collector s) \<Longrightarrow> publishPipelineAdaptiveActive (collector s) \<le> MaxInt64 \<Longrightarrow>
      publishPipelineAdaptiveActive (collector s') = publishPipelineAdaptiveActive (collector s)"
    by auto
qed

lemma appendWAL_collector: "appendWAL reason req s = (r, s') \<Longrightarrow> collector s' = collector s"
  by (auto simp: appendWAL_def Let_def split: prod.splits)

lemmas publish_inc_defs = IncPublishAttempts_def IncPublishSuccess_def IncPublishQueued_def IncError_def
  counter_Inc_def pipeline_counters_def

text \<open>Remark. Every publish is accounted for exactly once: a call moves exactly one of the success, queued and error
  counters by one, success for an entry in Redis, queued for a line in the log, error for an error answer
  (replay in the background; a synchronous replay may add an error of its own).\<close>

theorem publish_counted_once:
  assumes "pipeline_ok s" "WALReplayMode (cfg s) \<noteq> WALReplayModeSyncOnSuccess"
    and "publishInternal ctx req0 s = (po, s')"
  shows "counters (collector s') publishSuccess =
      (if poErr po = None \<and> \<not> poQueued po then dualCounter_Inc else id) (counters (collector s) publishSuccess) \<and>
    counters (collector s') publishQueued = (if poQueued po then dualCounter_Inc else id) (counters (collector s) publishQueued) \<and>
    counters (collector s') errorsTotal = (if poErr po \<noteq> None then dualCounter_Inc else id) (counters (collector s) errorsTotal) \<and>
    (poQueued po \<longrightarrow> poErr po = None)"
  using assms(3)
proof (cases rule: publishInternal_cases)
  case (rejected req code err)
  then show ?thesis using normalize_error [OF rejected(1)] by (simp add: failed_def publish_inc_defs)
next
  case (published req code eid s2)
  then show ?thesis using publishToRedis_counters(1) [OF assms(1) published(2)] assms(2) by (simp add: publish_inc_defs)
next
  case (abandoned req code err s2)
  then show ?thesis using publishToRedis_counters(1) [OF assms(1) abandoned(2)] by (simp add: failed_def publish_inc_defs)
next
  case (refused req code err s2 appendErr s3)
  then show ?thesis
    using publishToRedis_counters(1) [OF assms(1) refused(2)] appendWAL_collector [OF refused(4)]
    by (simp add: failed_def publish_inc_defs)
next
  case (queued req code err s2 s3)
  then show ?thesis
    using publishToRedis_counters(1) [OF assms(1) queued(2)] appendWAL_collector [OF queued(4)] by (simp add: publish_inc_defs)
qed

theorem publish_counted_once_witness:
  "\<exists>po s'. publishInternal RequestCtx (sample_req ''a'') (sample_sidecar True) = (po, s') \<and>
     counters (collector s') publishQueued = dualCounter_Inc (counters sample_collector publishQueued) \<and>
     counters (collector s') errorsTotal = counters sample_collector errorsTotal"
proof -
  obtain s' where p: "publishInternal RequestCtx (sample_req ''a'') (sample_sidecar True) =
     (\<lparr>poEntryID = '''', poQueued = True, poWalDepth = 1, poStatus = StatusServiceUnavailable, poErr = None\<rparr>, s')"
    using sample_queued by blast
  have "pipeline_ok (sample_sidecar True)" "WALReplayMode (cfg (sample_sidecar True)) \<noteq> WALReplayModeSyncOnSuccess"
    by (simp_all add: pipeline_ok_def sample_cfg_def WALReplayModeSyncOnSuccess_def)
  from publish_counted_once [OF this p] p show ?thesis by auto
qed

text \<open>Remark. The adaptive gauge is balanced: however a publish ends (direct, through the pipeline, by fallback or with
  an error), the number of active publishes is afterwards what it was before.\<close>

theorem adaptive_active_balanced:
  assumes "pipeline_ok s" "publishToRedis ctx req s = (r, s')"
    and "MinInt64 \<le> publishPipelineAdaptiveActive (collector s)" "publishPipelineAdaptiveActive (collector s) \<le> MaxInt64"
  shows "publishPipelineAdaptiveActive (collector s') = publishPipelineAdaptiveActive (collector s)"
  by (rule publishToRedis_counters(2) [OF assms])

definition full_pipeline :: "'w publishPipelineClient" where
  "full_pipeline = \<lparr>pipePublish = (\<lambda>ctx req (w, c). (Inl ErrPublishPipelineQueueFull, w, c)),
     pipePublishMany = (\<lambda>ctx reqs (w, c). (Inl ErrPublishPipelineQueueFull, w, c)), pipeQueueLength = (\<lambda>w. 1024)\<rparr>"

theorem adaptive_active_balanced_witness:
  "\<exists>r s'. publishToRedis RequestCtx (sample_req ''a'')
       ((sample_sidecar False)\<lparr>publishPipeline := Some full_pipeline, cfg := sample_cfg\<lparr>PublishPipelineAdaptiveEnabled := True\<rparr>\<rparr>) = (r, s') \<and>
     publishPipelineAdaptiveActive (collector s') = 0"
proof -
  let ?s = "(sample_sidecar False)\<lparr>publishPipeline := Some full_pipeline, cfg := sample_cfg\<lparr>PublishPipelineAdaptiveEnabled := True\<rparr>\<rparr>"
  have "pipeline_client full_pipeline" by unfold_locales (auto simp: full_pipeline_def)
  then have ok: "pipeline_ok ?s" by (simp add: pipeline_ok_def)
  obtain r s' where p: "publishToRedis RequestCtx (sample_req ''a'') ?s = (r, s')" by fastforce
  from adaptive_active_balanced [OF ok p] p show ?thesis by (simp add: sample_collector_def)
qed

section \<open>Confinement\<close>

text \<open>
  Two sidecars that differ only in what their publishers would do with requests outside a set.
\<close>

definition agree_on :: "(PublishRequest \<Rightarrow> bool) \<Rightarrow> 'w sidecar \<Rightarrow> 'w sidecar \<Rightarrow> bool" where
  "agree_on ok s t \<longleftrightarrow>
     t = s\<lparr>publisher := publisher t, publishPipeline := publishPipeline t\<rparr> \<and>
     (\<forall>ctx r w. ok r \<longrightarrow> publisher t ctx r w = publisher s ctx r w) \<and>
     (case (publishPipeline s, publishPipeline t) of
        (None, None) \<Rightarrow> True
      | (Some p, Some q) \<Rightarrow> pipeQueueLength q = pipeQueueLength p \<and>
          (\<forall>ctx r wc. ok r \<longrightarrow> pipePublish q ctx r wc = pipePublish p ctx r wc)
      | _ \<Rightarrow> False)"

lemma agree_on_same:
  assumes "agree_on ok s t"
  shows "cfg t = cfg s" "redis t = redis s" "wal t = wal s" "disk t = disk s" "walJSON t = walJSON s"
    "world t = world s" "collector t = collector s" "replayMu t = replayMu s" "(publishPipeline t = None) = (publishPipeline s = None)"
  using assms by (cases s; cases t; auto simp: agree_on_def split: option.splits)+

lemma agree_on_update:
  assumes "agree_on ok s t"
  shows "agree_on ok (s\<lparr>world := w, collector := c\<rparr>) (t\<lparr>world := w, collector := c\<rparr>)"
    "agree_on ok (s\<lparr>world := w\<rparr>) (t\<lparr>world := w\<rparr>)" "agree_on ok (s\<lparr>collector := c\<rparr>) (t\<lparr>collector := c\<rparr>)"
    "agree_on ok (s\<lparr>wal := l, disk := d, world := w\<rparr>) (t\<lparr>wal := l, disk := d, world := w\<rparr>)"
  using assms by (cases s; cases t; auto simp: agree_on_def split: option.splits)+

lemma agree_on_on_collector: "agree_on ok s t \<Longrightarrow> agree_on ok (on_collector f s) (on_collector f t)"
  unfolding on_collector_def by (metis agree_on_same(7) agree_on_update(3))

text \<open>Results that agree: equal values and states that agree.\<close>

definition agree_result :: "(PublishRequest \<Rightarrow> bool) \<Rightarrow> 'r \<times> 'w sidecar \<Rightarrow> 'r \<times> 'w sidecar \<Rightarrow> bool" where
  "agree_result ok x y \<longleftrightarrow> fst x = fst y \<and> agree_on ok (snd x) (snd y)"

lemma agree_on_calls:
  assumes "agree_on ok s t"
  shows "ok r \<Longrightarrow> publisher t ctx r w = publisher s ctx r w"
    and "publishPipeline s = Some p \<Longrightarrow> publishPipeline t = Some q \<Longrightarrow> pipeQueueLength q = pipeQueueLength p"
    and "publishPipeline s = Some p \<Longrightarrow> publishPipeline t = Some q \<Longrightarrow> ok r \<Longrightarrow> pipePublish q ctx r wc = pipePublish p ctx r wc"
  using assms by (cases wc, simp_all add: agree_on_def)+

lemma call_publisher_agree:
  assumes "agree_on ok s t" "ok req"
  shows "agree_result ok (call_publisher ctx req s) (call_publisher ctx req t)"
proof -
  have "publisher t ctx req (world t) = publisher s ctx req (world s)"
    using agree_on_calls(1) [OF assms] agree_on_same(6) [OF assms(1)] by simp
  with agree_on_update(2) [OF assms(1)] show ?thesis
    by (simp add: call_publisher_def agree_result_def split_def Let_def)
qed

lemma call_pipeline_agree:
  assumes "agree_on ok s t" "ok req" "publishPipeline s = Some p" "publishPipeline t = Some q"
  shows "agree_result ok (call_pipeline p ctx req s) (call_pipeline q ctx req t)"
proof -
  have "pipePublish q ctx req (world t, collector t) = pipePublish p ctx req (world s, collector s)"
    using agree_on_calls(3) [OF assms(1,3,4,2)] agree_on_same [OF assms(1)] by simp
  with agree_on_update(1) [OF assms(1)] show ?thesis
    by (simp add: call_pipeline_def agree_result_def split_def Let_def)
qed

lemma shouldUse_agree:
  assumes "agree_on ok s t"
  shows "shouldUseAdaptiveDirectPublish a t = shouldUseAdaptiveDirectPublish a s"
proof (cases "publishPipeline s")
  case None
  with agree_on_same(9) [OF assms] show ?thesis by (simp add: shouldUseAdaptiveDirectPublish_def)
next
  case (Some p)
  with agree_on_same(9) [OF assms] obtain q where q: "publishPipeline t = Some q" by auto
  show ?thesis
    by (simp add: shouldUseAdaptiveDirectPublish_def Some q agree_on_same(1,6) [OF assms] agree_on_calls(2) [OF assms Some q])
qed

lemma publish_via_pipeline_agree:
  assumes "agree_on ok s t" "ok req" "publishPipeline s = Some p" "publishPipeline t = Some q"
  shows "agree_result ok (publish_via_pipeline p a ctx req s) (publish_via_pipeline q a ctx req t)"
proof -
  obtain r s1 where p: "call_pipeline p ctx req s = (r, s1)" by fastforce
  obtain t1 where q: "call_pipeline q ctx req t = (r, t1)" and a1: "agree_on ok s1 t1"
    using call_pipeline_agree [OF assms, of ctx] p by (cases "call_pipeline q ctx req t") (auto simp: agree_result_def)
  note fb = call_publisher_agree [OF agree_on_on_collector [OF a1, of IncPublishPipelineFallback] assms(2), of ctx]
  obtain r2 s2 where d: "call_publisher ctx req (incrementPublishPipelineFallback s1) = (r2, s2)" by fastforce
  obtain t2 where e: "call_publisher ctx req (incrementPublishPipelineFallback t1) = (r2, t2)" and a2: "agree_on ok s2 t2"
    using fb d by (cases "call_publisher ctx req (incrementPublishPipelineFallback t1)") (auto simp: agree_result_def)
  show ?thesis
    using p q d e a1 a2 call_publisher_agree [OF agree_on_on_collector [OF assms(1)] assms(2)]
    unfolding publish_via_pipeline_def shouldUse_agree [OF assms(1)]
    by (auto simp: agree_result_def agree_on_on_collector split: sum.splits prod.splits)
qed

lemma addAdaptiveActive_agree: "agree_on ok s t \<Longrightarrow> agree_result ok (addAdaptiveActive d s) (addAdaptiveActive d t)"
  using agree_on_same(7) [of ok s t] agree_on_update(3) [of ok s t]
  by (simp add: addAdaptiveActive_def agree_result_def split_def Let_def)

lemma publishToRedis_agree:
  assumes "agree_on ok s t" "ok req"
  shows "agree_result ok (publishToRedis ctx req s) (publishToRedis ctx req t)"
proof (cases "publishPipeline s")
  case None
  with assms agree_on_same(9) [OF assms(1)] show ?thesis by (simp add: publishToRedis_def call_publisher_agree)
next
  case (Some p)
  then obtain q where q: "publishPipeline t = Some q" using agree_on_same(9) [OF assms(1)] by auto
  obtain a s1 where s1: "addAdaptiveActive 1 s = (a, s1)" by fastforce
  obtain t1 where t1: "addAdaptiveActive 1 t = (a, t1)" and a1: "agree_on ok s1 t1"
    using addAdaptiveActive_agree [OF assms(1), of 1] s1 by (cases "addAdaptiveActive 1 t") (auto simp: agree_result_def)
  have pq: "publishPipeline s1 = Some p" "publishPipeline t1 = Some q"
    using Some q s1 t1 by (auto simp: addAdaptiveActive_def Let_def split: prod.splits)
  show ?thesis
    using publish_via_pipeline_agree [OF a1 assms(2) pq, of a ctx] publish_via_pipeline_agree [OF assms Some q, of 0 ctx]
      Some q s1 t1 agree_on_same(1) [OF assms(1)] addAdaptiveActive_agree
    by (auto simp: publishToRedis_def agree_result_def split_def Let_def)
qed

lemma appendWAL_agree: "agree_on ok s t \<Longrightarrow> agree_result ok (appendWAL reason req s) (appendWAL reason req t)"
  using agree_on_same [of ok s t] agree_on_update(4) [of ok s t]
  by (simp add: appendWAL_def agree_result_def split_def Let_def)

lemma normalize_agree:
  assumes "agree_on ok s t"
  shows "agree_result ok (normalizePublishRequest req d s) (normalizePublishRequest req d t)"
  using agree_on_on_collector [OF assms] assms agree_on_same(1) [OF assms]
  by (auto simp: normalizePublishRequest_def agree_result_def Let_def split: option.splits)

lemma agree_resultE:
  assumes "agree_result ok x y" "x = (r, s)"
  obtains t where "y = (r, t)" "agree_on ok s t"
  using assms by (cases y) (auto simp: agree_result_def)

lemma publish_start_agree:
  assumes "config_valid (cfg s)" "agree_on (publishable (cfg s)) s t"
    and "normalizePublishRequest req0 '''' s = ((req, code, None), s)" "publishToRedis ctx req s = (r, s2)"
  obtains t1 t2 where "normalizePublishRequest req0 '''' t = ((req, code, None), t1)"
    "publishToRedis ctx req t1 = (r, t2)" "agree_on (publishable (cfg s)) s2 t2"
proof -
  from agree_resultE [OF normalize_agree [OF assms(2)] assms(3)] obtain t1 where
    n: "normalizePublishRequest req0 '''' t = ((req, code, None), t1)" and a1: "agree_on (publishable (cfg s)) s t1" .
  have "publishable (cfg s) req" by (rule normalize_publishable [OF assms(3,1)])
  from agree_resultE [OF publishToRedis_agree [OF a1 this] assms(4)] n that show thesis by blast
qed

lemma publish_append_agree:
  assumes "config_valid (cfg s)" "agree_on (publishable (cfg s)) s t" "normalizePublishRequest req0 '''' s = ((req, code, None), s)"
    and "publishToRedis ctx req s = (Inl err, s2)" "appendWAL (Error err) req s2 = (r, s3)"
  obtains t1 t2 t3 where "normalizePublishRequest req0 '''' t = ((req, code, None), t1)" "publishToRedis ctx req t1 = (Inl err, t2)"
    "appendWAL (Error err) req t2 = (r, t3)" "agree_on (publishable (cfg s)) s2 t2" "agree_on (publishable (cfg s)) s3 t3"
proof -
  obtain t1 t2 where t: "normalizePublishRequest req0 '''' t = ((req, code, None), t1)" "publishToRedis ctx req t1 = (Inl err, t2)"
    and a2: "agree_on (publishable (cfg s)) s2 t2"
    by (rule publish_start_agree [OF assms(1-4)])
  from agree_resultE [OF appendWAL_agree [OF a2] assms(5)] obtain t3 where
    "appendWAL (Error err) req t2 = (r, t3)" "agree_on (publishable (cfg s)) s3 t3" .
  then show thesis using that [OF t] a2 by blast
qed


definition strict_publisher :: "mem_world publishClient" where
  "strict_publisher ctx req w =
     (if publishable sample_cfg req then Publisher_Publish mem_redis 1000 ctx req w else (Inl (ErrMsg ''panic''), w\<lparr>memDown := True\<rparr>))"


section \<open>Outage and recovery\<close>

lemma replayWAL_run:
  assumes "\<not> replayMu s" "0 < WALReplayBatch (cfg s)" "wal_inv (wal s) (disk s)" "fs_healthy (wal s) (disk s)"
    and "\<forall>seg\<in>set (SplitByte newline (content (wal_path (wal s)) (disk s))). length seg < replayScanLimit"
  obtains n rest w where
    "replay_spec (walJSON s) (replay_publish ctx s) (WALReplayBatch (cfg s)) (backlog s) 0 (world s) = (n, rest, w)"
    "backlog (replayWAL ctx s) = rest" "world (replayWAL ctx s) = w" "wal_inv (wal (replayWAL ctx s)) (disk (replayWAL ctx s))"
proof -
  obtain n rest l' d' w where
      spec: "replay_spec (walJSON s) (replay_publish ctx s) (WALReplayBatch (cfg s)) (backlog s) 0 (world s) = (n, rest, w)"
      and run: "wal_Replay (walJSON s) (replay_publish ctx s) (WALReplayBatch (cfg s)) (wal s) (disk s) (world s) = ((n, None), l', d', w)"
    by (rule wal_Replay_healthy [OF assms(4,2,5)])
  from wal_Replay_inv [OF assms(2,3) run] spec have inv: "wal_lines l' d' = rest" "wal_inv l' d'" by auto
  have "wal (replayWAL ctx s) = l' \<and> disk (replayWAL ctx s) = d' \<and> world (replayWAL ctx s) = w"
    using assms(1,2) run by (simp add: replayWAL_def Let_def)
  with that spec inv show thesis by auto
qed

text \<open>The codec gives a request back: what the log needs of \<open>encoding/json\<close> to replay it.\<close>

definition codec_roundtrip :: "wal_codec \<Rightarrow> PublishRequest \<Rightarrow> bool" where
  "codec_roundtrip J req \<longleftrightarrow> (\<forall>line. holds_request J line req \<longrightarrow> (\<exists>e. Unmarshal J line = Inr e \<and> eRequest e = req))"


lemma sample_queued_state:
  "publishInternal RequestCtx (sample_req ''a'') (sample_sidecar True) =
     (\<lparr>poEntryID = '''', poQueued = True, poWalDepth = 1, poStatus = StatusServiceUnavailable, poErr = None\<rparr>,
      incrementPublishQueued ((sample_sidecar True)\<lparr>wal := empty_log\<lparr>depth := 1\<rparr>,
        disk := empty_fs\<lparr>files := [''wal'' \<mapsto> ''{a}'' @ [newline]]\<rparr>\<rparr>))"
proof -
  have "appendWAL (Error mem_down) (sample_req ''a'') (sample_sidecar True) =
      (None, (sample_sidecar True)\<lparr>wal := empty_log\<lparr>depth := 1\<rparr>, disk := empty_fs\<lparr>files := [''wal'' \<mapsto> ''{a}'' @ [newline]]\<rparr>\<rparr>)"
    by (simp add: appendWAL_def wal_Append_def sample_codec_def sample_req_def empty_log_def empty_fs_def os_OpenCreate_def
        os_AppendWrite_def content_def ascii_visible_def Let_def sample_sidecar_def)
  moreover have "\<not> shouldSkipWALForPublishError None mem_down" by (simp add: shouldSkipWALForPublishError_def mem_down_def)
  ultimately show ?thesis
    by (simp add: publishInternal_def sample_normalize [simplified] sample_publish_down Let_def wal_Depth_def empty_log_def)
qed


end

