(* ===== verification/Consume.thy ===== *)
theory Consume
  imports Sidecar
begin

text \<open>
  \<open>internal/service/consume.go\<close>: stateless reads through a consumer group, acknowledgements, and the cache of
  consumer groups that are known to exist.
\<close>

section \<open>Requests\<close>

record readRequest =
  rrStream :: string
  rrConsumerGroup :: string
  rrConsumerName :: string
  rrCount :: int
  rrBlockMS :: int

record readEvent =
  reStream :: string
  reEntry :: string
  reFields :: "string \<rightharpoonup> goany"

record ackRequest =
  arStream :: string
  arConsumerGroup :: string
  arEntryIDs :: "string list"

abbreviation incrementReadRequest :: "'w sidecar \<Rightarrow> 'w sidecar" where
  "incrementReadRequest \<equiv> on_collector IncReadRequest"
abbreviation incrementReadEvents :: "uint64 \<Rightarrow> 'w sidecar \<Rightarrow> 'w sidecar" where
  "incrementReadEvents n \<equiv> on_collector (IncReadEvents n)"
abbreviation incrementAckRequest :: "'w sidecar \<Rightarrow> 'w sidecar" where
  "incrementAckRequest \<equiv> on_collector IncAckRequest"
abbreviation incrementAckedEntries :: "uint64 \<Rightarrow> 'w sidecar \<Rightarrow> 'w sidecar" where
  "incrementAckedEntries n \<equiv> on_collector (IncAckedEntries n)"
abbreviation incrementGroupEnsureAttempt :: "'w sidecar \<Rightarrow> 'w sidecar" where
  "incrementGroupEnsureAttempt \<equiv> on_collector IncGroupEnsureAttempt"

section \<open>The cache of consumer groups\<close>

definition consumerGroupKey :: "string \<Rightarrow> string \<Rightarrow> string" where
  "consumerGroupKey stream consumerGroup = TrimSpace stream @ ''|'' @ TrimSpace consumerGroup"

definition isConsumerGroupEnsured :: "string \<Rightarrow> string \<Rightarrow> 'w sidecar \<Rightarrow> bool" where
  "isConsumerGroupEnsured stream consumerGroup s \<longleftrightarrow> consumerGroupKey stream consumerGroup \<in> consumerGroupsEnsured s"

definition rememberConsumerGroup :: "string \<Rightarrow> string \<Rightarrow> 'w sidecar \<Rightarrow> 'w sidecar" where
  "rememberConsumerGroup stream consumerGroup s =
     s\<lparr>consumerGroupsEnsured := insert (consumerGroupKey stream consumerGroup) (consumerGroupsEnsured s)\<rparr>"

definition forgetEnsuredConsumerGroup :: "string \<Rightarrow> string \<Rightarrow> 'w sidecar \<Rightarrow> 'w sidecar" where
  "forgetEnsuredConsumerGroup stream consumerGroup s =
     s\<lparr>consumerGroupsEnsured := consumerGroupsEnsured s - {consumerGroupKey stream consumerGroup}\<rparr>"

definition ensureConsumerGroup :: "ctx \<Rightarrow> string \<Rightarrow> string \<Rightarrow> 'w sidecar \<Rightarrow> go_error option \<times> 'w sidecar" where
  "ensureConsumerGroup ctx stream consumerGroup s =
     (if isConsumerGroupEnsured stream consumerGroup s then (None, s)
      else (let s1 = incrementGroupEnsureAttempt s;
                (err, w) = XGroupCreateMkStream (redis s1) ctx stream consumerGroup ''0'' (world s1);
                s2 = s1\<lparr>world := w\<rparr>
            in case err of
                 None \<Rightarrow> (None, rememberConsumerGroup stream consumerGroup s2)
               | Some e \<Rightarrow>
                   if Contains (ToUpper (Error e)) ''BUSYGROUP''
                   then (None, rememberConsumerGroup stream consumerGroup s2)
                   else (Some e, s2)))"

definition isNoGroupError :: "go_error option \<Rightarrow> bool" where
  "isNoGroupError err = (case err of None \<Rightarrow> False | Some e \<Rightarrow> Contains (ToLower (Error e)) ''nogroup'')"

section \<open>Reading\<close>

definition read_args :: "readRequest \<Rightarrow> XReadGroupArgs" where
  "read_args req = \<lparr>xrGroup = rrConsumerGroup req, xrConsumer = rrConsumerName req,
     xrStreams = [rrStream req, ''>''], xrCount = rrCount req, xrBlock = millis (rrBlockMS req)\<rparr>"

definition readOnce :: "ctx \<Rightarrow> readRequest \<Rightarrow> 'w sidecar \<Rightarrow> (string \<times> XMessage list) list go_result \<times> 'w sidecar" where
  "readOnce ctx req s =
     (let (r, w) = XReadGroup (redis s) ctx (read_args req) (world s) in (r, s\<lparr>world := w\<rparr>))"

definition message_event :: "string \<Rightarrow> XMessage \<Rightarrow> readEvent" where
  "message_event stream msg =
     \<lparr>reStream = stream, reEntry = msgID msg, reFields = (\<lambda>k. map_option normalizeRedisValue (msgValues msg k))\<rparr>"

definition read_events :: "(string \<times> XMessage list) list \<Rightarrow> readEvent list" where
  "read_events streams = concat (map (\<lambda>(stream, msgs). map (message_event stream) msgs) streams)"

text \<open>Trimming, and the bounds on count and blocking time.\<close>

definition trim_read :: "readRequest \<Rightarrow> readRequest" where
  "trim_read req = req\<lparr>rrStream := TrimSpace (rrStream req), rrConsumerGroup := TrimSpace (rrConsumerGroup req),
     rrConsumerName := TrimSpace (rrConsumerName req)\<rparr>"

definition clamp_read :: "readRequest \<Rightarrow> readRequest" where
  "clamp_read req0 =
     (let req1 = (if rrCount req0 \<le> 0 then req0\<lparr>rrCount := 10\<rparr> else req0);
          req2 = (if rrCount req1 > 100 then req1\<lparr>rrCount := 100\<rparr> else req1)
      in if rrBlockMS req2 \<le> 0 then req2\<lparr>rrBlockMS := 1000\<rparr> else req2)"

text \<open>The first read, and on a missing group the second one after the group was recreated.\<close>

definition read_with_retry ::
  "ctx \<Rightarrow> readRequest \<Rightarrow> 'w sidecar \<Rightarrow> (string \<times> XMessage list) list go_result \<times> 'w sidecar" where
  "read_with_retry ctx req s =
     (case readOnce ctx req s of
        (Inr streams, s1) \<Rightarrow> (Inr streams, s1)
      | (Inl err, s1) \<Rightarrow>
          if isNoGroupError (Some err)
          then (case ensureConsumerGroup ctx (rrStream req) (rrConsumerGroup req)
                       (forgetEnsuredConsumerGroup (rrStream req) (rrConsumerGroup req) s1) of
                  (None, s2) \<Rightarrow> readOnce ctx req s2
                | (Some _, s2) \<Rightarrow> (Inl err, s2))
          else (Inl err, s1))"

definition consumeGroupOnce ::
  "ctx \<Rightarrow> readRequest \<Rightarrow> 'w sidecar \<Rightarrow> (readEvent list \<times> int \<times> go_error option) \<times> 'w sidecar" where
  "consumeGroupOnce ctx req0 s =
     (let req1 = trim_read req0
      in if rrStream req1 = '''' \<or> rrConsumerGroup req1 = '''' \<or> rrConsumerName req1 = ''''
         then (([], StatusBadRequest, Some (ErrMsg ''stream, consumer_group, and consumer_name are required'')), incrementError s)
         else if \<not> IsStreamAllowed (ConsumeStreams (cfg s)) (rrStream req1)
         then (([], StatusForbidden, Some (ErrMsg ''stream not allowed for this sugar glider'')), incrementError s)
         else (let req = clamp_read req1
               in case ensureConsumerGroup ctx (rrStream req) (rrConsumerGroup req) s of
                    (Some _, s1) \<Rightarrow>
                      (([], StatusServiceUnavailable, Some (ErrMsg ''failed to ensure consumer group'')), incrementError s1)
                  | (None, s1) \<Rightarrow>
                      (case read_with_retry ctx req s1 of
                         (Inl err, s2) \<Rightarrow>
                           if err = RedisNil then (([], StatusOK, None), s2)
                           else (([], StatusServiceUnavailable, Some (ErrMsg ''failed to read from stream'')), incrementError s2)
                       | (Inr streams, s2) \<Rightarrow>
                           (let events = read_events streams
                            in ((events, StatusOK, None), incrementReadEvents (word_of_nat (length events)) s2)))))"

section \<open>Acknowledging\<close>

definition ackEntriesInternal :: "ctx \<Rightarrow> ackRequest \<Rightarrow> 'w sidecar \<Rightarrow> (int \<times> int \<times> go_error option) \<times> 'w sidecar" where
  "ackEntriesInternal ctx req0 s =
     (let req = req0\<lparr>arStream := TrimSpace (arStream req0), arConsumerGroup := TrimSpace (arConsumerGroup req0)\<rparr>
      in if arStream req = '''' \<or> arConsumerGroup req = '''' \<or> length (arEntryIDs req) = 0
         then ((0, StatusBadRequest, Some (ErrMsg ''stream, consumer_group, and entry_ids are required'')), incrementError s)
         else if \<not> IsStreamAllowed (ConsumeStreams (cfg s)) (arStream req)
         then ((0, StatusForbidden, Some (ErrMsg ''stream not allowed for this sugar glider'')), incrementError s)
         else (let (r, w) = XAck (redis s) ctx (arStream req) (arConsumerGroup req) (arEntryIDs req) (world s);
                   s1 = s\<lparr>world := w\<rparr>
               in case r of
                    Inl err \<Rightarrow>
                      ((0, StatusServiceUnavailable, Some (ErrMsg ''failed to ack stream entries'')), incrementError s1)
                  | Inr acked \<Rightarrow> ((acked, StatusOK, None), incrementAckedEntries (word_of_int acked) s1)))"

section \<open>HTTP handlers\<close>

definition event_json :: "readEvent \<Rightarrow> jval" where
  "event_json e = JObj [(''stream'', JStr (reStream e)), (''entry_id'', JStr (reEntry e)), (''fields'', JFields (reFields e))]"

definition readFromStream ::
  "(string \<Rightarrow> readRequest go_result) \<Rightarrow> http_request \<Rightarrow> 'w sidecar \<Rightarrow> response \<times> 'w sidecar" where
  "readFromStream decode r s0 =
     (if reqMethod r \<noteq> ''POST'' then ((StatusMethodNotAllowed, None), s0)
      else (let s = incrementReadRequest s0
            in case decode (reqBody r) of
                 Inl err \<Rightarrow> (writeJSON StatusBadRequest [(''error'', JStr ''invalid JSON'')], incrementError s)
               | Inr req \<Rightarrow>
                   (case consumeGroupOnce RequestCtx req s of
                      ((events, statusCode, Some err), s1) \<Rightarrow> (writeJSON statusCode [(''error'', JStr (Error err))], s1)
                    | ((events, statusCode, None), s1) \<Rightarrow>
                        (writeJSON StatusOK [(''events'', JList (map event_json events))], s1))))"

definition ackEntries ::
  "(string \<Rightarrow> ackRequest go_result) \<Rightarrow> http_request \<Rightarrow> 'w sidecar \<Rightarrow> response \<times> 'w sidecar" where
  "ackEntries decode r s0 =
     (if reqMethod r \<noteq> ''POST'' then ((StatusMethodNotAllowed, None), s0)
      else (let s = incrementAckRequest s0
            in case decode (reqBody r) of
                 Inl err \<Rightarrow> (writeJSON StatusBadRequest [(''error'', JStr ''invalid JSON'')], incrementError s)
               | Inr req \<Rightarrow>
                   (case ackEntriesInternal RequestCtx req s of
                      ((acked, statusCode, Some err), s1) \<Rightarrow> (writeJSON statusCode [(''error'', JStr (Error err))], s1)
                    | ((acked, statusCode, None), s1) \<Rightarrow> (writeJSON StatusOK [(''acked'', JNum acked)], s1))))"

section \<open>Keys of stream and group\<close>

text \<open>
  The contract of a key function on pairs of stream and group names: as long as stream names have no
  \<open>|\<close>, keys identify the pair.  A set or map indexed by such keys then behaves like one indexed by pairs.
\<close>

locale group_key =
  fixes key :: "string \<Rightarrow> string \<Rightarrow> string"
    and norm :: "string \<Rightarrow> string"
  assumes key_eq_iff: "CHR ''|'' \<notin> set (norm a) \<Longrightarrow> CHR ''|'' \<notin> set (norm b) \<Longrightarrow>
    key a g = key b h \<longleftrightarrow> norm a = norm b \<and> norm g = norm h"
begin

abbreviation plain :: "string \<Rightarrow> bool" where "plain a \<equiv> CHR ''|'' \<notin> set (norm a)"

lemma lookup_insert: "plain a \<Longrightarrow> plain b \<Longrightarrow> key a g \<in> insert (key b h) K \<longleftrightarrow> (norm a = norm b \<and> norm g = norm h) \<or> key a g \<in> K"
  by (simp add: key_eq_iff)

lemma lookup_delete: "plain a \<Longrightarrow> plain b \<Longrightarrow> key a g \<in> K - {key b h} \<longleftrightarrow> \<not> (norm a = norm b \<and> norm g = norm h) \<and> key a g \<in> K"
  by (auto simp: key_eq_iff)

lemma map_update: "plain a \<Longrightarrow> plain b \<Longrightarrow> (M(key b h \<mapsto> v)) (key a g) = (if norm a = norm b \<and> norm g = norm h then Some v else M (key a g))"
  by (simp add: key_eq_iff)

lemma map_delete: "plain a \<Longrightarrow> plain b \<Longrightarrow> (M(key b h := None)) (key a g) = (if norm a = norm b \<and> norm g = norm h then None else M (key a g))"
  by (simp add: key_eq_iff)

end

lemma bar_append_eq: "d \<notin> set a \<Longrightarrow> d \<notin> set b \<Longrightarrow> a @ d # g = b @ d # h \<longleftrightarrow> a = b \<and> g = h"
proof (induction a arbitrary: b)
  case Nil
  then show ?case by (cases b) auto
next
  case (Cons x a)
  then show ?case by (cases b) auto
qed

interpretation consumer_group_key: group_key consumerGroupKey TrimSpace
  by unfold_locales (simp add: consumerGroupKey_def bar_append_eq)

text \<open>The separator does not protect against stream names that contain it.\<close>

lemma consumerGroupKey_collision: "consumerGroupKey ''a|b'' ''c'' = consumerGroupKey ''a'' ''b|c''"
  by (simp add: consumerGroupKey_def TrimSpace_visible ascii_visible_def)

lemma group_cache_simps [simp]:
  "world (rememberConsumerGroup a g s) = world s" "world (forgetEnsuredConsumerGroup a g s) = world s"
  "cfg (rememberConsumerGroup a g s) = cfg s" "cfg (forgetEnsuredConsumerGroup a g s) = cfg s"
  "redis (rememberConsumerGroup a g s) = redis s" "redis (forgetEnsuredConsumerGroup a g s) = redis s"
  "collector (rememberConsumerGroup a g s) = collector s" "collector (forgetEnsuredConsumerGroup a g s) = collector s"
  "wal (rememberConsumerGroup a g s) = wal s" "wal (forgetEnsuredConsumerGroup a g s) = wal s"
  by (simp_all add: rememberConsumerGroup_def forgetEnsuredConsumerGroup_def)

lemma isConsumerGroupEnsured_on_collector [simp]:
  "isConsumerGroupEnsured a g (on_collector f s) = isConsumerGroupEnsured a g s"
  "isConsumerGroupEnsured a g (s\<lparr>world := w\<rparr>) = isConsumerGroupEnsured a g s"
  by (simp_all add: isConsumerGroupEnsured_def)

lemma ensured_remember:
  "CHR ''|'' \<notin> set (TrimSpace a) \<Longrightarrow> CHR ''|'' \<notin> set (TrimSpace b) \<Longrightarrow>
   isConsumerGroupEnsured a g (rememberConsumerGroup b h s) \<longleftrightarrow>
     (TrimSpace a = TrimSpace b \<and> TrimSpace g = TrimSpace h) \<or> isConsumerGroupEnsured a g s"
  by (simp add: isConsumerGroupEnsured_def rememberConsumerGroup_def consumer_group_key.lookup_insert [simplified])

lemma ensured_self [simp]: "isConsumerGroupEnsured a g (rememberConsumerGroup a g s)"
  "\<not> isConsumerGroupEnsured a g (forgetEnsuredConsumerGroup a g s)"
  by (simp_all add: isConsumerGroupEnsured_def rememberConsumerGroup_def forgetEnsuredConsumerGroup_def)

text \<open>Remark. Ensuring a consumer group: on success the group is cached and Redis is asked at most once, so that
  ensuring it again changes nothing; on failure the error is the one of Redis and nothing is cached; and for
  stream names without \<open>|\<close> no other group's cache entry is affected.\<close>

theorem ensureConsumerGroup_cached:
  assumes "ensureConsumerGroup ctx a g s = (err, s')"
  shows "(case err of
      None \<Rightarrow> isConsumerGroupEnsured a g s' \<and> (\<forall>ctx'. ensureConsumerGroup ctx' a g s' = (None, s'))
    | Some e \<Rightarrow> consumerGroupsEnsured s' = consumerGroupsEnsured s \<and> \<not> isConsumerGroupEnsured a g s \<and>
        fst (XGroupCreateMkStream (redis s) ctx a g ''0'' (world s)) = Some e) \<and>
    (\<forall>b h. CHR ''|'' \<notin> set (TrimSpace a) \<and> CHR ''|'' \<notin> set (TrimSpace b) \<and>
      (TrimSpace b, TrimSpace h) \<noteq> (TrimSpace a, TrimSpace g) \<longrightarrow>
      isConsumerGroupEnsured b h s' = isConsumerGroupEnsured b h s)"
  using assms
  by (auto simp: ensureConsumerGroup_def Let_def ensured_remember split: if_splits option.splits prod.splits)

theorem ensureConsumerGroup_cached_witness:
  "\<exists>s'. ensureConsumerGroup RequestCtx ''s'' ''g'' (sample_sidecar False) = (None, s') \<and>
     isConsumerGroupEnsured ''s'' ''g'' s' \<and> \<not> isConsumerGroupEnsured ''s'' ''h'' s'"
proof -
  obtain err s' where e: "ensureConsumerGroup RequestCtx ''s'' ''g'' (sample_sidecar False) = (err, s')" by fastforce
  then have n: "err = None"
    by (auto simp: ensureConsumerGroup_def mem_redis_def mem_empty_def Let_def split: if_splits)
  have "\<not> isConsumerGroupEnsured ''s'' ''h'' (sample_sidecar False)" by (simp add: isConsumerGroupEnsured_def sample_sidecar_def)
  moreover have "CHR ''|'' \<notin> set (TrimSpace ''s'')" "(TrimSpace ''s'', TrimSpace ''h'') \<noteq> (TrimSpace ''s'', TrimSpace ''g'')"
    by (simp_all add: TrimSpace_visible ascii_visible_def)
  ultimately show ?thesis using ensureConsumerGroup_cached [OF e] e n by auto
qed

section \<open>Reading through a group\<close>

lemma clamp_read_bounds:
  "1 \<le> rrCount (clamp_read req)" "rrCount (clamp_read req) \<le> 100" "1 \<le> rrBlockMS (clamp_read req)"
  "rrStream (clamp_read req) = rrStream req" "rrConsumerGroup (clamp_read req) = rrConsumerGroup req"
  "rrConsumerName (clamp_read req) = rrConsumerName req"
  by (simp_all add: clamp_read_def Let_def)

lemma ensure_frame:
  assumes "ensureConsumerGroup ctx a g s = (err, s')"
  shows "cfg s' = cfg s" "redis s' = redis s" "wal s' = wal s" "disk s' = disk s"
  using assms
  by (auto simp: ensureConsumerGroup_def Let_def rememberConsumerGroup_def split: if_splits option.splits prod.splits)

text \<open>A request that passes validation.\<close>

definition readable :: "Config \<Rightarrow> readRequest \<Rightarrow> bool" where
  "readable c req \<longleftrightarrow> TrimSpace (rrStream req) \<noteq> '''' \<and> TrimSpace (rrConsumerGroup req) \<noteq> '''' \<and>
     TrimSpace (rrConsumerName req) \<noteq> '''' \<and> IsStreamAllowed (ConsumeStreams c) (TrimSpace (rrStream req))"

lemma trim_read_simps [simp]:
  "rrStream (trim_read req) = TrimSpace (rrStream req)" "rrConsumerGroup (trim_read req) = TrimSpace (rrConsumerGroup req)"
  "rrConsumerName (trim_read req) = TrimSpace (rrConsumerName req)"
  by (simp_all add: trim_read_def)

lemma consumeGroupOnce_readable:
  assumes "readable (cfg s) req"
  shows "consumeGroupOnce ctx req s =
    (let r = clamp_read (trim_read req)
     in case ensureConsumerGroup ctx (TrimSpace (rrStream req)) (TrimSpace (rrConsumerGroup req)) s of
          (Some _, s1) \<Rightarrow> (([], StatusServiceUnavailable, Some (ErrMsg ''failed to ensure consumer group'')), incrementError s1)
        | (None, s1) \<Rightarrow>
            (case read_with_retry ctx r s1 of
               (Inl err, s2) \<Rightarrow>
                 if err = RedisNil then (([], StatusOK, None), s2)
                 else (([], StatusServiceUnavailable, Some (ErrMsg ''failed to read from stream'')), incrementError s2)
             | (Inr streams, s2) \<Rightarrow>
                 ((read_events streams, StatusOK, None), incrementReadEvents (word_of_nat (length (read_events streams))) s2)))"
  using assms unfolding consumeGroupOnce_def Let_def by (simp add: readable_def clamp_read_bounds)

text \<open>C33. A read repairs a lost consumer group: when Redis answers \<open>NOGROUP\<close> (after a flush, say), the cached
  group is dropped, recreated, and the read repeated; the caller gets the events of the second read, all of
  them in order with byte values as strings, and the group is cached again.\<close>

theorem consume_recreates_group:
  assumes "readable (cfg s) req" "stream = TrimSpace (rrStream req)" "grp = TrimSpace (rrConsumerGroup req)"
    and "isConsumerGroupEnsured stream grp s" "a = read_args (clamp_read (trim_read req))"
    and "XReadGroup (redis s) ctx a (world s) = (Inl err, w1)" "isNoGroupError (Some err)"
    and "XGroupCreateMkStream (redis s) ctx stream grp ''0'' w1 = (None, w2)"
    and "XReadGroup (redis s) ctx a w2 = (Inr streams, w3)"
  shows "\<exists>s'. consumeGroupOnce ctx req s = ((read_events streams, StatusOK, None), s') \<and> world s' = w3 \<and>
    isConsumerGroupEnsured stream grp s' \<and> 1 \<le> xrCount a \<and> xrCount a \<le> 100 \<and> xrStreams a = [stream, ''>''] \<and> xrGroup a = grp"
proof -
  let ?s1 = "s\<lparr>world := w1\<rparr>"
  let ?s2 = "rememberConsumerGroup stream grp (incrementGroupEnsureAttempt (forgetEnsuredConsumerGroup stream grp ?s1)\<lparr>world := w2\<rparr>)"
  have "ensureConsumerGroup ctx stream grp s = (None, s)" using assms(4) by (simp add: ensureConsumerGroup_def)
  moreover have "readOnce ctx (clamp_read (trim_read req)) s = (Inl err, ?s1)" using assms(5,6) by (simp add: readOnce_def)
  moreover have "ensureConsumerGroup ctx stream grp (forgetEnsuredConsumerGroup stream grp ?s1) = (None, ?s2)"
    using assms(8) by (simp add: ensureConsumerGroup_def)
  moreover have "readOnce ctx (clamp_read (trim_read req)) ?s2 = (Inr streams, ?s2\<lparr>world := w3\<rparr>)"
    using assms(5,9) by (simp add: readOnce_def)
  ultimately show ?thesis
    using assms(2,3,5,7)
    by (simp add: consumeGroupOnce_readable [OF assms(1)] read_with_retry_def clamp_read_bounds read_args_def Let_def)
qed

definition flaky_redis :: "mem_world redis" where
  "flaky_redis = mem_redis
     \<lparr>XReadGroup := (\<lambda>ctx a w. if memNext w = 1 then (Inl (ErrMsg ''NOGROUP No such key''), w)
        else (Inr [(''s'', [\<lparr>msgID = ''1-0'', msgValues = [''payload'' \<mapsto> GoBytes ''x'']\<rparr>])], w)),
      XGroupCreateMkStream := (\<lambda>ctx st grp start w. (None, w\<lparr>memNext := 2\<rparr>))\<rparr>"

definition sample_read :: readRequest where
  "sample_read = \<lparr>rrStream = ''s'', rrConsumerGroup = ''g'', rrConsumerName = ''c'', rrCount = 0, rrBlockMS = 0\<rparr>"

lemma sample_read_ok: "readable sample_cfg sample_read"
  by (simp add: readable_def sample_read_def sample_cfg_def IsStreamAllowed_iff TrimSpace_visible ascii_visible_def)

theorem consume_recreates_group_witness:
  "\<exists>s'. consumeGroupOnce RequestCtx sample_read
       (rememberConsumerGroup ''s'' ''g'' ((sample_sidecar False)\<lparr>redis := flaky_redis\<rparr>)) =
     ((read_events [(''s'', [\<lparr>msgID = ''1-0'', msgValues = [''payload'' \<mapsto> GoBytes ''x'']\<rparr>])], StatusOK, None), s') \<and>
     isConsumerGroupEnsured ''s'' ''g'' s'"
proof -
  let ?s = "rememberConsumerGroup ''s'' ''g'' ((sample_sidecar False)\<lparr>redis := flaky_redis\<rparr>)"
  have ng: "isNoGroupError (Some (ErrMsg ''NOGROUP No such key''))" by code_simp
  have st: "''s'' = TrimSpace (rrStream sample_read)" "''g'' = TrimSpace (rrConsumerGroup sample_read)"
    by (simp_all add: sample_read_def TrimSpace_visible ascii_visible_def)
  have "readable (cfg ?s) sample_read" using sample_read_ok by simp
  from consume_recreates_group [OF this st _ refl _ ng, of RequestCtx mem_empty "mem_empty\<lparr>memNext := 2\<rparr>" _ "mem_empty\<lparr>memNext := 2\<rparr>"]
  show ?thesis by (auto simp: flaky_redis_def mem_empty_def)
qed

text \<open>Remark. Reads and acknowledgements are confined: a request that is incomplete or names a stream outside the
  consume list is answered with 400 or 403 without any Redis command, and an acknowledgement that does reach Redis
  returns its count and adds it to the counter.\<close>

theorem consume_and_ack_guarded:
  "(\<not> readable (cfg s) req \<longrightarrow>
      (\<exists>code err. consumeGroupOnce ctx req s = (([], code, Some err), incrementError s) \<and> code \<in> {StatusBadRequest, StatusForbidden})) \<and>
   (TrimSpace (arStream areq) = '''' \<or> TrimSpace (arConsumerGroup areq) = '''' \<or> arEntryIDs areq = [] \<or>
      \<not> IsStreamAllowed (ConsumeStreams (cfg s)) (TrimSpace (arStream areq)) \<longrightarrow>
      (\<exists>code err. ackEntriesInternal ctx areq s = ((0, code, Some err), incrementError s) \<and> code \<in> {StatusBadRequest, StatusForbidden})) \<and>
   (\<forall>n w. TrimSpace (arStream areq) \<noteq> '''' \<and> TrimSpace (arConsumerGroup areq) \<noteq> '''' \<and> arEntryIDs areq \<noteq> [] \<and>
      IsStreamAllowed (ConsumeStreams (cfg s)) (TrimSpace (arStream areq)) \<and>
      XAck (redis s) ctx (TrimSpace (arStream areq)) (TrimSpace (arConsumerGroup areq)) (arEntryIDs areq) (world s) = (Inr n, w) \<longrightarrow>
      ackEntriesInternal ctx areq s = ((n, StatusOK, None), incrementAckedEntries (word_of_int n) (s\<lparr>world := w\<rparr>)))"
proof (intro conjI)
  show "\<not> readable (cfg s) req \<longrightarrow>
      (\<exists>code err. consumeGroupOnce ctx req s = (([], code, Some err), incrementError s) \<and> code \<in> {StatusBadRequest, StatusForbidden})"
    unfolding consumeGroupOnce_def readable_def Let_def by simp
qed (simp_all add: ackEntriesInternal_def Let_def)

theorem consume_and_ack_guarded_witness:
  "\<exists>code err. consumeGroupOnce RequestCtx (sample_read\<lparr>rrStream := ''other''\<rparr>) (sample_sidecar False) =
     (([], code, Some err), incrementError (sample_sidecar False)) \<and> code \<in> {StatusBadRequest, StatusForbidden}"
proof -
  have "\<not> readable (cfg (sample_sidecar False)) (sample_read\<lparr>rrStream := ''other''\<rparr>)"
    by (simp add: readable_def sample_read_def sample_cfg_def IsStreamAllowed_iff TrimSpace_visible ascii_visible_def)
  with consume_and_ack_guarded [of "sample_sidecar False" "sample_read\<lparr>rrStream := ''other''\<rparr>" RequestCtx] show ?thesis by blast
qed

text \<open>Remark. The blocking time of a read is not bounded above: the conversion to nanoseconds wraps around, so the
  request \<open>block_ms = 2 ^ 58\<close> asks Redis for a block of zero, which Redis takes as forever.\<close>

theorem read_block_wraps:
  "xrBlock (read_args (clamp_read (req\<lparr>rrBlockMS := 2 ^ 58\<rparr>))) = 0"
proof -
  have "(word_of_int (2 ^ 58 * 1000000) :: 64 word) = 0" by (simp add: word_of_int_eq_0_iff)
  then show ?thesis by (simp add: read_args_def clamp_read_def Let_def millis_def int64_wrap_def)
qed

end
