(* ===== verification/Ack_Chunks.thy ===== *)
theory Ack_Chunks
  imports Consume
begin

text \<open>
  The pure part of acknowledgement batching in \<open>internal/service/dispatcher.go\<close> and \<open>intconv.go\<close>: splitting the
  identifiers of a flush into chunks, and the statistics on contiguous spans of identifiers.
\<close>

section \<open>Chunks\<close>

text \<open>\<open>int\<close> has 64 bits on the platforms the service is built for.\<close>

abbreviation MaxInt :: int where "MaxInt \<equiv> MaxInt64"
abbreviation MinInt :: int where "MinInt \<equiv> MinInt64"

definition clampInt64ToInt :: "int \<Rightarrow> int" where
  "clampInt64ToInt value = (if value > MaxInt then MaxInt else if value < MinInt then MinInt else value)"

text \<open>Go's integer division truncates towards zero.\<close>

definition go_div :: "int \<Rightarrow> int \<Rightarrow> int" where
  "go_div a b = sgn a * sgn b * (\<bar>a\<bar> div \<bar>b\<bar>)"

text \<open>The loop that cuts the slice; its step is at least one.\<close>

function chunk_loop :: "nat \<Rightarrow> 'a list \<Rightarrow> 'a list list" where
  "chunk_loop step items =
     (if items = [] \<or> step = 0 then [] else take step items # chunk_loop step (drop step items))"
  by auto
termination by (relation "measure (length \<circ> snd)") auto

declare chunk_loop.simps [simp del]

text \<open>\<open>None\<close> is the panic of \<open>make\<close> on a negative capacity.\<close>

definition chunkStringSlice :: "string list \<Rightarrow> int \<Rightarrow> string list list option" where
  "chunkStringSlice items chunkSize =
     (let n = clampInt64ToInt chunkSize;
          safeChunkSize = (if n \<le> 0 then 1 else n);
          capacity = go_div (int64_wrap (int64_wrap (int (length items) + safeChunkSize) - 1)) safeChunkSize
      in if capacity < 0 then None else Some (chunk_loop (nat safeChunkSize) items))"

lemma chunk_loop_Nil [simp]: "chunk_loop n [] = []"
  by (simp add: chunk_loop.simps)

lemma chunk_loop_Cons: "0 < n \<Longrightarrow> items \<noteq> [] \<Longrightarrow> chunk_loop n items = take n items # chunk_loop n (drop n items)"
  by (simp add: chunk_loop.simps)

lemma concat_chunk_loop [simp]: "0 < n \<Longrightarrow> concat (chunk_loop n items) = items"
proof (induction n items rule: chunk_loop.induct)
  case (1 n items)
  then show ?case by (cases "items = []") (simp_all add: chunk_loop_Cons)
qed

lemma chunk_loop_sizes: "c \<in> set (chunk_loop n items) \<Longrightarrow> c \<noteq> [] \<and> length c \<le> n"
proof (induction n items rule: chunk_loop.induct)
  case (1 n items)
  then show ?case by (cases "items = [] \<or> n = 0") (auto simp: chunk_loop.simps [of n items])
qed

lemma length_chunk_loop: "0 < n \<Longrightarrow> length (chunk_loop n items) = (length items + n - 1) div n"
proof (induction n items rule: chunk_loop.induct)
  case (1 n items)
  show ?case
  proof (cases "items = []")
    case False
    then obtain k where k: "length items = Suc k" by (cases items) auto
    have "length (chunk_loop n items) = Suc ((length items - n + n - 1) div n)"
      using 1 False by (simp add: chunk_loop_Cons)
    also have "\<dots> = (length items + n - 1) div n"
    proof (cases "n \<le> length items")
      case True
      then have "length items + n - 1 = (length items - n + n - 1) + n" using "1.prems" by simp
      then show ?thesis using "1.prems" by (simp only: div_add_self2 not_gr_zero)
    next
      case False
      then have "(length items - n + n - 1) div n = 0" using "1.prems" by simp
      moreover have "(length items + n - 1) div n = 1"
      proof -
        have "length items + n - 1 = k + n" using k by simp
        moreover have "k < n" using False k by simp
        moreover have "(k + n) div n = Suc 0" using \<open>k < n\<close> div_add_self2 [of n k] by simp
        ultimately show ?thesis by simp
      qed
      ultimately show ?thesis by simp
    qed
    finally show ?thesis .
  qed (use "1.prems" in simp)
qed

lemma chunkStringSlice_fits:
  assumes "0 < n" "n \<le> MaxInt" "int (length items) + n - 1 \<le> MaxInt"
  shows "chunkStringSlice items n = Some (chunk_loop (nat n) items)"
proof -
  have clamp: "clampInt64ToInt n = n" using assms by (simp add: clampInt64ToInt_def)
  have word: "int64_wrap (int64_wrap (int (length items) + n) - 1) = int64_wrap (int (length items) + n - 1)"
    by (simp add: int64_wrap_def)
  have "int64_wrap (int (length items) + n - 1) = int (length items) + n - 1"
    using assms by (intro int64_wrap_id) simp_all
  moreover have "0 \<le> go_div (int (length items) + n - 1) n"     using assms by (simp add: go_div_def sgn_if pos_imp_zdiv_nonneg_iff)
  ultimately show ?thesis using assms(1) by (simp add: chunkStringSlice_def clamp word Let_def)
qed

text \<open>Remark. Chunking partitions the identifiers: for every batch size within the range of \<open>int\<close> the chunks are
  non-empty, have at most that many elements, are as few as possible, and put together they are the input in order.\<close>

theorem chunkStringSlice_partition:
  assumes "0 < n" "n \<le> MaxInt" "int (length items) + n - 1 \<le> MaxInt"
  shows "\<exists>chunks. chunkStringSlice items n = Some chunks \<and> concat chunks = items \<and>
    (\<forall>c\<in>set chunks. c \<noteq> [] \<and> int (length c) \<le> n) \<and> length chunks = (length items + nat n - 1) div nat n"
proof (intro exI conjI ballI)
  show "chunkStringSlice items n = Some (chunk_loop (nat n) items)" by (rule chunkStringSlice_fits [OF assms])
  show "concat (chunk_loop (nat n) items) = items" "length (chunk_loop (nat n) items) = (length items + nat n - 1) div nat n"
    using assms(1) length_chunk_loop [of "nat n" items] by simp_all
  fix c assume "c \<in> set (chunk_loop (nat n) items)"
  then show "c \<noteq> []" "int (length c) \<le> n" using chunk_loop_sizes [of c "nat n" items] assms(1) by auto
qed

theorem chunkStringSlice_partition_witness:
  "\<exists>chunks. chunkStringSlice [''1-1'', ''1-2'', ''1-3''] 2 = Some chunks \<and> concat chunks = [''1-1'', ''1-2'', ''1-3''] \<and> length chunks = 2"
  using chunkStringSlice_partition [of 2 "[''1-1'', ''1-2'', ''1-3'']"] by auto

text \<open>Remark. The computation of the capacity overflows for batch sizes near the largest integer, which
  \<open>Load\<close> accepts: with two identifiers pending, a flush panics.\<close>

theorem chunkStringSlice_panics: "chunkStringSlice [a, b] MaxInt = None"
  by (simp add: chunkStringSlice_def clampInt64ToInt_def go_div_def int64_wrap_def Let_def)

section \<open>Spans of stream identifiers\<close>

datatype streamIDParts = StreamIDParts (ms: uint64) (sq: uint64)

text \<open>The comparison handed to \<open>sort.Slice\<close>; it is the strict part of a linear order, so that \<open>sort\<close> of the library is
  the sorting the source asks for.\<close>

definition parts_less :: "streamIDParts \<Rightarrow> streamIDParts \<Rightarrow> bool" where
  "parts_less a b = (if ms a \<noteq> ms b then ms a < ms b else sq a < sq b)"

instantiation streamIDParts :: linorder
begin

definition less_streamIDParts :: "streamIDParts \<Rightarrow> streamIDParts \<Rightarrow> bool" where
  "less_streamIDParts = parts_less"

definition less_eq_streamIDParts :: "streamIDParts \<Rightarrow> streamIDParts \<Rightarrow> bool" where
  "less_eq_streamIDParts a b \<longleftrightarrow> a < b \<or> a = b"

instance
proof
  fix a b c :: streamIDParts
  show "a < b \<longleftrightarrow> a \<le> b \<and> \<not> b \<le> a" "a \<le> a" "a \<le> b \<or> b \<le> a"
    using neq_iff [of "sq a" "sq b"]
    by (auto simp: less_streamIDParts_def parts_less_def less_eq_streamIDParts_def streamIDParts.expand split: if_splits)
  show "a \<le> b \<Longrightarrow> b \<le> c \<Longrightarrow> a \<le> c" "a \<le> b \<Longrightarrow> b \<le> a \<Longrightarrow> a = b"
    by (auto simp: less_streamIDParts_def parts_less_def less_eq_streamIDParts_def streamIDParts.expand split: if_splits)
qed

end

definition parseStreamIDParts :: "string \<Rightarrow> streamIDParts option" where
  "parseStreamIDParts entryID =
     (case Cut entryID ''-'' of
        None \<Rightarrow> None
      | Some (msRaw, seqRaw) \<Rightarrow>
          (case ParseUint64 msRaw of
             None \<Rightarrow> None
           | Some m \<Rightarrow> (case ParseUint64 seqRaw of None \<Rightarrow> None | Some q \<Rightarrow> Some (StreamIDParts m q))))"

definition follows :: "streamIDParts \<Rightarrow> streamIDParts \<Rightarrow> bool" where
  "follows previous current \<longleftrightarrow> ms current = ms previous \<and> sq current = sq previous + 1"

text \<open>The loop over neighbours: number of spans, length of the current one, entries saved so far.\<close>

fun span_loop :: "streamIDParts \<Rightarrow> streamIDParts list \<Rightarrow> int \<Rightarrow> int \<Rightarrow> int \<Rightarrow> int \<times> int" where
  "span_loop previous [] spans currentSpanLength savedEntries =
     (spans, if currentSpanLength > 1 then savedEntries + (currentSpanLength - 1) else savedEntries)"
| "span_loop previous (current # rest) spans currentSpanLength savedEntries =
     (if follows previous current then span_loop current rest spans (currentSpanLength + 1) savedEntries
      else span_loop current rest (spans + 1) 1
             (if currentSpanLength > 1 then savedEntries + (currentSpanLength - 1) else savedEntries))"

definition countContiguousAckSpans :: "string list \<Rightarrow> int \<times> int" where
  "countContiguousAckSpans entryIDs =
     (if entryIDs = [] then (0, 0)
      else (case sort (List.map_filter parseStreamIDParts entryIDs) of
              [] \<Rightarrow> (0, 0)
            | p # rest \<Rightarrow> span_loop p rest 1 1 0))"

text \<open>Reference: a span starts at every identifier that does not directly follow another one.\<close>

definition span_starts :: "streamIDParts set \<Rightarrow> streamIDParts set" where
  "span_starts P = {p \<in> P. \<not> (sq p \<noteq> 0 \<and> StreamIDParts (ms p) (sq p - 1) \<in> P)}"

fun breaks :: "streamIDParts list \<Rightarrow> int" where
  "breaks (p # q # rest) = (if follows p q then 0 else 1) + breaks (q # rest)"
| "breaks _ = 0"

lemma span_loop_result:
  "1 \<le> len \<Longrightarrow> span_loop p rest n len saved = (n + breaks (p # rest), saved + len + int (length rest) - breaks (p # rest) - 1)"
  by (induction p rest n len saved rule: span_loop.induct) auto

lemma follows_pred: "p < q \<Longrightarrow> follows p q \<longleftrightarrow> sq q \<noteq> 0 \<and> p = StreamIDParts (ms q) (sq q - 1)"
  by (cases p; cases q) (auto simp: follows_def less_streamIDParts_def parts_less_def split: if_splits)

lemma pred_less: "sq p \<noteq> 0 \<Longrightarrow> StreamIDParts (ms p) (sq p - 1) < p"
  by (simp add: less_streamIDParts_def parts_less_def word_less_sub1 [simplified] word_le_less_eq) (metis measure_unat unat_mono word_less_nat_alt)

lemma follows_next:
  assumes "follows p r" "p < q" "q \<le> r"
  shows "q = r"
proof -
  have "sq r \<noteq> 0" "p = StreamIDParts (ms r) (sq r - 1)" using assms follows_pred [of p r] by auto
  with assms(2,3) show ?thesis
    by (cases q; cases r) (auto simp: less_streamIDParts_def parts_less_def less_eq_streamIDParts_def word_less_nat_alt unat_minus_one split: if_splits)
qed

lemma span_starts_Cons:
  assumes "sorted_wrt (<) (p # q # rest)"
  shows "span_starts (set (p # q # rest)) = insert p (span_starts (set (q # rest)) - (if follows p q then {q} else {}))"
proof -
  let ?S = "set (q # rest)"
  have below: "p < r" if "r \<in> ?S" for r using that assms by auto
  have first: "q \<le> r" if "r \<in> ?S" for r using that assms by auto
  have p: "p \<in> span_starts (set (p # q # rest))"
  proof -
    have "StreamIDParts (ms p) (sq p - 1) \<noteq> r" if "sq p \<noteq> 0" "r \<in> set (p # q # rest)" for r
      using pred_less [OF that(1)] below [of r] that(2) by auto
    then show ?thesis unfolding span_starts_def by auto
  qed
  have "r \<in> span_starts (set (p # q # rest)) \<longleftrightarrow> r \<in> span_starts ?S \<and> \<not> (follows p q \<and> r = q)" if r: "r \<in> ?S" for r
  proof -
    have "sq r \<noteq> 0 \<and> StreamIDParts (ms r) (sq r - 1) = p \<longleftrightarrow> follows p q \<and> r = q"
      using follows_pred [OF below [OF r]] follows_next [of p r q] below [of q] first [OF r] by auto
    with r show ?thesis unfolding span_starts_def by auto
  qed
  moreover have "span_starts (set (p # q # rest)) \<subseteq> set (p # q # rest)" "span_starts ?S \<subseteq> ?S" by (auto simp: span_starts_def)
  ultimately show ?thesis using p by auto
qed

lemma card_span_starts: "sorted_wrt (<) (p # rest) \<Longrightarrow> int (card (span_starts (set (p # rest)))) = 1 + breaks (p # rest)"
proof (induction rest arbitrary: p)
  case Nil
  have "span_starts {p} = {p}" using pred_less [of p] by (auto simp: span_starts_def)
  then show ?case by simp
next
  case (Cons q rest)
  let ?T = "span_starts (set (q # rest))"
  have fin: "finite ?T" by (rule finite_subset [of _ "set (q # rest)"]) (auto simp: span_starts_def)
  have q: "q \<in> ?T"
  proof -
    have "StreamIDParts (ms q) (sq q - 1) \<noteq> r" if "sq q \<noteq> 0" "r \<in> set (q # rest)" for r
      using pred_less [OF that(1)] that(2) Cons.prems by auto
    then show ?thesis unfolding span_starts_def by auto
  qed
  have p: "p \<notin> ?T" using Cons.prems by (auto simp: span_starts_def)
  have IH: "int (card ?T) = 1 + breaks (q # rest)" using Cons by simp
  show ?case
    unfolding span_starts_Cons [OF Cons.prems]
    using fin p q IH card_gt_0_iff [of ?T] by (cases "follows p q") (auto simp: card_Diff_singleton_if)
qed

lemma sorted_distinct_less: "distinct ps \<Longrightarrow> sorted_wrt (<) (sort (ps :: 'a :: linorder list))"
  by (simp add: strict_sorted_iff)

text \<open>C37. The span statistics are exact: the number of spans counts, among the acknowledged identifiers that
  are well formed, those that do not directly follow another one, and spans and saved entries add up to the
  number of these identifiers.\<close>

theorem countContiguousAckSpans_exact:
  assumes "ps = List.map_filter parseStreamIDParts entryIDs" "countContiguousAckSpans entryIDs = (spans, saved)"
  shows "spans + saved = int (length ps) \<and> 0 \<le> saved \<and> (distinct ps \<longrightarrow> spans = int (card (span_starts (set ps))))"
proof (cases "sort ps")
  case Nil
  then have "ps = []" by (metis length_0_conv length_sort)
  then have "spans = 0" "saved = 0" using assms Nil by (auto simp: countContiguousAckSpans_def split: if_splits)
  with \<open>ps = []\<close> show ?thesis by (simp add: span_starts_def)
next
  case (Cons p rest)
  have len: "int (length ps) = 1 + int (length rest)" by (metis Cons length_Cons length_sort of_nat_Suc add.commute)
  have ne: "entryIDs \<noteq> []" using Cons assms(1) by (auto simp: map_filter_def)
  have r: "spans = 1 + breaks (p # rest)" "saved = int (length rest) - breaks (p # rest)"
    using assms Cons ne span_loop_result [of 1 p rest 1 0] by (auto simp: countContiguousAckSpans_def)
  have "breaks (p # rest) \<le> int (length rest)" for p rest
  proof (induction rest arbitrary: p)
    case (Cons q rest)
    show ?case using Cons.IH [of q] by simp
  qed simp
  moreover have "spans = int (card (span_starts (set ps)))" if "distinct ps"
    using card_span_starts [of p rest] sorted_distinct_less [OF that] Cons r(1) by (metis set_sort)
  ultimately show ?thesis using r len by auto
qed

theorem countContiguousAckSpans_exact_witness:
  "\<exists>spans saved. countContiguousAckSpans [''5-1'', ''5-2'', ''7-0'', ''bad''] = (spans, saved) \<and> spans + saved = 3"
proof -
  obtain a b where c: "countContiguousAckSpans [''5-1'', ''5-2'', ''7-0'', ''bad''] = (a, b)" by fastforce
  have "length (List.map_filter parseStreamIDParts [''5-1'', ''5-2'', ''7-0'', ''bad'']) = 3"
    by (simp add: map_filter_simps parseStreamIDParts_def ParseUint64_def parse_magnitude_def is_digit_def)
  with countContiguousAckSpans_exact [OF refl c] c show ?thesis by simp
qed

end
