(* ===== verification/Dispatcher.thy ===== *)
theory Dispatcher
  imports Ack_Chunks "HOL-Library.Multiset"
begin

text \<open>
  \<open>internal/service/dispatcher.go\<close>: one dispatcher per stream and consumer group.  Its read loop reads the stream
  through the group and offers every event to all subscribers.

  A subscriber's channel is allocated by \<open>subscribe\<close> and lives on after the subscriber was removed, so channels are a
  store indexed by the subscriber's number; \<open>dSubscribers\<close> are the keys of the map \<open>subscribers\<close> in the order of
  one iteration over it.  \<open>chTaken\<close> records what the receiver took from the channel so far; no operation reads it.
  Receivers take events without holding the lock of the dispatcher: what they take while an event is being
  offered is an argument of the fan-out.
\<close>

section \<open>State\<close>

record channel =
  chBuffer :: "Event list"
  chTaken :: "Event list"
  chClosed :: bool

record streamDispatcher =
  dKey :: string
  dStreamName :: string
  dConsumerGroup :: string
  dConsumerName :: string
  dReadCount :: int
  dBlockDuration :: int
  dSubscriberBuffer :: int
  dAckBatchSize :: int
  dAckFlushConcurrency :: int
  dAckFlushInterval :: int
  dAckQueueSize :: int
  dAckQueue :: "string list list"
  dDone :: bool
  dStarted :: bool
  dStopped :: bool
  dSubscribers :: "uint64 list"
  dChans :: "uint64 \<Rightarrow> channel"
  dDropCounts :: "uint64 \<rightharpoonup> int"
  dNextSubID :: uint64

definition dispatcherMaxConsecutiveDrops :: int where "dispatcherMaxConsecutiveDrops = 8"

definition dispatcherBackpressurePause :: int where "dispatcherBackpressurePause = 25"

definition dispatcherKey :: "string \<Rightarrow> string \<Rightarrow> string" where
  "dispatcherKey streamName consumerGroup = streamName @ ''|'' @ consumerGroup"

definition empty_channel :: channel where
  "empty_channel = \<lparr>chBuffer = [], chTaken = [], chClosed = False\<rparr>"

definition newStreamDispatcher :: "Config \<Rightarrow> string \<Rightarrow> string \<Rightarrow> int \<Rightarrow> int \<Rightarrow> streamDispatcher" where
  "newStreamDispatcher c streamName consumerGroup readCount blockMS =
     \<lparr>dKey = dispatcherKey streamName consumerGroup, dStreamName = streamName, dConsumerGroup = consumerGroup,
      dConsumerName = DispatcherConsumerName c, dReadCount = readCount, dBlockDuration = millis blockMS,
      dSubscriberBuffer = DispatcherSubscriberBuffer c, dAckBatchSize = DispatcherAckBatchSize c,
      dAckFlushConcurrency = DispatcherAckFlushConcurrency c, dAckFlushInterval = DispatcherAckFlushInterval c,
      dAckQueueSize = DispatcherAckQueueSize c, dAckQueue = [], dDone = False, dStarted = False, dStopped = False,
      dSubscribers = [], dChans = (\<lambda>_. empty_channel), dDropCounts = Map.empty, dNextSubID = 0\<rparr>"

section \<open>Subscribers\<close>

definition disp_start :: "streamDispatcher \<Rightarrow> streamDispatcher" where
  "disp_start d = (if dStarted d then d else d\<lparr>dStarted := True\<rparr>)"

definition close_chan :: "uint64 \<Rightarrow> streamDispatcher \<Rightarrow> streamDispatcher" where
  "close_chan subID d = d\<lparr>dChans := (dChans d)(subID := (dChans d subID)\<lparr>chClosed := True\<rparr>)\<rparr>"

text \<open>\<open>delete\<close> from both maps and \<open>close\<close> of the channel.\<close>

definition drop_subscriber :: "uint64 \<Rightarrow> streamDispatcher \<Rightarrow> streamDispatcher" where
  "drop_subscriber subID d =
     close_chan subID (d\<lparr>dSubscribers := filter (\<lambda>i. i \<noteq> subID) (dSubscribers d), dDropCounts := (dDropCounts d)(subID := None)\<rparr>)"

definition disp_stop :: "streamDispatcher \<Rightarrow> streamDispatcher" where
  "disp_stop d =
     (if dStopped d then d
      else fold drop_subscriber (dSubscribers d) (d\<lparr>dStopped := True, dDone := True\<rparr>))"

definition subscribe :: "streamDispatcher \<Rightarrow> uint64 \<times> streamDispatcher" where
  "subscribe d =
     (let subID = dNextSubID d + 1
      in (subID, d\<lparr>dNextSubID := subID, dChans := (dChans d)(subID := empty_channel),
                   dSubscribers := (if subID \<in> set (dSubscribers d) then dSubscribers d else dSubscribers d @ [subID]),
                   dDropCounts := (dDropCounts d)(subID \<mapsto> 0)\<rparr>))"

definition subscriberCount :: "streamDispatcher \<Rightarrow> int" where
  "subscriberCount d = int (length (dSubscribers d))"

text \<open>The part of \<open>removeSubscriber\<close> under the lock; the result says whether no subscriber remains.\<close>

definition remove_entry :: "uint64 \<Rightarrow> streamDispatcher \<Rightarrow> bool \<times> streamDispatcher" where
  "remove_entry subID d =
     (let d1 = (if subID \<in> set (dSubscribers d) then drop_subscriber subID d else d)
      in (dSubscribers d1 = [], d1))"

section \<open>Fan-out\<close>

text \<open>The receiver of a channel takes some of its oldest events.\<close>

definition chan_take :: "nat \<Rightarrow> channel \<Rightarrow> channel" where
  "chan_take n ch = ch\<lparr>chBuffer := drop n (chBuffer ch), chTaken := chTaken ch @ take n (chBuffer ch)\<rparr>"

definition receive :: "uint64 \<Rightarrow> nat \<Rightarrow> streamDispatcher \<Rightarrow> streamDispatcher" where
  "receive subID n d = d\<lparr>dChans := (dChans d)(subID := chan_take n (dChans d subID))\<rparr>"

text \<open>One iteration of the inner loop: a send that does not block, or a drop.  The first component collects
  \<open>removeSubscribers\<close>.\<close>

definition drop_count :: "streamDispatcher \<Rightarrow> uint64 \<Rightarrow> int" where
  "drop_count d subID = (case dDropCounts d subID of None \<Rightarrow> 0 | Some n \<Rightarrow> n)"

definition offer :: "Event \<Rightarrow> uint64 \<Rightarrow> uint64 list \<times> streamDispatcher \<Rightarrow> uint64 list \<times> streamDispatcher" where
  "offer event subID rd =
     (case rd of (removeSubscribers, d) \<Rightarrow>
       if int (length (chBuffer (dChans d subID))) < dSubscriberBuffer d
       then (removeSubscribers,
             d\<lparr>dChans := (dChans d)(subID := (dChans d subID)\<lparr>chBuffer := chBuffer (dChans d subID) @ [event]\<rparr>),
               dDropCounts := (dDropCounts d)(subID \<mapsto> 0)\<rparr>)
       else (let d1 = d\<lparr>dDropCounts := (dDropCounts d)(subID \<mapsto> drop_count d subID + 1)\<rparr>
             in (if drop_count d1 subID \<ge> dispatcherMaxConsecutiveDrops then removeSubscribers @ [subID] else removeSubscribers, d1)))"

text \<open>\<open>taken k i\<close> is what the receiver of subscriber \<open>i\<close> takes before the \<open>k\<close>-th event of the batch is offered to it.\<close>

definition offer_all :: "(uint64 \<Rightarrow> nat) \<Rightarrow> Event \<Rightarrow> uint64 list \<times> streamDispatcher \<Rightarrow> uint64 list \<times> streamDispatcher" where
  "offer_all taken event rd =
     fold (\<lambda>subID (rs, d). offer event subID (rs, receive subID (taken subID) d)) (dSubscribers (snd rd)) rd"

fun offer_events ::
  "(nat \<Rightarrow> uint64 \<Rightarrow> nat) \<Rightarrow> nat \<Rightarrow> Event list \<Rightarrow> uint64 list \<times> streamDispatcher \<Rightarrow> uint64 list \<times> streamDispatcher" where
  "offer_events taken k [] rd = rd"
| "offer_events taken k (event # events) rd = offer_events taken (Suc k) events (offer_all (taken k) event rd)"

text \<open>The second loop of \<open>fanOut\<close>: a number can occur several times in the list.\<close>

fun evict :: "uint64 list \<Rightarrow> streamDispatcher \<Rightarrow> 'w sidecar \<Rightarrow> streamDispatcher \<times> 'w sidecar" where
  "evict [] d s = (d, s)"
| "evict (subID # rest) d s =
     (if subID \<in> set (dSubscribers d)
      then evict rest (drop_subscriber subID d) (on_collector IncDispatcherDroppedSubscribers (incrementError s))
      else evict rest d s)"

definition fanOut ::
  "(nat \<Rightarrow> uint64 \<Rightarrow> nat) \<Rightarrow> Event list \<Rightarrow> streamDispatcher \<Rightarrow> 'w sidecar \<Rightarrow> streamDispatcher \<times> 'w sidecar" where
  "fanOut taken events d s =
     (let (removeSubscribers, d1) = offer_events taken 0 events ([], d) in evict removeSubscribers d1 s)"

text \<open>
  The constant \<open>0.9\<close> is the double 8106479329266893 / 2 ^ 53.  The product of two doubles is their exact product rounded to 53
  bits, and rounding commutes with the division by the power of two; the conversion to \<open>int64\<close> truncates.
\<close>

definition backpressure_threshold :: "int \<Rightarrow> int" where
  "backpressure_threshold buffer =
     (let threshold = clampInt64ToInt (go_div (float64 (float64 buffer * 8106479329266893)) (2 ^ 53))
      in if threshold \<le> 0 then 1 else threshold)"

definition subscribersBackpressured :: "streamDispatcher \<Rightarrow> bool" where
  "subscribersBackpressured d \<longleftrightarrow>
     (\<exists>subID\<in>set (dSubscribers d). int (length (chBuffer (dChans d subID))) \<ge> backpressure_threshold (dSubscriberBuffer d))"

section \<open>What one subscriber sees\<close>

text \<open>
  The fan-out as seen by a single subscriber: its channel, its count of consecutive drops, and whether it is marked for
  removal.  The order in which the map of subscribers is iterated does not occur here.
\<close>

type_synonym sub_view = "channel \<times> int \<times> bool"

fun offer_one :: "int \<Rightarrow> nat \<Rightarrow> Event \<Rightarrow> sub_view \<Rightarrow> sub_view" where
  "offer_one cap n event (ch, drops, marked) =
     (let ch1 = chan_take n ch
      in if int (length (chBuffer ch1)) < cap then (ch1\<lparr>chBuffer := chBuffer ch1 @ [event]\<rparr>, 0, marked)
         else (ch1, drops + 1, marked \<or> drops + 1 \<ge> dispatcherMaxConsecutiveDrops))"

fun offer_stream :: "int \<Rightarrow> (nat \<Rightarrow> nat) \<Rightarrow> nat \<Rightarrow> Event list \<Rightarrow> sub_view \<Rightarrow> sub_view" where
  "offer_stream cap taken k [] v = v"
| "offer_stream cap taken k (event # events) v = offer_stream cap taken (Suc k) events (offer_one cap (taken k) event v)"

definition view :: "uint64 list \<times> streamDispatcher \<Rightarrow> uint64 \<Rightarrow> sub_view" where
  "view rd i = (dChans (snd rd) i, drop_count (snd rd) i, i \<in> set (fst rd))"

text \<open>Offering changes channels and drop counts only.\<close>

definition offer_frame :: "streamDispatcher \<Rightarrow> streamDispatcher \<Rightarrow> bool" where
  "offer_frame d d' \<longleftrightarrow> d' = d\<lparr>dChans := dChans d', dDropCounts := dDropCounts d'\<rparr>"

lemma offer_frameD:
  assumes "offer_frame d d'"
  shows "dSubscribers d' = dSubscribers d" "dSubscriberBuffer d' = dSubscriberBuffer d" "dStopped d' = dStopped d"
    "dDone d' = dDone d" "dKey d' = dKey d" "dNextSubID d' = dNextSubID d" "dAckQueue d' = dAckQueue d" "dStarted d' = dStarted d"
  using assms by (cases d; cases d'; simp add: offer_frame_def)+

lemma offer_frame_trans: "offer_frame a b \<Longrightarrow> offer_frame b c \<Longrightarrow> offer_frame a c"
  by (cases a; cases b; cases c) (simp add: offer_frame_def)

lemma offer_frame_refl [simp]: "offer_frame d d"
  by (simp add: offer_frame_def)

lemma offer_step:
  assumes "offer event j (rs, receive j n d) = rd'"
  shows "view rd' i = (if i = j then offer_one (dSubscriberBuffer d) n event (view (rs, d) i) else view (rs, d) i)"
    "offer_frame d (snd rd')" "dom (dDropCounts (snd rd')) = insert j (dom (dDropCounts d))" "set (fst rd') \<subseteq> insert j (set rs)"
  unfolding assms [symmetric]
  by (auto simp: offer_def receive_def view_def offer_frame_def drop_count_def Let_def)

abbreviation offer_next :: "(uint64 \<Rightarrow> nat) \<Rightarrow> Event \<Rightarrow> uint64 \<Rightarrow> uint64 list \<times> streamDispatcher \<Rightarrow> uint64 list \<times> streamDispatcher" where
  "offer_next taken event \<equiv> \<lambda>subID (rs, d). offer event subID (rs, receive subID (taken subID) d)"

lemma offer_fold:
  assumes "distinct xs"
  shows "view (fold (offer_next taken event) xs rd) i =
      (if i \<in> set xs then offer_one (dSubscriberBuffer (snd rd)) (taken i) event (view rd i) else view rd i)
    \<and> offer_frame (snd rd) (snd (fold (offer_next taken event) xs rd))
    \<and> dom (dDropCounts (snd (fold (offer_next taken event) xs rd))) = set xs \<union> dom (dDropCounts (snd rd))
    \<and> set (fst (fold (offer_next taken event) xs rd)) \<subseteq> set xs \<union> set (fst rd)"
  using assms
proof (induction xs arbitrary: rd)
  case (Cons j xs)
  obtain rs d where rd: "rd = (rs, d)" by fastforce
  define rd1 where "rd1 = offer event j (rs, receive j (taken j) d)"
  note st = offer_step [OF rd1_def [symmetric]]
  have IH: "view (fold (offer_next taken event) xs rd1) i =
        (if i \<in> set xs then offer_one (dSubscriberBuffer (snd rd1)) (taken i) event (view rd1 i) else view rd1 i)"
      "offer_frame (snd rd1) (snd (fold (offer_next taken event) xs rd1))"
      "dom (dDropCounts (snd (fold (offer_next taken event) xs rd1))) = set xs \<union> dom (dDropCounts (snd rd1))"
      "set (fst (fold (offer_next taken event) xs rd1)) \<subseteq> set xs \<union> set (fst rd1)"
    using Cons.IH [of rd1] Cons.prems by auto
  have f: "fold (offer_next taken event) (j # xs) rd = fold (offer_next taken event) xs rd1" by (simp add: rd rd1_def)
  show ?case
    unfolding f using IH st offer_frame_trans [OF st(2) IH(2)] offer_frameD(2) [OF st(2)] Cons.prems by (auto simp: rd)
qed simp

lemma offer_events_views:
  assumes "distinct (dSubscribers (snd rd))"
  shows "view (offer_events taken k events rd) i =
      (if i \<in> set (dSubscribers (snd rd)) then offer_stream (dSubscriberBuffer (snd rd)) (\<lambda>k. taken k i) k events (view rd i) else view rd i)
    \<and> offer_frame (snd rd) (snd (offer_events taken k events rd))
    \<and> dom (dDropCounts (snd (offer_events taken k events rd))) \<subseteq> set (dSubscribers (snd rd)) \<union> dom (dDropCounts (snd rd))
    \<and> dom (dDropCounts (snd rd)) \<subseteq> dom (dDropCounts (snd (offer_events taken k events rd)))
    \<and> set (fst (offer_events taken k events rd)) \<subseteq> set (dSubscribers (snd rd)) \<union> set (fst rd)"
  using assms
proof (induction taken k events rd rule: offer_events.induct)
  case (2 taken k event events rd)
  define rd1 where "rd1 = offer_all (taken k) event rd"
  note st = offer_fold [OF "2.prems", where taken = "taken k" and event = event and rd = rd and i = i, folded offer_all_def [of "taken k" event rd], folded rd1_def]
  have fr: "offer_frame (snd rd) (snd rd1)" using st by blast
  note D = offer_frameD [OF fr]
  have "distinct (dSubscribers (snd rd1))" using "2.prems" D(1) by simp
  note IH = "2.IH" [folded rd1_def, OF this, unfolded D]
  show ?case
    unfolding offer_events.simps rd1_def [symmetric]
    using IH st offer_frame_trans [OF fr, of "snd (offer_events taken (Suc k) events rd1)"] by auto
qed simp

abbreviation seen :: "channel \<Rightarrow> Event list" where
  "seen ch \<equiv> chTaken ch @ chBuffer ch"

lemma chan_take_simps [simp]: "seen (chan_take n ch) = seen ch" "chClosed (chan_take n ch) = chClosed ch"
  by (simp_all add: chan_take_def)

lemma chan_take_length [simp]: "length (chBuffer (chan_take n ch)) \<le> length (chBuffer ch)"
  by (simp add: chan_take_def)

lemma offer_one_cases:
  assumes "offer_one cap n event (ch, drops, marked) = (ch', drops', marked')"
  obtains
    (sent) "seen ch' = seen ch @ [event]" "int (length (chBuffer ch')) \<le> cap" "length (chBuffer ch') \<le> Suc (length (chBuffer ch))"
      "drops' = 0" "marked' = marked" "chClosed ch' = chClosed ch"
  | (dropped) "seen ch' = seen ch" "cap \<le> int (length (chBuffer ch))" "length (chBuffer ch') \<le> length (chBuffer ch)"
      "drops' = drops + 1" "marked' \<longleftrightarrow> marked \<or> drops' \<ge> dispatcherMaxConsecutiveDrops" "chClosed ch' = chClosed ch"
proof (cases "int (length (chBuffer (chan_take n ch))) < cap")
  case True
  then have "ch' = (chan_take n ch)\<lparr>chBuffer := chBuffer (chan_take n ch) @ [event]\<rparr>" "drops' = 0" "marked' = marked"
    using assms by (simp_all add: Let_def)
  with True show thesis by (intro sent) (simp_all add: chan_take_def)
next
  case False
  then have "ch' = chan_take n ch" "drops' = drops + 1" "marked' \<longleftrightarrow> marked \<or> drops + 1 \<ge> dispatcherMaxConsecutiveDrops"
    using assms by (auto simp: Let_def)
  with False show thesis
    using chan_take_length [of n ch] by (intro dropped) (simp_all add: chan_take_def)
qed

lemma offer_stream_order:
  "offer_stream cap taken k events (ch, drops, marked) = (ch', drops', marked') \<Longrightarrow>
   \<exists>sent. subseq sent events \<and> seen ch' = seen ch @ sent \<and>
     (marked' \<and> \<not> marked \<longrightarrow> int (length sent) + dispatcherMaxConsecutiveDrops \<le> int (length events) + max 0 drops) \<and>
     (int (length (chBuffer ch)) + int (length events) \<le> cap \<longrightarrow> sent = events \<and> marked' = marked)"
proof (induction events arbitrary: k ch drops marked)
  case (Cons event events)
  obtain ch1 drops1 marked1 where o: "offer_one cap (taken k) event (ch, drops, marked) = (ch1, drops1, marked1)"
    by (metis prod_cases3)
  with Cons.prems have "offer_stream cap taken (Suc k) events (ch1, drops1, marked1) = (ch', drops', marked')" by simp
  from Cons.IH [OF this] obtain sent where IH: "subseq sent events" "seen ch' = seen ch1 @ sent"
      "marked' \<and> \<not> marked1 \<longrightarrow> int (length sent) + dispatcherMaxConsecutiveDrops \<le> int (length events) + max 0 drops1"
      "int (length (chBuffer ch1)) + int (length events) \<le> cap \<longrightarrow> sent = events \<and> marked' = marked1"
    by blast
  have len: "length sent \<le> length events" using IH(1) by (rule list_emb_length)
  from o show ?case
  proof (cases rule: offer_one_cases)
    case sent
    show ?thesis by (intro exI [of _ "event # sent"]) (use IH sent in auto)
  next
    case dropped
    show ?thesis by (intro exI [of _ sent]) (use IH dropped len in auto)
  qed
qed auto

lemma offer_stream_bounds:
  "offer_stream cap taken k events (ch, drops, marked) = (ch', drops', marked') \<Longrightarrow>
   int (length (chBuffer ch)) \<le> max 0 cap \<Longrightarrow> 0 \<le> drops \<Longrightarrow> (\<not> marked \<longrightarrow> drops < dispatcherMaxConsecutiveDrops) \<Longrightarrow>
   int (length (chBuffer ch')) \<le> max 0 cap \<and> 0 \<le> drops' \<and> (\<not> marked' \<longrightarrow> drops' < dispatcherMaxConsecutiveDrops) \<and>
   chClosed ch' = chClosed ch \<and> (marked \<longrightarrow> marked')"
proof (induction events arbitrary: k ch drops marked)
  case (Cons event events)
  obtain ch1 drops1 marked1 where o: "offer_one cap (taken k) event (ch, drops, marked) = (ch1, drops1, marked1)"
    by (metis prod_cases3)
  with Cons.prems(1) have r: "offer_stream cap taken (Suc k) events (ch1, drops1, marked1) = (ch', drops', marked')" by simp
  from o show ?case
  proof (cases rule: offer_one_cases)
    case sent
    show ?thesis using Cons.IH [OF r] Cons.prems sent by (simp add: dispatcherMaxConsecutiveDrops_def)
  next
    case dropped
    show ?thesis using Cons.IH [OF r] Cons.prems dropped by (auto simp: not_le)
  qed
qed simp

section \<open>Invariant of the subscriptions\<close>

definition disp_inv :: "streamDispatcher \<Rightarrow> bool" where
  "disp_inv d \<longleftrightarrow> distinct (dSubscribers d) \<and> dom (dDropCounts d) = set (dSubscribers d) \<and>
     (\<forall>i\<in>set (dSubscribers d). \<not> chClosed (dChans d i) \<and> int (length (chBuffer (dChans d i))) \<le> max 0 (dSubscriberBuffer d) \<and>
        0 \<le> drop_count d i \<and> drop_count d i < dispatcherMaxConsecutiveDrops) \<and>
     (dStopped d \<longleftrightarrow> dDone d)"

lemma disp_invD:
  assumes "disp_inv d"
  shows "distinct (dSubscribers d)" "dom (dDropCounts d) = set (dSubscribers d)" "dStopped d = dDone d"
    "i \<in> set (dSubscribers d) \<Longrightarrow> \<not> chClosed (dChans d i)"
    "i \<in> set (dSubscribers d) \<Longrightarrow> int (length (chBuffer (dChans d i))) \<le> max 0 (dSubscriberBuffer d)"
    "i \<in> set (dSubscribers d) \<Longrightarrow> 0 \<le> drop_count d i" "i \<in> set (dSubscribers d) \<Longrightarrow> drop_count d i < dispatcherMaxConsecutiveDrops"
  using assms unfolding disp_inv_def by blast+

lemma drop_subscriber_simps [simp]:
  "dSubscribers (drop_subscriber i d) = filter (\<lambda>j. j \<noteq> i) (dSubscribers d)"
  "dDropCounts (drop_subscriber i d) = (dDropCounts d)(i := None)"
  "dChans (drop_subscriber i d) = (dChans d)(i := (dChans d i)\<lparr>chClosed := True\<rparr>)"
  "dSubscriberBuffer (drop_subscriber i d) = dSubscriberBuffer d" "dStopped (drop_subscriber i d) = dStopped d"
  "dDone (drop_subscriber i d) = dDone d" "dKey (drop_subscriber i d) = dKey d" "dNextSubID (drop_subscriber i d) = dNextSubID d"
  "dAckQueue (drop_subscriber i d) = dAckQueue d" "dStarted (drop_subscriber i d) = dStarted d"
  by (simp_all add: drop_subscriber_def close_chan_def)

lemma drop_count_drop [simp]: "j \<noteq> i \<Longrightarrow> drop_count (drop_subscriber i d) j = drop_count d j"
  by (simp add: drop_count_def)

lemma drop_subscriber_inv: "disp_inv d \<Longrightarrow> disp_inv (drop_subscriber i d)"
  by (auto simp: disp_inv_def)

lemma evict_result:
  fixes d' :: streamDispatcher
  assumes "evict rs d s = (d', s')"
  shows "dSubscribers d' = filter (\<lambda>i. i \<notin> set rs) (dSubscribers d)"
    "dDropCounts d' = dDropCounts d |` (- (set rs \<inter> set (dSubscribers d)))"
    "dChans d' = (\<lambda>i. if i \<in> set rs \<inter> set (dSubscribers d) then (dChans d i)\<lparr>chClosed := True\<rparr> else dChans d i)"
    "dSubscriberBuffer d' = dSubscriberBuffer d" "dStopped d' = dStopped d" "dDone d' = dDone d"
    "dKey d' = dKey d" "dNextSubID d' = dNextSubID d"
    "distinct (dSubscribers d) \<Longrightarrow>
       collector s' = ((IncDispatcherDroppedSubscribers \<circ> IncError) ^^ card (set rs \<inter> set (dSubscribers d))) (collector s)"
    "world s' = world s"
proof -
  show "dSubscribers d' = filter (\<lambda>i. i \<notin> set rs) (dSubscribers d)"
    using assms by (induction rs d s rule: evict.induct) (auto intro: filter_cong split: if_splits)
  show "dDropCounts d' = dDropCounts d |` (- (set rs \<inter> set (dSubscribers d)))"
    using assms by (induction rs d s rule: evict.induct) (auto simp: restrict_map_def fun_eq_iff split: if_splits)
  show "dChans d' = (\<lambda>i. if i \<in> set rs \<inter> set (dSubscribers d) then (dChans d i)\<lparr>chClosed := True\<rparr> else dChans d i)"
    using assms by (induction rs d s rule: evict.induct) (auto simp: fun_eq_iff split: if_splits)
  show "dSubscriberBuffer d' = dSubscriberBuffer d" "dStopped d' = dStopped d" "dDone d' = dDone d" "dKey d' = dKey d"
    "dNextSubID d' = dNextSubID d" "world s' = world s"
    using assms by (induction rs d s rule: evict.induct) (auto split: if_splits)
  show "collector s' = ((IncDispatcherDroppedSubscribers \<circ> IncError) ^^ card (set rs \<inter> set (dSubscribers d))) (collector s)"
    if "distinct (dSubscribers d)"
    using assms that
  proof (induction rs d s rule: evict.induct)
    case (2 i rest d s)
    show ?case
    proof (cases "i \<in> set (dSubscribers d)")
      case True
      have "insert i (set rest \<inter> set (dSubscribers d)) = insert i (set rest \<inter> {j \<in> set (dSubscribers d). j \<noteq> i})" by auto
      then have card: "card (insert i (set rest \<inter> set (dSubscribers d))) = Suc (card (set rest \<inter> {j \<in> set (dSubscribers d). j \<noteq> i}))" by simp
      show ?thesis using 2 True funpow_swap1 [of "\<lambda>c. IncDispatcherDroppedSubscribers (IncError c)" _ "collector s"] by (simp add: card comp_def)
    next
      case False
      then have "insert i (set rest) \<inter> set (dSubscribers d) = set rest \<inter> set (dSubscribers d)" by auto
      with 2 False show ?thesis by simp
    qed
  qed simp
qed

lemma fanOut_result:
  assumes "disp_inv d" "fanOut taken events d s = (d', s')"
  obtains rs d1 where "evict rs d1 s = (d', s')" "offer_frame d d1" "set rs \<subseteq> set (dSubscribers d)"
    "dom (dDropCounts d1) = set (dSubscribers d)"
    "\<And>i. i \<in> set (dSubscribers d) \<Longrightarrow>
       offer_stream (dSubscriberBuffer d) (\<lambda>k. taken k i) 0 events (dChans d i, drop_count d i, False) = (dChans d1 i, drop_count d1 i, i \<in> set rs)"
    "\<And>i. i \<notin> set (dSubscribers d) \<Longrightarrow> dChans d1 i = dChans d i"
proof -
  obtain rs d1 where o: "offer_events taken 0 events ([], d) = (rs, d1)" by fastforce
  have "distinct (dSubscribers (snd ([] :: uint64 list, d)))" using disp_invD(1) [OF assms(1)] by simp
  note v = offer_events_views [OF this, of taken 0 events, unfolded o]
  show thesis
  proof (rule that [of rs d1])
    show "evict rs d1 s = (d', s')" using assms(2) o by (simp add: fanOut_def)
    show "offer_frame d d1" "set rs \<subseteq> set (dSubscribers d)" using v [of 0] by simp_all
    show "dom (dDropCounts d1) = set (dSubscribers d)" using v [of 0] disp_invD(2) [OF assms(1)] by (intro equalityI) simp_all
    show "offer_stream (dSubscriberBuffer d) (\<lambda>k. taken k i) 0 events (dChans d i, drop_count d i, False) = (dChans d1 i, drop_count d1 i, i \<in> set rs)"
      if "i \<in> set (dSubscribers d)" for i using v [of i] that by (simp add: view_def)
    show "dChans d1 i = dChans d i" if "i \<notin> set (dSubscribers d)" for i using v [of i] that by (simp add: view_def)
  qed
qed

lemma fanOut_inv:
  assumes "disp_inv d" "fanOut taken events d s = (d', s')"
  shows "disp_inv d'"
proof -
  from fanOut_result [OF assms] obtain rs d1 where e: "evict rs d1 s = (d', s')" and f: "offer_frame d d1"
    and dom: "dom (dDropCounts d1) = set (dSubscribers d)"
    and v: "\<And>i. i \<in> set (dSubscribers d) \<Longrightarrow>
      offer_stream (dSubscriberBuffer d) (\<lambda>k. taken k i) 0 events (dChans d i, drop_count d i, False) = (dChans d1 i, drop_count d1 i, i \<in> set rs)"
    by metis
  note E = evict_result [OF e] and F = offer_frameD [OF f] and I = disp_invD [OF assms(1)]
  have sub: "\<not> chClosed (dChans d' i) \<and> int (length (chBuffer (dChans d' i))) \<le> max 0 (dSubscriberBuffer d') \<and>
      0 \<le> drop_count d' i \<and> drop_count d' i < dispatcherMaxConsecutiveDrops" if "i \<in> set (dSubscribers d')" for i
  proof -
    have i: "i \<in> set (dSubscribers d)" "i \<notin> set rs" using that E(1) F(1) by auto
    have "drop_count d' i = drop_count d1 i" using i by (simp add: drop_count_def E(2) restrict_map_def)
    with offer_stream_bounds [OF v [OF i(1)] I(5) [OF i(1)] I(6) [OF i(1)]] I(4,7) [OF i(1)] i E(3,4) F(2) show ?thesis by simp
  qed
  have "dom (dDropCounts d') = set (dSubscribers d')" using dom by (auto simp: E(1,2) F(1))
  moreover have "distinct (dSubscribers d')" using I(1) by (simp add: E(1) F(1))
  moreover have "dStopped d' = dDone d'" using I(3) by (simp add: E(5,6) F(3,4))
  ultimately show ?thesis using sub unfolding disp_inv_def by blast
qed

lemma fanOut_sub:
  assumes "disp_inv d" "fanOut taken events d s = (d', s')" "i \<in> set (dSubscribers d)"
  obtains sent where "subseq sent events" "seen (dChans d' i) = seen (dChans d i) @ sent"
    "chClosed (dChans d' i) \<longleftrightarrow> i \<notin> set (dSubscribers d')"
    "int (length (chBuffer (dChans d i))) + int (length events) \<le> dSubscriberBuffer d \<Longrightarrow> sent = events \<and> i \<in> set (dSubscribers d')"
    "i \<notin> set (dSubscribers d') \<Longrightarrow> int (length events) - int (length sent) + drop_count d i \<ge> dispatcherMaxConsecutiveDrops"
proof -
  from fanOut_result [OF assms(1,2)] obtain rs d1 where e: "evict rs d1 s = (d', s')" and f: "offer_frame d d1"
    and v: "\<And>i. i \<in> set (dSubscribers d) \<Longrightarrow>
      offer_stream (dSubscriberBuffer d) (\<lambda>k. taken k i) 0 events (dChans d i, drop_count d i, False) = (dChans d1 i, drop_count d1 i, i \<in> set rs)"
    by metis
  note E = evict_result [OF e] and F = offer_frameD [OF f] and I = disp_invD [OF assms(1)] and i = assms(3)
  have gone: "i \<notin> set (dSubscribers d') \<longleftrightarrow> i \<in> set rs" using i by (simp add: E(1) F(1))
  have open1: "\<not> chClosed (dChans d1 i)"
    using offer_stream_bounds [OF v [OF i] I(5) [OF i] I(6) [OF i]] I(4,7) [OF i] by simp
  from offer_stream_order [OF v [OF i]] I(6) [OF i] obtain sent where
    "subseq sent events" "seen (dChans d1 i) = seen (dChans d i) @ sent"
    "i \<in> set rs \<longrightarrow> int (length sent) + dispatcherMaxConsecutiveDrops \<le> int (length events) + drop_count d i"
    "int (length (chBuffer (dChans d i))) + int (length events) \<le> dSubscriberBuffer d \<longrightarrow> sent = events \<and> i \<notin> set rs"
    by auto
  then show thesis using gone open1 i by (intro that [of sent]) (auto simp: E(3) F(1))
qed

lemma fanOut_others:
  assumes "disp_inv d" "fanOut taken events d s = (d', s')"
  shows "set (dSubscribers d') \<subseteq> set (dSubscribers d)" "i \<notin> set (dSubscribers d) \<Longrightarrow> dChans d' i = dChans d i"
proof -
  from fanOut_result [OF assms] obtain rs d1 where e: "evict rs d1 s = (d', s')" and f: "offer_frame d d1"
    and other: "\<And>i. i \<notin> set (dSubscribers d) \<Longrightarrow> dChans d1 i = dChans d i"
    by metis
  note E = evict_result [OF e] and F = offer_frameD [OF f]
  show "set (dSubscribers d') \<subseteq> set (dSubscribers d)" by (auto simp: E(1) F(1))
  show "i \<notin> set (dSubscribers d) \<Longrightarrow> dChans d' i = dChans d i" by (simp add: E(3) F(1) other)
qed

text \<open>C19. Fan-out: whatever the receivers take meanwhile, every subscriber gets a subsequence of the batch, in
  order, after what it had before, and nobody else's channel changes.  A subscriber with room for the whole batch gets
  all of it and stays; a subscriber that does not stay has missed at least eight events counting its
  earlier consecutive drops, and its channel is closed with what it had received still readable.\<close>

theorem fanOut_delivers:
  assumes "disp_inv d" "fanOut taken events d s = (d', s')"
  shows "disp_inv d' \<and> set (dSubscribers d') \<subseteq> set (dSubscribers d) \<and>
    (\<forall>i. i \<notin> set (dSubscribers d) \<longrightarrow> dChans d' i = dChans d i) \<and>
    (\<forall>i\<in>set (dSubscribers d). \<exists>sent. subseq sent events \<and> seen (dChans d' i) = seen (dChans d i) @ sent \<and>
      (chClosed (dChans d' i) \<longleftrightarrow> i \<notin> set (dSubscribers d')) \<and>
      (int (length (chBuffer (dChans d i))) + int (length events) \<le> dSubscriberBuffer d \<longrightarrow>
         sent = events \<and> i \<in> set (dSubscribers d')) \<and>
      (i \<notin> set (dSubscribers d') \<longrightarrow> int (length events) - int (length sent) + drop_count d i \<ge> dispatcherMaxConsecutiveDrops))"
proof (intro conjI allI ballI impI)
  show "disp_inv d'" by (rule fanOut_inv [OF assms])
  show "set (dSubscribers d') \<subseteq> set (dSubscribers d)" by (rule fanOut_others(1) [OF assms])
  show "dChans d' i = dChans d i" if "i \<notin> set (dSubscribers d)" for i by (rule fanOut_others(2) [OF assms that])
qed (rule fanOut_sub [OF assms], assumption, blast)

definition sample_event :: "string \<Rightarrow> Event" where
  "sample_event i = \<lparr>evStream = ''s'', evEntryId = i, evEventType = ''t'', evSender = ''x'', evPayload = ''{}'', evTimestamp = ''t0''\<rparr>"

definition sample_dispatcher :: streamDispatcher where
  "sample_dispatcher = snd (subscribe (disp_start (newStreamDispatcher sample_cfg ''s'' ''g'' 64 1000)))"

lemma sample_dispatcher_simps:
  "dSubscribers sample_dispatcher = [1]" "dChans sample_dispatcher = (\<lambda>_. empty_channel)" "dSubscriberBuffer sample_dispatcher = 100"
  "dDropCounts sample_dispatcher = [1 \<mapsto> 0]"
  by (simp_all add: sample_dispatcher_def subscribe_def disp_start_def newStreamDispatcher_def sample_cfg_def Let_def fun_eq_iff)

lemma sample_dispatcher_inv: "disp_inv sample_dispatcher"
  by (simp add: disp_inv_def sample_dispatcher_def subscribe_def disp_start_def newStreamDispatcher_def sample_cfg_def Let_def
      empty_channel_def drop_count_def dispatcherMaxConsecutiveDrops_def)

theorem fanOut_delivers_witness:
  "\<exists>d' s'. fanOut (\<lambda>_ _. 0) [sample_event ''1-0'', sample_event ''2-0''] sample_dispatcher (sample_sidecar False) = (d', s') \<and>
     seen (dChans d' 1) = [sample_event ''1-0'', sample_event ''2-0''] \<and> 1 \<in> set (dSubscribers d')"
proof -
  obtain d' s' where f: "fanOut (\<lambda>_ _. 0) [sample_event ''1-0'', sample_event ''2-0''] sample_dispatcher (sample_sidecar False) = (d', s')" by fastforce
  from fanOut_delivers [OF sample_dispatcher_inv f] f show ?thesis
    by (auto simp: sample_dispatcher_simps empty_channel_def)
qed

section \<open>The read loop\<close>

definition time_now :: "'w sidecar \<Rightarrow> int \<times> 'w sidecar" where
  "time_now s = (let (t, w) = Clock (redis s) (world s) in (t, s\<lparr>world := w\<rparr>))"

definition time_since :: "int \<Rightarrow> 'w sidecar \<Rightarrow> int \<times> 'w sidecar" where
  "time_since start s = (let (t, s1) = time_now s in (int64_wrap (t - start), s1))"

abbreviation observeDispatcherReadDuration :: "int \<Rightarrow> 'w sidecar \<Rightarrow> 'w sidecar" where
  "observeDispatcherReadDuration t s \<equiv> on_collector (ObserveDispatcherReadDuration (promClient s) t) s"
abbreviation observeDispatcherFanOutDuration :: "int \<Rightarrow> 'w sidecar \<Rightarrow> 'w sidecar" where
  "observeDispatcherFanOutDuration t s \<equiv> on_collector (ObserveDispatcherFanOutDuration (promClient s) t) s"

text \<open>\<open>redisMessageToProtoEvent\<close> asks for the time only when the entry has no timestamp.\<close>

definition message_to_event :: "string \<Rightarrow> XMessage \<Rightarrow> 'w sidecar \<Rightarrow> Event \<times> 'w sidecar" where
  "message_to_event streamName message s =
     (if toString (normalizeRedisValue (field_value (msgValues message) ''timestamp'')) = ''''
      then (let (now, w) = Now (redis s) (world s) in (redisMessageToProtoEvent now streamName message, s\<lparr>world := w\<rparr>))
      else (redisMessageToProtoEvent '''' streamName message, s))"

fun messages_to_events :: "(string \<times> XMessage) list \<Rightarrow> 'w sidecar \<Rightarrow> Event list \<times> 'w sidecar" where
  "messages_to_events [] s = ([], s)"
| "messages_to_events ((streamName, message) # rest) s =
     (let (event, s1) = message_to_event streamName message s;
          (events, s2) = messages_to_events rest s1
      in (event # events, s2))"

definition flat_messages :: "(string \<times> XMessage list) list \<Rightarrow> (string \<times> XMessage) list" where
  "flat_messages streams = concat (map (\<lambda>(streamName, msgs). map (Pair streamName) msgs) streams)"

definition dispatcherCtx :: ctx where "dispatcherCtx = WithCancel BackgroundCtx"

definition dispatcher_read_args :: "streamDispatcher \<Rightarrow> XReadGroupArgs" where
  "dispatcher_read_args d = \<lparr>xrGroup = dConsumerGroup d, xrConsumer = dConsumerName d, xrStreams = [dStreamName d, ''>''],
     xrCount = dReadCount d, xrBlock = dBlockDuration d\<rparr>"

text \<open>The timed read.\<close>

definition read_stream :: "streamDispatcher \<Rightarrow> 'w sidecar \<Rightarrow> (string \<times> XMessage list) list go_result \<times> 'w sidecar" where
  "read_stream d s =
     (let (readStart, s1) = time_now s;
          (r, w) = XReadGroup (redis s1) dispatcherCtx (dispatcher_read_args d) (world s1);
          (t, s2) = time_since readStart (s1\<lparr>world := w\<rparr>)
      in (r, observeDispatcherReadDuration t s2))"

text \<open>How an iteration of the loop up to the fan-out ends: return, go on at once, go on after a pause in
  milliseconds, or deliver a batch.  \<open>cancelled\<close> says whether the context ended during the read.\<close>

datatype read_next = Return | Continue | Pause int | Deliver "Event list"

definition read_top :: "bool \<Rightarrow> streamDispatcher \<Rightarrow> 'w sidecar \<Rightarrow> read_next \<times> 'w sidecar" where
  "read_top cancelled d s =
     (if dDone d then (Return, s)
      else if subscriberCount d = 0 then (Pause 100, s)
      else if subscribersBackpressured d then (Pause dispatcherBackpressurePause, s)
      else case ensureConsumerGroup dispatcherCtx (dStreamName d) (dConsumerGroup d) s of
        (Some err, s1) \<Rightarrow> (Pause 250, incrementError s1)
      | (None, s1) \<Rightarrow>
          (case read_stream d s1 of
             (Inl err, s2) \<Rightarrow>
               if err = RedisNil then (Continue, s2)
               else if cancelled then (Return, s2)
               else (Pause 200, if isNoGroupError (Some err)
                                then forgetEnsuredConsumerGroup (dStreamName d) (dConsumerGroup d) (incrementError s2)
                                else incrementError s2)
           | (Inr streams, s2) \<Rightarrow>
               (let (events, s3) = messages_to_events (flat_messages streams) s2
                in if events = [] then (Continue, s3)
                   else (Deliver events, incrementReadEvents (word_of_nat (length events)) s3))))"

definition read_deliver ::
  "(nat \<Rightarrow> uint64 \<Rightarrow> nat) \<Rightarrow> Event list \<Rightarrow> streamDispatcher \<Rightarrow> 'w sidecar \<Rightarrow> streamDispatcher \<times> 'w sidecar" where
  "read_deliver taken events d s =
     (let (fanOutStart, s1) = time_now s;
          (d1, s2) = fanOut taken events d s1;
          (t, s3) = time_since fanOutStart s2
      in (d1, observeDispatcherFanOutDuration t s3))"

text \<open>The dispatcher with its read loop, its subscribers coming and going, and the receivers.\<close>

datatype read_pc = AtTop | Delivering "Event list" | Returned

record 'w dispatch =
  dsDisp :: streamDispatcher
  dsPc :: read_pc
  dsSide :: "'w sidecar"

fun next_pc :: "read_next \<Rightarrow> read_pc" where
  "next_pc Return = Returned"
| "next_pc Continue = AtTop"
| "next_pc (Pause pause) = AtTop"
| "next_pc (Deliver events) = Delivering events"

inductive disp_step :: "'w dispatch \<Rightarrow> 'w dispatch \<Rightarrow> bool" where
  step_read: "dsPc x = AtTop \<Longrightarrow> read_top cancelled (dsDisp x) (dsSide x) = (n, s') \<Longrightarrow>
    disp_step x (x\<lparr>dsPc := next_pc n, dsSide := s'\<rparr>)"
| step_deliver: "dsPc x = Delivering events \<Longrightarrow> read_deliver taken events (dsDisp x) (dsSide x) = (d', s') \<Longrightarrow>
    disp_step x (x\<lparr>dsPc := AtTop, dsDisp := d', dsSide := s'\<rparr>)"
| step_subscribe: "disp_step x (x\<lparr>dsDisp := snd (subscribe (dsDisp x))\<rparr>)"
| step_remove: "remove_entry i (dsDisp x) = (none, d') \<Longrightarrow> disp_step x (x\<lparr>dsDisp := if none then disp_stop d' else d'\<rparr>)"
| step_stop: "disp_step x (x\<lparr>dsDisp := disp_stop (dsDisp x)\<rparr>)"
| step_receive: "disp_step x (x\<lparr>dsDisp := receive i n (dsDisp x)\<rparr>)"
| step_others: "disp_step x (x\<lparr>dsSide := (dsSide x)\<lparr>world := w, collector := c\<rparr>\<rparr>)"

inductive_cases disp_stepE: "disp_step x y"

text \<open>No operation changes what the constructor set up.\<close>

definition settings :: "streamDispatcher \<Rightarrow> (string \<times> string \<times> string \<times> string) \<times> (int \<times> int \<times> int \<times> int \<times> int \<times> int \<times> int)" where
  "settings d = ((dKey d, dStreamName d, dConsumerGroup d, dConsumerName d),
     (dReadCount d, dBlockDuration d, dSubscriberBuffer d, dAckBatchSize d, dAckFlushConcurrency d, dAckFlushInterval d, dAckQueueSize d))"

lemma settings_fold_drop: "settings (fold drop_subscriber xs d) = settings d"
  by (induction xs arbitrary: d) (simp_all add: settings_def drop_subscriber_def close_chan_def)

lemma settings_evict: "evict rs d s = (d', s') \<Longrightarrow> settings d' = settings d"
  by (induction rs d s rule: evict.induct) (auto simp: settings_def drop_subscriber_def close_chan_def split: if_splits)

lemma settings_offer: "offer_frame d d' \<Longrightarrow> settings d' = settings d"
  by (cases d; cases d') (simp add: settings_def offer_frame_def)

lemma settings_simps [simp]:
  "settings (snd (subscribe d)) = settings d" "settings (disp_stop d) = settings d" "settings (receive i n d) = settings d"
  "settings (drop_subscriber i d) = settings d" "settings (disp_start d) = settings d" "settings (snd (remove_entry i d)) = settings d"
  by (simp_all add: disp_stop_def settings_fold_drop)
    (simp_all add: settings_def subscribe_def receive_def drop_subscriber_def close_chan_def disp_start_def remove_entry_def Let_def)

lemma settings_fanOut:
  assumes "disp_inv d" "fanOut taken events d s = (d', s')"
  shows "settings d' = settings d"
  using fanOut_result [OF assms] settings_evict settings_offer by metis

lemma subscribe_simps [simp]:
  "fst (subscribe d) = dNextSubID d + 1"
  "set (dSubscribers (snd (subscribe d))) = insert (dNextSubID d + 1) (set (dSubscribers d))"
  "dChans (snd (subscribe d)) = (dChans d)(dNextSubID d + 1 := empty_channel)"
  "dDropCounts (snd (subscribe d)) = (dDropCounts d)(dNextSubID d + 1 \<mapsto> 0)"
  "dSubscriberBuffer (snd (subscribe d)) = dSubscriberBuffer d" "dStopped (snd (subscribe d)) = dStopped d"
  "dDone (snd (subscribe d)) = dDone d" "dKey (snd (subscribe d)) = dKey d" "dReadCount (snd (subscribe d)) = dReadCount d"
  "dStarted (snd (subscribe d)) = dStarted d" "dAckQueue (snd (subscribe d)) = dAckQueue d"
  by (auto simp: subscribe_def Let_def)

lemma subscribe_inv: "disp_inv d \<Longrightarrow> disp_inv (snd (subscribe d))"
proof -
  assume "disp_inv d"
  note I = disp_invD [OF this]
  have "distinct (dSubscribers (snd (subscribe d)))" using I(1) by (simp add: subscribe_def Let_def)
  moreover have "dom (dDropCounts (snd (subscribe d))) = set (dSubscribers (snd (subscribe d)))" using I(2) by simp
  ultimately show ?thesis
    using I(3-7) unfolding disp_inv_def by (simp add: drop_count_def empty_channel_def dispatcherMaxConsecutiveDrops_def)
qed

lemma fold_drop:
  "dSubscribers (fold drop_subscriber xs d) = filter (\<lambda>i. i \<notin> set xs) (dSubscribers d)"
  "dChans (fold drop_subscriber xs d) = (\<lambda>i. if i \<in> set xs then (dChans d i)\<lparr>chClosed := True\<rparr> else dChans d i)"
  "dDone (fold drop_subscriber xs d) = dDone d" "dStopped (fold drop_subscriber xs d) = dStopped d"
  "dKey (fold drop_subscriber xs d) = dKey d" "dNextSubID (fold drop_subscriber xs d) = dNextSubID d"
  "dSubscriberBuffer (fold drop_subscriber xs d) = dSubscriberBuffer d" "dStarted (fold drop_subscriber xs d) = dStarted d"
  "dAckQueue (fold drop_subscriber xs d) = dAckQueue d"
  by (induction xs arbitrary: d) (auto simp: fun_eq_iff intro: filter_cong)

lemma fold_drop_inv: "disp_inv d \<Longrightarrow> disp_inv (fold drop_subscriber xs d)"
  by (induction xs arbitrary: d) (auto intro: drop_subscriber_inv)

lemma disp_stop_simps:
  "\<not> dStopped d \<Longrightarrow> dSubscribers (disp_stop d) = []"
  "\<not> dStopped d \<Longrightarrow> dChans (disp_stop d) = (\<lambda>i. if i \<in> set (dSubscribers d) then (dChans d i)\<lparr>chClosed := True\<rparr> else dChans d i)"
  "dStopped (disp_stop d)" "dDone (disp_stop d) \<longleftrightarrow> dStopped d \<longrightarrow> dDone d" "dKey (disp_stop d) = dKey d"
  "dSubscriberBuffer (disp_stop d) = dSubscriberBuffer d" "dAckQueue (disp_stop d) = dAckQueue d"
  "dStarted (disp_stop d) = dStarted d"
  by (auto simp: disp_stop_def fold_drop)

lemma disp_stop_inv: "disp_inv d \<Longrightarrow> disp_inv (disp_stop d)"
proof (cases "dStopped d")
  case False
  assume "disp_inv d"
  then have "disp_inv (d\<lparr>dStopped := True, dDone := True\<rparr>)" by (simp add: disp_inv_def drop_count_def)
  then show ?thesis using False by (simp add: disp_stop_def fold_drop_inv)
qed (simp add: disp_stop_def)

lemma remove_entry_inv: "disp_inv d \<Longrightarrow> remove_entry i d = (l, d') \<Longrightarrow> disp_inv d'"
  by (auto simp: remove_entry_def Let_def intro: drop_subscriber_inv)

lemma receive_inv: "disp_inv d \<Longrightarrow> disp_inv (receive i n d)"
  by (auto simp: disp_inv_def receive_def drop_count_def chan_take_def)

lemma time_now_frame: "time_now s = (t, s') \<Longrightarrow> s' = s\<lparr>world := world s'\<rparr>"
  by (auto simp: time_now_def split: prod.splits)

lemma read_deliver_fanOut:
  fixes s :: "'w sidecar"
  assumes "read_deliver taken events d s = (d', s')"
  obtains s1 s2 :: "'w sidecar" where "fanOut taken events d s1 = (d', s2)"
  using assms by (auto simp: read_deliver_def Let_def split: prod.splits)

lemma disp_step_inv:
  fixes x :: "'w dispatch"
  shows "disp_step x y \<Longrightarrow> disp_inv (dsDisp x) \<Longrightarrow> disp_inv (dsDisp y)"
proof (cases rule: disp_step.cases, assumption)
  fix events taken d' s'
  assume a: "disp_inv (dsDisp x)" "y = x\<lparr>dsPc := AtTop, dsDisp := d', dsSide := s'\<rparr>" "read_deliver taken events (dsDisp x) (dsSide x) = (d', s')"
  from a(3) obtain s1 s2 :: "'w sidecar" where "fanOut taken events (dsDisp x) s1 = (d', s2)" by (rule read_deliver_fanOut)
  with a(1) have "disp_inv d'" by (rule fanOut_inv)
  then show ?thesis using a(2) by simp
qed (auto intro: subscribe_inv disp_stop_inv receive_inv remove_entry_inv)

section \<open>Delivery without loss\<close>

text \<open>What the bound on the batch relies on: \<open>COUNT\<close> limits the entries that a read of one stream returns.\<close>

definition honours_count :: "'w redis \<Rightarrow> bool" where
  "honours_count R \<longleftrightarrow> (\<forall>ctx a w streams w'. XReadGroup R ctx a w = (Inr streams, w') \<longrightarrow>
     int (length (flat_messages streams)) \<le> max 0 (xrCount a))"

definition headroom :: "streamDispatcher \<Rightarrow> bool" where
  "headroom d \<longleftrightarrow> dReadCount d + backpressure_threshold (dSubscriberBuffer d) \<le> dSubscriberBuffer d + 1"

lemma threshold_pos: "1 \<le> backpressure_threshold n"
  by (simp add: backpressure_threshold_def Let_def)

lemma length_messages_to_events: "messages_to_events msgs s = (events, s') \<Longrightarrow> length events = length msgs"
  by (induction msgs s arbitrary: events s' rule: messages_to_events.induct) (auto split: prod.splits)

lemma redis_frame_simps [simp]:
  "redis (snd (time_now s)) = redis s" "redis (snd (time_since t s)) = redis s"
  "redis (snd (message_to_event a m s)) = redis s" "redis (snd (messages_to_events msgs s)) = redis s"
  "redis (snd (evict rs d s)) = redis s"
proof -
  show 1: "redis (snd (time_now s)) = redis s" "redis (snd (time_since t s)) = redis s"
    by (simp_all add: time_since_def time_now_def Let_def split_def)
  show 2: "redis (snd (message_to_event a m s)) = redis s" for a m s
    by (simp add: message_to_event_def Let_def split_def)
  show "redis (snd (messages_to_events msgs s)) = redis s"
  proof (induction msgs arbitrary: s)
    case (Cons m msgs)
    then show ?case by (cases m) (simp add: 2 Let_def split_def)
  qed simp
  show "redis (snd (evict rs d s)) = redis s"
    by (induction rs d s rule: evict.induct) simp_all
qed

lemma redis_frame:
  "time_now s = (t, s') \<Longrightarrow> redis s' = redis s" "time_since t0 s = (t, s') \<Longrightarrow> redis s' = redis s"
  "messages_to_events msgs s = (events, s') \<Longrightarrow> redis s' = redis s" "evict rs d s = (d', s') \<Longrightarrow> redis s' = redis s"
  using redis_frame_simps(1) [of s] redis_frame_simps(2) [of t0 s] redis_frame_simps(4) [of msgs s] redis_frame_simps(5) [of rs d s] by auto

lemma read_stream_frame: "redis (snd (read_stream d s)) = redis s"
  by (simp add: read_stream_def Let_def split_def)

lemma read_stream_result:
  assumes "read_stream d s = (Inr streams, s')" "honours_count (redis s)"
  shows "int (length (flat_messages streams)) \<le> max 0 (dReadCount d)"
proof -
  obtain t s1 where n: "time_now s = (t, s1)" by fastforce
  obtain r w where x: "XReadGroup (redis s1) dispatcherCtx (dispatcher_read_args d) (world s1) = (r, w)" by fastforce
  have "r = Inr streams" using assms(1) n x by (simp add: read_stream_def Let_def split_def)
  with x assms(2) redis_frame(1) [OF n] have "int (length (flat_messages streams)) \<le> max 0 (xrCount (dispatcher_read_args d))"
    unfolding honours_count_def by metis
  then show ?thesis by (simp add: dispatcher_read_args_def)
qed

lemma read_top_Deliver:
  fixes s :: "'w sidecar"
  assumes "read_top cancelled d s = (Deliver events, s')"
  obtains s1 s2 s3 :: "'w sidecar" and streams where
    "\<not> subscribersBackpressured d" "\<not> dDone d" "dSubscribers d \<noteq> []" "events \<noteq> []"
    "ensureConsumerGroup dispatcherCtx (dStreamName d) (dConsumerGroup d) s = (None, s1)"
    "read_stream d s1 = (Inr streams, s2)" "messages_to_events (flat_messages streams) s2 = (events, s3)"
    "s' = incrementReadEvents (word_of_nat (length events)) s3"
  using assms
  by (auto simp: read_top_def subscriberCount_def split: sum.splits option.splits if_splits prod.splits)

lemma read_top_redis:
  assumes "read_top cancelled d s = (n, s')"
  shows "redis s' = redis s"
proof -
  obtain e s1 where e: "ensureConsumerGroup dispatcherCtx (dStreamName d) (dConsumerGroup d) s = (e, s1)" by fastforce
  obtain r s2 where r: "read_stream d s1 = (r, s2)" by fastforce
  have "redis s1 = redis s" "redis s2 = redis s" using ensure_frame(2) [OF e] read_stream_frame [of d s1] r by simp_all
  moreover have "redis (snd (messages_to_events msgs s2)) = redis s" for msgs using calculation by simp
  ultimately show ?thesis
    using assms e r by (auto simp: read_top_def Let_def split_def split: sum.splits option.splits if_splits)
qed

lemma read_deliver_redis:
  assumes "read_deliver taken events d s = (d', s')"
  shows "redis s' = redis s"
  using assms by (auto simp: read_deliver_def fanOut_def Let_def split: prod.splits dest!: redis_frame)

text \<open>Room for \<open>n\<close> more events in every channel, and nobody is behind.\<close>

definition room :: "nat \<Rightarrow> streamDispatcher \<Rightarrow> bool" where
  "room n d \<longleftrightarrow> int n \<le> dSubscriberBuffer d \<and>
     (\<forall>i\<in>set (dSubscribers d). drop_count d i = 0 \<and> int (length (chBuffer (dChans d i))) + int n \<le> dSubscriberBuffer d)"

fun batch_size :: "read_pc \<Rightarrow> nat" where
  "batch_size (Delivering events) = length events"
| "batch_size _ = 0"

definition lossless_inv :: "'w dispatch \<Rightarrow> bool" where
  "lossless_inv x \<longleftrightarrow> disp_inv (dsDisp x) \<and> headroom (dsDisp x) \<and> honours_count (redis (dsSide x)) \<and>
     room (batch_size (dsPc x)) (dsDisp x)"

definition dispatch_init :: "'w dispatch \<Rightarrow> bool" where
  "dispatch_init x \<longleftrightarrow> dsPc x = AtTop \<and> dSubscribers (dsDisp x) = [] \<and> dDropCounts (dsDisp x) = Map.empty \<and> \<not> dStopped (dsDisp x) \<and> \<not> dDone (dsDisp x)"

lemma headroom_settings: "settings d' = settings d \<Longrightarrow> headroom d' = headroom d"
  by (simp add: headroom_def settings_def)

lemma offer_stream_room_drops:
  "offer_stream cap taken k events (ch, drops, marked) = (ch', drops', marked') \<Longrightarrow>
   int (length (chBuffer ch)) + int (length events) \<le> cap \<Longrightarrow> drops = 0 \<Longrightarrow> drops' = 0"
proof (induction events arbitrary: k ch drops marked)
  case (Cons event events)
  obtain ch1 drops1 marked1 where o: "offer_one cap (taken k) event (ch, drops, marked) = (ch1, drops1, marked1)"
    by (metis prod_cases3)
  with Cons.prems(1) have r: "offer_stream cap taken (Suc k) events (ch1, drops1, marked1) = (ch', drops', marked')" by simp
  from o show ?case
  proof (cases rule: offer_one_cases)
    case sent
    then show ?thesis using Cons.IH [OF r] Cons.prems by simp
  next
    case dropped
    then show ?thesis using Cons.prems by simp
  qed
qed simp

lemma fanOut_room:
  assumes "disp_inv d" "fanOut taken events d s = (d', s')" "room (length events) d"
  shows "room 0 d'"
proof -
  from fanOut_result [OF assms(1,2)] obtain rs d1 where e: "evict rs d1 s = (d', s')" and f: "offer_frame d d1"
    and v: "\<And>i. i \<in> set (dSubscribers d) \<Longrightarrow>
      offer_stream (dSubscriberBuffer d) (\<lambda>k. taken k i) 0 events (dChans d i, drop_count d i, False) = (dChans d1 i, drop_count d1 i, i \<in> set rs)"
    by metis
  note E = evict_result [OF e] and F = offer_frameD [OF f]
  have cap: "0 \<le> dSubscriberBuffer d'" using assms(3) by (simp add: room_def E(4) F(2))
  have "drop_count d' i = 0" if "i \<in> set (dSubscribers d')" for i
  proof -
    have i: "i \<in> set (dSubscribers d)" "i \<notin> set rs" using that by (auto simp: E(1) F(1))
    have "drop_count d1 i = 0" using offer_stream_room_drops [OF v [OF i(1)]] assms(3) i(1) unfolding room_def by blast
    with i show ?thesis by (simp add: drop_count_def E(2) restrict_map_def)
  qed
  then show ?thesis using cap disp_invD(5) [OF fanOut_inv [OF assms(1,2)]] by (force simp: room_def)
qed

lemma room_simps:
  "room n d \<Longrightarrow> room n (snd (subscribe d))" "room n d \<Longrightarrow> room n (drop_subscriber i d)" "room n d \<Longrightarrow> room n (receive i k d)"
  "room n d \<Longrightarrow> room n (d\<lparr>dStopped := a, dDone := b\<rparr>)"
  by (auto simp: room_def drop_count_def empty_channel_def receive_def chan_take_def)

lemma room_fold_drop: "room n d \<Longrightarrow> room n (fold drop_subscriber xs d)"
  by (induction xs arbitrary: d) (auto intro: room_simps)

lemma room_stop: "room n d \<Longrightarrow> room n (disp_stop d)"
  by (simp add: disp_stop_def room_fold_drop room_simps)

lemma room_remove: "room n d \<Longrightarrow> room n (snd (remove_entry i d))"
  by (simp add: remove_entry_def Let_def room_simps)

lemma read_top_room:
  assumes "read_top cancelled d s = (n, s')" "headroom d" "honours_count (redis s)" "room 0 d"
  shows "room (batch_size (next_pc n)) d"
proof (cases n)
  case (Deliver events)
  with assms(1) have "read_top cancelled d s = (Deliver events, s')" by simp
  then obtain s1 s2 s3 streams where g: "\<not> subscribersBackpressured d" "dSubscribers d \<noteq> []" "events \<noteq> []"
    and e: "ensureConsumerGroup dispatcherCtx (dStreamName d) (dConsumerGroup d) s = (None, s1)"
    and r: "read_stream d s1 = (Inr streams, s2)" and m: "messages_to_events (flat_messages streams) s2 = (events, s3)"
    by (rule read_top_Deliver)
  have n: "int (length events) \<le> max 0 (dReadCount d)"
    using read_stream_result [OF r] assms(3) ensure_frame(2) [OF e] length_messages_to_events [OF m] by simp
  have n0: "0 < length events" using g(3) by simp
  then have n1: "int (length events) \<le> dReadCount d" using n by (auto simp: max_def split: if_splits)
  have "int (length (chBuffer (dChans d i))) + int (length events) \<le> dSubscriberBuffer d" if "i \<in> set (dSubscribers d)" for i
  proof -
    have "int (length (chBuffer (dChans d i))) < backpressure_threshold (dSubscriberBuffer d)"
      using g(1) that by (auto simp: subscribersBackpressured_def not_le)
    then show ?thesis using assms(2) n1 unfolding headroom_def by linarith
  qed
  moreover have "hd (dSubscribers d) \<in> set (dSubscribers d)" using g(2) by simp
  ultimately show ?thesis using assms(4) Deliver by (force simp: room_def)
qed (use assms(4) in simp_all)

lemma lossless_step:
  fixes x :: "'w dispatch"
  assumes "disp_step x y" "lossless_inv x"
  shows "lossless_inv y"
proof -
  have I: "disp_inv (dsDisp x)" "headroom (dsDisp x)" "honours_count (redis (dsSide x))" "room (batch_size (dsPc x)) (dsDisp x)"
    using assms(2) unfolding lossless_inv_def by blast+
  have J: "disp_inv (dsDisp y)" by (rule disp_step_inv [OF assms(1) I(1)])
  have local: "lossless_inv y" if "y = x\<lparr>dsDisp := d\<rparr>" "settings d = settings (dsDisp x)" "room (batch_size (dsPc x)) d" for d
    using that I J headroom_settings [OF that(2)] by (simp add: lossless_inv_def)
  from assms(1) show ?thesis
  proof (cases rule: disp_step.cases)
    case (step_read cancelled n s')
    then show ?thesis
      using I J read_top_room [OF step_read(3) I(2,3)] read_top_redis [OF step_read(3)] by (simp add: lossless_inv_def)
  next
    case (step_deliver events taken d' s')
    from step_deliver(3) obtain s1 s2 :: "'w sidecar" where f: "fanOut taken events (dsDisp x) s1 = (d', s2)" by (rule read_deliver_fanOut)
    have "room 0 d'" using fanOut_room [OF I(1) f] I(4) step_deliver(2) by simp
    then show ?thesis
      using step_deliver(1) I J headroom_settings [OF settings_fanOut [OF I(1) f]] read_deliver_redis [OF step_deliver(3)]
      by (simp add: lossless_inv_def)
  next
    case step_subscribe
    then show ?thesis by (rule local) (simp_all add: I(4) room_simps)
  next
    case (step_remove i none d')
    have d': "d' = snd (remove_entry i (dsDisp x))" using step_remove(2) by simp
    show ?thesis
      by (rule local [OF step_remove(1)]) (use room_remove [OF I(4)] room_stop [OF room_remove [OF I(4)]] in \<open>simp_all add: d'\<close>)
  next
    case step_stop
    then show ?thesis by (rule local) (simp_all add: I(4) room_stop)
  next
    case (step_receive i n)
    then show ?thesis by (rule local) (simp_all add: I(4) room_simps)
  next
    case (step_others w c)
    then show ?thesis using I J by (simp add: lossless_inv_def)
  qed
qed

lemma dispatch_init_inv: "dispatch_init x \<Longrightarrow> disp_inv (dsDisp x)"
  by (simp add: dispatch_init_def disp_inv_def)

interpretation dispatch_machine: transition_system dispatch_init disp_step "\<lambda>x. disp_inv (dsDisp x)"
proof
  show "disp_inv (dsDisp x)" if "dispatch_init x" for x :: "'a dispatch" using that by (rule dispatch_init_inv)
  show "disp_inv (dsDisp y)" if "disp_inv (dsDisp x)" "disp_step x y" for x y :: "'a dispatch" using that(2,1) by (rule disp_step_inv)
qed

interpretation lossless_machine: transition_system
  "\<lambda>x. dispatch_init x \<and> headroom (dsDisp x) \<and> honours_count (redis (dsSide x)) \<and> 0 \<le> dSubscriberBuffer (dsDisp x)"
  disp_step lossless_inv
proof
  show "lossless_inv x" if "dispatch_init x \<and> headroom (dsDisp x) \<and> honours_count (redis (dsSide x)) \<and> 0 \<le> dSubscriberBuffer (dsDisp x)"
    for x :: "'a dispatch"
    using that dispatch_init_inv [of x] by (simp add: dispatch_init_def lossless_inv_def room_def)
  show "lossless_inv y" if "lossless_inv x" "disp_step x y" for x y :: "'a dispatch" using that(2,1) by (rule lossless_step)
qed

text \<open>Remark. The state of the subscriptions stays consistent under every interleaving of the read loop with subscribers
  that come, go and receive: subscribers and drop counts are the same set, every channel of a subscriber is open
  and within its capacity, and nobody with eight consecutive drops stays subscribed.\<close>

theorem dispatcher_subscriptions_consistent:
  assumes "dispatch_init x" "disp_step\<^sup>*\<^sup>* x y" "d = dsDisp y"
  shows "distinct (dSubscribers d) \<and> dom (dDropCounts d) = set (dSubscribers d) \<and>
    (\<forall>i\<in>set (dSubscribers d). \<not> chClosed (dChans d i) \<and> int (length (chBuffer (dChans d i))) \<le> max 0 (dSubscriberBuffer d) \<and>
       0 \<le> drop_count d i \<and> drop_count d i < 8)"
  using dispatch_machine.reachable_inv [OF assms(1,2)] by (simp add: disp_inv_def assms(3) dispatcherMaxConsecutiveDrops_def)

text \<open>C14. Delivery without loss: when the read count fits between the backpressure threshold and the capacity of
  the subscriber buffers, every batch the dispatcher delivers reaches every subscriber completely and in order, and
  nobody is dropped, under every interleaving.\<close>

theorem dispatcher_lossless:
  fixes x :: "'w dispatch"
  assumes "dispatch_init x" "headroom (dsDisp x)" "honours_count (redis (dsSide x))" "0 \<le> dSubscriberBuffer (dsDisp x)"
    and "disp_step\<^sup>*\<^sup>* x y" "dsPc y = Delivering events" "read_deliver taken events (dsDisp y) (dsSide y) = (d', s')"
    and "i \<in> set (dSubscribers (dsDisp y))"
  shows "i \<in> set (dSubscribers d') \<and> drop_count d' i = 0 \<and> seen (dChans d' i) = seen (dChans (dsDisp y) i) @ events"
proof -
  have inv: "lossless_inv y" using lossless_machine.reachable_inv assms(1-5) by blast
  then have I: "disp_inv (dsDisp y)" "room (length events) (dsDisp y)" using assms(6) by (simp_all add: lossless_inv_def)
  from assms(7) obtain s1 s2 :: "'w sidecar" where f: "fanOut taken events (dsDisp y) s1 = (d', s2)" by (rule read_deliver_fanOut)
  have "i \<in> set (dSubscribers d') \<and> seen (dChans d' i) = seen (dChans (dsDisp y) i) @ events"
    by (rule fanOut_sub [OF I(1) f assms(8)]) (use I(2) assms(8) in \<open>auto simp: room_def\<close>)
  then show ?thesis using fanOut_room [OF I(1) f I(2)] by (simp add: room_def)
qed

section \<open>Backpressure and the default sizes\<close>

lemma offer_stream_marked: "offer_stream cap taken k events (ch, drops, True) = (ch', drops', marked') \<Longrightarrow> marked'"
proof (induction events arbitrary: k ch drops)
  case (Cons event events)
  then show ?case by (auto simp: Let_def split: if_splits)
qed simp

lemma stalled_marked:
  "offer_stream cap (\<lambda>_. 0) k events (ch, drops, marked) = (ch', drops', marked') \<Longrightarrow> 0 \<le> drops \<Longrightarrow>
   int (length (chBuffer ch)) \<le> cap \<and> cap + 8 \<le> int (length (chBuffer ch)) + int (length events) \<or> cap \<le> int (length (chBuffer ch)) \<and> 8 \<le> drops + int (length events) \<Longrightarrow>
   drops < 8 \<Longrightarrow> marked'"
proof (induction events arbitrary: k ch drops marked)
  case (Cons event events)
  have t: "chan_take 0 ch = ch" by (simp add: chan_take_def)
  show ?case
  proof (cases "int (length (chBuffer ch)) < cap")
    case True
    then show ?thesis using Cons.prems(1,3) by (intro Cons.IH [of "Suc k" "ch\<lparr>chBuffer := chBuffer ch @ [event]\<rparr>" 0 marked]) (simp_all add: t)
  next
    case False
    have o: "offer_stream cap (\<lambda>_. 0) (Suc k) events (ch, drops + 1, marked \<or> 8 \<le> drops + 1) = (ch', drops', marked')"
      using Cons.prems(1) False by (simp add: t dispatcherMaxConsecutiveDrops_def)
    show ?thesis
    proof (cases "8 \<le> drops + 1")
      case True
      with o show ?thesis using offer_stream_marked by simp
    next
      case False
      show ?thesis by (rule Cons.IH [OF o]) (use False \<open>\<not> int (length (chBuffer ch)) < cap\<close> Cons.prems(2,3) in auto)
    qed
  qed
qed auto

lemma threshold_256: "backpressure_threshold 256 = 230"
  by (simp add: backpressure_threshold_def float64_def bit_length.simps clampInt64ToInt_def go_div_def Let_def)

text \<open>Remark. The default sizes leave no such headroom: with a buffer of 256 and a read count of 100, a subscriber with
  229 buffered events does not count as backpressured, and a full batch that arrives while it is not
  receiving removes it.\<close>

theorem default_batch_evicts:
  assumes "disp_inv d" "dSubscriberBuffer d = 256" "i \<in> set (dSubscribers d)" "length (chBuffer (dChans d i)) = 229"
    and "length events = 100" "fanOut (\<lambda>_ _. 0) events d s = (d', s')"
  shows "229 < backpressure_threshold 256 \<and> i \<notin> set (dSubscribers d')"
proof -
  from fanOut_result [OF assms(1,6)] obtain rs d1 where e: "evict rs d1 s = (d', s')"
    and v: "\<And>i. i \<in> set (dSubscribers d) \<Longrightarrow>
      offer_stream (dSubscriberBuffer d) (\<lambda>k. 0) 0 events (dChans d i, drop_count d i, False) = (dChans d1 i, drop_count d1 i, i \<in> set rs)"
    by metis
  have "i \<in> set rs"
    using stalled_marked [OF v [OF assms(3)]] disp_invD(6,7) [OF assms(1,3)] assms(2,4,5) by (simp add: dispatcherMaxConsecutiveDrops_def)
  then show ?thesis using evict_result(1) [OF e] by (simp add: threshold_256)
qed

section \<open>Examples\<close>

definition small_dispatcher :: streamDispatcher where
  "small_dispatcher = disp_start (newStreamDispatcher sample_cfg ''s'' ''g'' 11 1000)"

definition small_dispatch :: "mem_world dispatch" where
  "small_dispatch = \<lparr>dsDisp = small_dispatcher, dsPc = AtTop,
     dsSide = (sample_sidecar False)\<lparr>world := mem_empty\<lparr>memStreams := (\<lambda>_. [\<lparr>msgID = ''1-0'', msgValues = [''timestamp'' \<mapsto> GoString ''t0'']\<rparr>])\<rparr>\<rparr>\<rparr>"

lemma small_init: "dispatch_init small_dispatch"
  by (simp add: dispatch_init_def small_dispatch_def small_dispatcher_def disp_start_def newStreamDispatcher_def)

lemma threshold_100: "backpressure_threshold 100 = 90"
  by (simp add: backpressure_threshold_def float64_def bit_length.simps clampInt64ToInt_def go_div_def Let_def)

lemma small_headroom: "headroom (dsDisp small_dispatch)"
  by (simp add: headroom_def small_dispatch_def small_dispatcher_def disp_start_def newStreamDispatcher_def sample_cfg_def threshold_100)

lemma mem_honours_count: "honours_count mem_redis"
  by (auto simp: honours_count_def mem_XReadGroup_def flat_messages_def Let_def split: if_splits)

definition small_read :: "mem_world dispatch" where
  "small_read = small_dispatch\<lparr>dsDisp := snd (subscribe (dsDisp small_dispatch))\<rparr>"

lemma small_read_reachable: "disp_step\<^sup>*\<^sup>* small_dispatch small_read"
  unfolding small_read_def by (rule r_into_rtranclp) (rule step_subscribe)

lemma small_read_subscribers: "dSubscribers (dsDisp small_read) = [1]"
  by (simp add: small_read_def small_dispatch_def small_dispatcher_def disp_start_def newStreamDispatcher_def subscribe_def Let_def)

theorem dispatcher_subscriptions_consistent_witness:
  "\<exists>y. disp_step\<^sup>*\<^sup>* small_dispatch y \<and> dSubscribers (dsDisp y) = [1] \<and> dom (dDropCounts (dsDisp y)) = {1}"
  using dispatcher_subscriptions_consistent [OF small_init small_read_reachable refl] small_read_reachable small_read_subscribers
  by (intro exI [of _ small_read]) simp

lemma small_read_delivers:
  "\<exists>events s'. read_top False (dsDisp small_read) (dsSide small_read) = (Deliver events, s') \<and> map evEntryId events = [''1-0'']"
proof -
  have "\<not> subscribersBackpressured (dsDisp small_read)" "\<not> dDone (dsDisp small_read)" "dStreamName (dsDisp small_read) = ''s''"
    "dReadCount (dsDisp small_read) = 11" "dConsumerGroup (dsDisp small_read) = ''g''"
    by (simp_all add: small_read_def small_dispatch_def small_dispatcher_def disp_start_def newStreamDispatcher_def subscribe_def
        subscribersBackpressured_def empty_channel_def sample_cfg_def threshold_100 Let_def)
  then show ?thesis
    by (simp add: read_top_def small_read_subscribers subscriberCount_def)
      (simp add: small_read_def small_dispatch_def ensureConsumerGroup_def isConsumerGroupEnsured_def sample_sidecar_def mem_redis_def
        mem_empty_def read_stream_def time_now_def time_since_def dispatcher_read_args_def mem_XReadGroup_def rememberConsumerGroup_def
        flat_messages_def message_to_event_def field_value_def redisMessageToProtoEvent_def Let_def)
qed

theorem dispatcher_lossless_witness:
  "\<exists>y events d' s'. disp_step\<^sup>*\<^sup>* small_dispatch y \<and> dsPc y = Delivering events \<and> events \<noteq> [] \<and>
     read_deliver (\<lambda>_ _. 0) events (dsDisp y) (dsSide y) = (d', s') \<and> seen (dChans d' 1) = seen (dChans (dsDisp y) 1) @ events"
proof -
  obtain events s1 where r: "read_top False (dsDisp small_read) (dsSide small_read) = (Deliver events, s1)" "events \<noteq> []"
    using small_read_delivers by force
  define y where "y = small_read\<lparr>dsPc := next_pc (Deliver events), dsSide := s1\<rparr>"
  have "dsPc small_read = AtTop" by (simp add: small_read_def small_dispatch_def)
  from step_read [OF this r(1)] have st: "disp_step\<^sup>*\<^sup>* small_dispatch y"
    using small_read_reachable unfolding y_def by (rule rtranclp.rtrancl_into_rtrancl [rotated])
  have pc: "dsPc y = Delivering events" by (simp add: y_def)
  obtain d' s' where d: "read_deliver (\<lambda>_ _. 0) events (dsDisp y) (dsSide y) = (d', s')" by fastforce
  have i: "1 \<in> set (dSubscribers (dsDisp y))" using small_read_subscribers by (simp add: y_def)
  have "honours_count (redis (dsSide small_dispatch))" "0 \<le> dSubscriberBuffer (dsDisp small_dispatch)"
    by (simp_all add: small_dispatch_def mem_honours_count small_dispatcher_def disp_start_def newStreamDispatcher_def sample_cfg_def)
  from dispatcher_lossless [OF small_init small_headroom this st pc d i] st pc d r(2) show ?thesis by blast
qed

end
