(* ===== verification/Dispatcher_Acks.thy ===== *)
theory Dispatcher_Acks
  imports Dispatcher
begin

text \<open>
  \<open>internal/service/dispatcher.go\<close>, acknowledgements: \<open>queueAck\<close> puts identifiers into the bounded queue of a
  dispatcher, and the goroutine \<open>runAckLoop\<close> collects them in a set and acknowledges them in chunks, several chunks
  per Redis pipeline.  The loop and its callers are a step relation, with the position of the goroutine
  explicit while it drains the queue.  \<open>akAccepted\<close> records the identifiers accepted by \<open>queueAck\<close>; no operation reads it.
\<close>

section \<open>Queueing\<close>

abbreviation observeDispatcherAckQueueDepth :: "int \<Rightarrow> 'w sidecar \<Rightarrow> 'w sidecar" where
  "observeDispatcherAckQueueDepth n s \<equiv> on_collector (ObserveDispatcherAckQueueDepth (promClient s) n) s"
abbreviation observeDispatcherAckExecDuration :: "int \<Rightarrow> 'w sidecar \<Rightarrow> 'w sidecar" where
  "observeDispatcherAckExecDuration t s \<equiv> on_collector (ObserveDispatcherAckExecDuration (promClient s) t) s"
abbreviation observeDispatcherAckFlush :: "int \<Rightarrow> int \<Rightarrow> 'w sidecar \<Rightarrow> 'w sidecar" where
  "observeDispatcherAckFlush t n s \<equiv> on_collector (ObserveDispatcherAckFlush (promClient s) t n) s"
abbreviation observeDispatcherAckCompression :: "int \<Rightarrow> int \<Rightarrow> int \<Rightarrow> int \<Rightarrow> 'w sidecar \<Rightarrow> 'w sidecar" where
  "observeDispatcherAckCompression i n a b s \<equiv> on_collector (ObserveDispatcherAckCompression i n a b) s"

definition clean_ids :: "string list \<Rightarrow> string list" where
  "clean_ids entryIDs = filter (\<lambda>i. i \<noteq> '''') (map TrimSpace entryIDs)"

text \<open>When the context has ended and the queue has room, \<open>select\<close> may take either case; \<open>pickDone\<close> decides.\<close>

definition queueAck ::
  "bool \<Rightarrow> string list \<Rightarrow> streamDispatcher \<Rightarrow> 'w sidecar \<Rightarrow> int go_result \<times> streamDispatcher \<times> 'w sidecar" where
  "queueAck pickDone entryIDs d s =
     (let cleaned = clean_ids entryIDs;
          free = int (length (dAckQueue d)) < dAckQueueSize d
      in if cleaned = [] then (Inl (ErrMsg ''entry_ids are required''), d, s)
         else if dDone d \<and> (pickDone \<or> \<not> free) then (Inl ErrDispatcherClosed, d, s)
         else if free
         then (let d1 = d\<lparr>dAckQueue := dAckQueue d @ [cleaned]\<rparr>
               in (Inr (int (length cleaned)), d1, observeDispatcherAckQueueDepth (int (length (dAckQueue d1))) s))
         else (Inl ErrDispatcherAckBacklog, d, s))"

section \<open>Flushing\<close>

fun ack_results :: "(string list \<times> int go_result) list \<Rightarrow> string set \<Rightarrow> 'w sidecar \<Rightarrow> string set \<times> 'w sidecar" where
  "ack_results [] pending s = (pending, s)"
| "ack_results ((chunk, r) # rest) pending s =
     (case r of
        Inl err \<Rightarrow> ack_results rest pending (incrementError s)
      | Inr acked \<Rightarrow>
          ack_results rest (pending - set chunk) (if acked > 0 then incrementAckedEntries (word_of_int acked) s else s))"

definition ackFlushCtx :: ctx where "ackFlushCtx = WithTimeout BackgroundCtx 5000"

definition ack_commands :: "streamDispatcher \<Rightarrow> string list list \<Rightarrow> (string \<times> string \<times> string list) list" where
  "ack_commands d chunks = map (\<lambda>chunk. (dStreamName d, dConsumerGroup d, chunk)) chunks"

definition flushAckChunkBatch ::
  "streamDispatcher \<Rightarrow> string list list \<Rightarrow> string set \<Rightarrow> 'w sidecar \<Rightarrow> (go_error option \<times> string set) \<times> 'w sidecar" where
  "flushAckChunkBatch d chunks pending s =
     (if chunks = [] then ((None, pending), s)
      else (let (execStart, s1) = time_now s;
                ((execErr, cmds), w) = ExecXAcks (redis s1) ackFlushCtx (ack_commands d chunks) (world s1);
                s2 = s1\<lparr>world := w\<rparr>;
                failed = (case execErr of None \<Rightarrow> None | Some e \<Rightarrow> if errors_Is e RedisNil then None else Some e);
                (res, s3) = (case failed of
                               Some err \<Rightarrow> ((Some err, pending), s2)
                             | None \<Rightarrow> (let (pending1, s3) = ack_results (zip chunks cmds) pending s2 in ((None, pending1), s3)));
                (t, s4) = time_since execStart s3
            in (res, observeDispatcherAckExecDuration t s4)))"

text \<open>The loop over batches of chunks; the result says whether it reached the end.\<close>

function flush_batches ::
  "streamDispatcher \<Rightarrow> nat \<Rightarrow> string list list \<Rightarrow> string set \<Rightarrow> 'w sidecar \<Rightarrow> bool \<times> string set \<times> 'w sidecar" where
  "flush_batches d batchChunks chunks pending s =
     (if chunks = [] \<or> batchChunks = 0 then (True, pending, s)
      else (case flushAckChunkBatch d (take batchChunks chunks) pending s of
              ((Some err, pending1), s1) \<Rightarrow> (False, pending1, incrementError s1)
            | ((None, pending1), s1) \<Rightarrow> flush_batches d batchChunks (drop batchChunks chunks) pending1 s1))"
  by pat_completeness auto
termination by (relation "measure (\<lambda>(d, n, chunks, pending, s). length chunks)") auto

declare flush_batches.simps [simp del]

definition batch_chunks :: "streamDispatcher \<Rightarrow> int" where
  "batch_chunks d = (let n = clampInt64ToInt (dAckFlushConcurrency d) in if n \<le> 0 then 1 else n)"

text \<open>The closure \<open>flush\<close> on the loop's local variables; \<open>None\<close> is a panic.\<close>

definition ack_flush ::
  "streamDispatcher \<Rightarrow> string set \<Rightarrow> int \<Rightarrow> 'w sidecar \<Rightarrow> (string set \<times> int \<times> 'w sidecar) option" where
  "ack_flush d pending pendingInputEntries s =
     (if pending = {} then Some (pending, pendingInputEntries, s)
      else (let (flushStart, s1) = time_now s;
                entryIDs = sorted_list_of_set pending
            in case chunkStringSlice entryIDs (dAckBatchSize d) of
                 None \<Rightarrow> None
               | Some chunks \<Rightarrow>
                   (let chunkCount = int (length chunks);
                        (contiguousSpans, contiguousSavedEntries) = countContiguousAckSpans entryIDs;
                        batchChunks = batch_chunks d
                    in case flush_batches d (nat batchChunks) chunks pending s1 of
                         (False, pending1, s2) \<Rightarrow> Some (pending1, pendingInputEntries, s2)
                       | (True, pending1, s2) \<Rightarrow>
                           (let s3 = observeDispatcherAckCompression pendingInputEntries (int (length entryIDs))
                                       contiguousSpans contiguousSavedEntries s2;
                                (t, s4) = time_since flushStart s3
                            in Some (pending1, int (card pending1), observeDispatcherAckFlush t chunkCount s4)))))"

section \<open>The loop\<close>

datatype ack_after = AfterDone | AfterReceive | AfterTick
datatype ack_pc = AckSelect | AckDraining ack_after | AckReturned

record 'w ack_state =
  akDisp :: streamDispatcher
  akPending :: "string set"
  akInput :: int
  akPc :: ack_pc
  akSide :: "'w sidecar"
  akAccepted :: "string set"

definition add_pending :: "string list \<Rightarrow> 'w ack_state \<Rightarrow> 'w ack_state" where
  "add_pending entryIDs x =
     x\<lparr>akInput := int64_wrap (akInput x + int (length entryIDs)), akPending := akPending x \<union> set entryIDs\<rparr>"

definition take_acks :: "string list \<Rightarrow> string list list \<Rightarrow> 'w ack_state \<Rightarrow> 'w ack_state" where
  "take_acks ids q x = add_pending ids (x\<lparr>akDisp := (akDisp x)\<lparr>dAckQueue := q\<rparr>\<rparr>)"

definition run_flush :: "'w ack_state \<Rightarrow> 'w ack_state option" where
  "run_flush x =
     (case ack_flush (akDisp x) (akPending x) (akInput x) (akSide x) of
        None \<Rightarrow> None
      | Some (pending, n, s) \<Rightarrow> Some (x\<lparr>akPending := pending, akInput := n, akSide := s\<rparr>))"

definition flush_wanted :: "ack_after \<Rightarrow> 'w ack_state \<Rightarrow> bool" where
  "flush_wanted a x \<longleftrightarrow> (a = AfterReceive \<longrightarrow> int (card (akPending x)) \<ge> dAckBatchSize (akDisp x))"

definition after_pc :: "ack_after \<Rightarrow> ack_pc" where
  "after_pc a = (if a = AfterDone then AckReturned else AckSelect)"

inductive ack_loop_step :: "'w ack_state \<Rightarrow> 'w ack_state \<Rightarrow> bool" where
  ack_done: "akPc x = AckSelect \<Longrightarrow> dDone (akDisp x) \<Longrightarrow> ack_loop_step x (x\<lparr>akPc := AckDraining AfterDone\<rparr>)"
| ack_receive: "akPc x = AckSelect \<Longrightarrow> dAckQueue (akDisp x) = ids # q \<Longrightarrow> ack_loop_step x ((take_acks ids q x)\<lparr>akPc := AckDraining AfterReceive\<rparr>)"
| ack_tick: "akPc x = AckSelect \<Longrightarrow> ack_loop_step x (x\<lparr>akPc := AckDraining AfterTick\<rparr>)"
| ack_drain: "akPc x = AckDraining a \<Longrightarrow> dAckQueue (akDisp x) = ids # q \<Longrightarrow> ack_loop_step x (take_acks ids q x)"
| ack_flushed: "akPc x = AckDraining a \<Longrightarrow> dAckQueue (akDisp x) = [] \<Longrightarrow> flush_wanted a x \<Longrightarrow> run_flush x = Some y \<Longrightarrow>
    ack_loop_step x (y\<lparr>akPc := after_pc a\<rparr>)"
| ack_waits: "akPc x = AckDraining a \<Longrightarrow> dAckQueue (akDisp x) = [] \<Longrightarrow> \<not> flush_wanted a x \<Longrightarrow> ack_loop_step x (x\<lparr>akPc := after_pc a\<rparr>)"

inductive_cases ack_loop_stepE: "ack_loop_step x y"

text \<open>
  What the loop relies on in Redis and its client: the pipeline returns one result per command, an \<open>XACK\<close> that
  succeeds takes its identifiers out of the pending entries of the group, and they do not come back.
  \<open>settled w stream group\<close> are the identifiers that are no longer pending.
\<close>

type_synonym 'w settled = "'w \<Rightarrow> string \<Rightarrow> string \<Rightarrow> string set"

definition stays :: "'w settled \<Rightarrow> 'w \<Rightarrow> 'w \<Rightarrow> bool" where
  "stays settled w w' \<longleftrightarrow> (\<forall>st grp. settled w st grp \<subseteq> settled w' st grp)"

definition acks_settle :: "'w redis \<Rightarrow> 'w settled \<Rightarrow> bool" where
  "acks_settle R settled \<longleftrightarrow>
     (\<forall>ctx cmds w e rs w'. ExecXAcks R ctx cmds w = ((e, rs), w') \<longrightarrow>
        length rs = length cmds \<and> stays settled w w' \<and>
        (\<forall>st grp ids n. ((st, grp, ids), Inr n) \<in> set (zip cmds rs) \<longrightarrow> set ids \<subseteq> settled w' st grp)) \<and>
     (\<forall>w t w'. Clock R w = (t, w') \<longrightarrow> stays settled w w')"

text \<open>All steps: the goroutine, callers of \<open>queueAck\<close>, the end of the context, and other users of the sidecar.\<close>

inductive ack_step :: "'w settled \<Rightarrow> 'w ack_state \<Rightarrow> 'w ack_state \<Rightarrow> bool" for settled where
  ack_goroutine: "ack_loop_step x y \<Longrightarrow> ack_step settled x y"
| ack_caller: "queueAck pickDone ids (akDisp x) (akSide x) = (r, d, s) \<Longrightarrow>
    ack_step settled x (x\<lparr>akDisp := d, akSide := s, akAccepted := (if isl r then akAccepted x else akAccepted x \<union> set (clean_ids ids))\<rparr>)"
| ack_cancel: "ack_step settled x (x\<lparr>akDisp := (akDisp x)\<lparr>dDone := True\<rparr>\<rparr>)"
| ack_others: "stays settled (world (akSide x)) w \<Longrightarrow>
    ack_step settled x (x\<lparr>akSide := (akSide x)\<lparr>world := w, collector := c\<rparr>\<rparr>)"

section \<open>Flushing removes what Redis acknowledged\<close>

lemma stays_refl [simp]: "stays settled w w"
  by (simp add: stays_def)

lemma stays_trans: "stays settled a b \<Longrightarrow> stays settled b c \<Longrightarrow> stays settled a c"
  unfolding stays_def by blast

lemma staysD: "stays settled w w' \<Longrightarrow> settled w st grp \<subseteq> settled w' st grp"
  by (simp add: stays_def)

lemma ack_results_frame [simp]: "world (snd (ack_results crs P s)) = world s" "redis (snd (ack_results crs P s)) = redis s"
  by (induction crs P s rule: ack_results.induct) (auto split: sum.splits)

lemma ack_results_pending:
  "fst (ack_results crs P s) = P - \<Union> {set chunk | chunk n. (chunk, Inr n) \<in> set crs}"
proof (induction crs P s rule: ack_results.induct)
  case (2 chunk r rest P s)
  show ?case
  proof (cases r)
    case (Inl e)
    then show ?thesis using "2.IH"(1) by simp
  next
    case (Inr n)
    have "\<Union> {set c | c m. (c, Inr m) \<in> set ((chunk, r) # rest)} = set chunk \<union> \<Union> {set c | c m. (c, Inr m) \<in> set rest}"
      using Inr by auto
    then show ?thesis using "2.IH"(2) [OF Inr] Inr by auto
  qed
qed simp

lemma acks_settleD:
  assumes "acks_settle R settled"
  shows "stays settled w (snd (Clock R w))"
    "ExecXAcks R ctx cmds w = ((e, rs), w') \<Longrightarrow> length rs = length cmds"
    "ExecXAcks R ctx cmds w = ((e, rs), w') \<Longrightarrow> stays settled w w'"
    "ExecXAcks R ctx cmds w = ((e, rs), w') \<Longrightarrow> ((st, grp, ids), Inr n) \<in> set (zip cmds rs) \<Longrightarrow> set ids \<subseteq> settled w' st grp"
  using assms unfolding acks_settle_def by (metis prod.collapse, blast, blast, blast)

lemma time_now_settles:
  assumes "acks_settle (redis s) settled"
  shows "stays settled (world s) (world (snd (time_now s)))" "stays settled (world s) (world (snd (time_since t s)))"
  using acks_settleD(1) [OF assms] by (simp_all add: time_now_def time_since_def Let_def split_def)

text \<open>What a flush may do to the pending set: remove settled identifiers only.\<close>

definition settles :: "'w settled \<Rightarrow> streamDispatcher \<Rightarrow> string set \<Rightarrow> 'w sidecar \<Rightarrow> string set \<Rightarrow> 'w sidecar \<Rightarrow> bool" where
  "settles settled d P s P' s' \<longleftrightarrow> redis s' = redis s \<and> stays settled (world s) (world s') \<and> P' \<subseteq> P \<and>
     P - P' \<subseteq> settled (world s') (dStreamName d) (dConsumerGroup d)"

lemma settles_refl: "stays settled (world s) (world s') \<Longrightarrow> redis s' = redis s \<Longrightarrow> settles settled d P s P s'"
  by (simp add: settles_def)

lemma settles_trans: "settles settled d P s P1 s1 \<Longrightarrow> settles settled d P1 s1 P2 s2 \<Longrightarrow> settles settled d P s P2 s2"
  unfolding settles_def
proof (elim conjE, intro conjI)
  assume "stays settled (world s) (world s1)" "stays settled (world s1) (world s2)"
  then show "stays settled (world s) (world s2)" by (rule stays_trans)
  assume "P - P1 \<subseteq> settled (world s1) (dStreamName d) (dConsumerGroup d)" "P1 - P2 \<subseteq> settled (world s2) (dStreamName d) (dConsumerGroup d)"
  then show "P - P2 \<subseteq> settled (world s2) (dStreamName d) (dConsumerGroup d)"
    using staysD [OF \<open>stays settled (world s1) (world s2)\<close>, of "dStreamName d" "dConsumerGroup d"] by blast
qed auto

lemma settles_on_collector [simp]: "settles settled d P s P' (on_collector f s') = settles settled d P s P' s'"
  by (simp add: settles_def)

lemma zip_chunks_command:
  "(chunk, r) \<in> set (zip chunks cmds) \<Longrightarrow> ((dStreamName d, dConsumerGroup d, chunk), r) \<in> set (zip (ack_commands d chunks) cmds)"
  by (force simp: ack_commands_def set_zip)

text \<open>The outcome of one pipeline of \<open>XACK\<close> commands, without its clock readings.\<close>

lemma flushAckChunkBatch_result:
  fixes s :: "'w sidecar"
  assumes "flushAckChunkBatch d chunks P s = ((err, P'), s')" "chunks \<noteq> []"
  obtains execErr cmds w s2 t where
    "ExecXAcks (redis s) ackFlushCtx (ack_commands d chunks) (world (snd (time_now s))) = ((execErr, cmds), w)"
    "err = (case execErr of None \<Rightarrow> None | Some e \<Rightarrow> if errors_Is e RedisNil then None else Some e)"
    "P' = (if err = None then P - \<Union> {set chunk | chunk n. (chunk, Inr n) \<in> set (zip chunks cmds)} else P)"
    "world (s2 :: 'w sidecar) = w" "redis s2 = redis s" "world s' = world (snd (time_since t s2))" "redis s' = redis s"
proof -
  obtain t s1 where n: "time_now s = (t, s1)" by fastforce
  obtain execErr cmds w where x: "ExecXAcks (redis s1) ackFlushCtx (ack_commands d chunks) (world s1) = ((execErr, cmds), w)"
    by (metis prod_cases3 surj_pair)
  let ?s2 = "s1\<lparr>world := w\<rparr>"
  define failed where "failed = (case execErr of None \<Rightarrow> None | Some e \<Rightarrow> if errors_Is e RedisNil then None else Some e)"
  define s3 where "s3 = (if failed = None then snd (ack_results (zip chunks cmds) P ?s2) else ?s2)"
  have f: "flushAckChunkBatch d chunks P s =
      ((failed, if failed = None then fst (ack_results (zip chunks cmds) P ?s2) else P),
       observeDispatcherAckExecDuration (fst (time_since t s3)) (snd (time_since t s3)))"
    using assms(2) n x unfolding flushAckChunkBatch_def failed_def s3_def
    by (auto simp: Let_def split_def split: option.splits)
  have w: "world s3 = w" "redis s3 = redis s" using redis_frame(1) [OF n] by (simp_all add: s3_def)
  show thesis
  proof (rule that)
    show "ExecXAcks (redis s) ackFlushCtx (ack_commands d chunks) (world (snd (time_now s))) = ((execErr, cmds), w)"
      using x n redis_frame(1) [OF n] by simp
    show "err = (case execErr of None \<Rightarrow> None | Some e \<Rightarrow> if errors_Is e RedisNil then None else Some e)"
      using f assms(1) by (simp add: failed_def)
    show "P' = (if err = None then P - \<Union> {set chunk | chunk n. (chunk, Inr n) \<in> set (zip chunks cmds)} else P)"
      using f assms(1) ack_results_pending [of "zip chunks cmds" P ?s2] by auto
    show "world s3 = w" "redis s3 = redis s" by (rule w)+
    show "world s' = world (snd (time_since t s3))" "redis s' = redis s" using f assms(1) w by auto
  qed
qed

lemma flushAckChunkBatch_settles:
  fixes s :: "'w sidecar"
  assumes "acks_settle (redis s) settled" "flushAckChunkBatch d chunks P s = ((err, P'), s')"
  shows "settles settled d P s P' s'"
proof (cases "chunks = []")
  case True
  then show ?thesis using assms(2) by (simp add: flushAckChunkBatch_def settles_def)
next
  case False
  obtain execErr cmds w t and s2 :: "'w sidecar" where
    x: "ExecXAcks (redis s) ackFlushCtx (ack_commands d chunks) (world (snd (time_now s))) = ((execErr, cmds), w)" and
    P': "P' = (if err = None then P - \<Union> {set chunk | chunk n. (chunk, Inr n) \<in> set (zip chunks cmds)} else P)" and
    w: "world s2 = w" "redis s2 = redis s" "world s' = world (snd (time_since t s2))" and R: "redis s' = redis s"
    by (rule flushAckChunkBatch_result [OF assms(2) False])
  have last: "stays settled w (world s')" using time_now_settles(2) [of s2 settled t] assms(1) w by simp
  have st: "stays settled (world s) (world s')"
    using stays_trans [OF stays_trans [OF time_now_settles(1) [OF assms(1)] acks_settleD(3) [OF assms(1) x]] last] .
  have "set chunk \<subseteq> settled (world s') (dStreamName d) (dConsumerGroup d)" if "(chunk, Inr n) \<in> set (zip chunks cmds)" for chunk n
    using acks_settleD(4) [OF assms(1) x zip_chunks_command [OF that]] staysD [OF last] by blast
  then show ?thesis unfolding settles_def P' using R st by auto
qed

lemma flush_batches_settles:
  fixes s :: "'w sidecar"
  assumes "acks_settle (redis s) settled" "flush_batches d n chunks P s = (b, P', s')"
  shows "settles settled d P s P' s'"
  using assms
proof (induction d n chunks P s rule: flush_batches.induct)
  case (1 d n chunks P s)
  show ?case
  proof (cases "chunks = [] \<or> n = 0")
    case True
    then show ?thesis using "1.prems"(2) by (auto simp: flush_batches.simps [of d n chunks] settles_def)
  next
    case False
    obtain err P1 s1 where f: "flushAckChunkBatch d (take n chunks) P s = ((err, P1), s1)" by (metis prod_cases3 surj_pair)
    note S = flushAckChunkBatch_settles [OF "1.prems"(1) f]
    show ?thesis
    proof (cases err)
      case None
      then have r: "flush_batches d n (drop n chunks) P1 s1 = (b, P', s')"
        using "1.prems"(2) False f by (simp add: flush_batches.simps [of d n chunks])
      have "acks_settle (redis s1) settled" using S "1.prems"(1) by (simp add: settles_def)
      from "1.IH" [OF False f [symmetric] refl None this r] show ?thesis by (rule settles_trans [OF S])
    next
      case (Some e)
      then show ?thesis using "1.prems"(2) False f S by (auto simp: flush_batches.simps [of d n chunks])
    qed
  qed
qed

lemma ack_flush_eq:
  assumes "P \<noteq> {}" "chunkStringSlice (sorted_list_of_set P) (dAckBatchSize d) = Some chunks"
    and "flush_batches d (nat (batch_chunks d)) chunks P (snd (time_now s)) = (c, P1, s2)"
  obtains n' s' where "ack_flush d P n s = Some (P1, n', s')" "c \<Longrightarrow> n' = int (card P1)" "redis s' = redis s2"
    "world s' = (if c then world (snd (time_since (fst (time_now s)) s2)) else world s2)"
proof (cases c)
  case True
  obtain a b where ab: "countContiguousAckSpans (sorted_list_of_set P) = (a, b)" by fastforce
  define s3 where "s3 = observeDispatcherAckCompression n (int (length (sorted_list_of_set P))) a b s2"
  let ?r = "time_since (fst (time_now s)) s3"
  have w: "world (snd ?r) = world (snd (time_since (fst (time_now s)) s2))"
    by (simp add: s3_def time_since_def time_now_def Let_def split_def)
  show thesis
    by (rule that [of "int (card P1)" "observeDispatcherAckFlush (fst ?r) (int (length chunks)) (snd ?r)"])
      (use assms True ab in \<open>simp_all add: ack_flush_def Let_def split_def w, simp_all add: s3_def\<close>)
next
  case False
  show thesis by (rule that [of n s2]) (use assms False in \<open>simp_all add: ack_flush_def Let_def split_def\<close>)
qed

lemma ack_flush_settles:
  fixes s :: "'w sidecar"
  assumes "acks_settle (redis s) settled" "ack_flush d P n s = Some (P', n', s')"
  shows "settles settled d P s P' s'"
proof (cases "P = {}")
  case True
  then show ?thesis using assms(2) by (auto simp: ack_flush_def settles_def)
next
  case False
  let ?s1 = "snd (time_now s)"
  have S1: "settles settled d P s P ?s1" using time_now_settles(1) [OF assms(1)] by (intro settles_refl) simp_all
  obtain chunks where c: "chunkStringSlice (sorted_list_of_set P) (dAckBatchSize d) = Some chunks"
    using assms(2) False by (auto simp: ack_flush_def Let_def split_def split: option.splits)
  obtain b P1 s2 where f: "flush_batches d (nat (batch_chunks d)) chunks P ?s1 = (b, P1, s2)" by (metis prod_cases3)
  have S2: "settles settled d P ?s1 P1 s2" using flush_batches_settles [OF _ f, of settled] assms(1) by simp
  have "acks_settle (redis s2) settled" using assms(1) S1 S2 by (simp add: settles_def)
  note T = time_now_settles(2) [OF this, of "fst (time_now s)"]
  show ?thesis
  proof (rule ack_flush_eq [OF False c f, of n])
    fix n1 s3
    assume "ack_flush d P n s = Some (P1, n1, s3)" and R: "redis s3 = redis s2"
      "world s3 = (if b then world (snd (time_since (fst (time_now s)) s2)) else world s2)"
    then have eq: "P' = P1" "s' = s3" using assms(2) by simp_all
    have "settles settled d P1 s2 P1 s3" by (rule settles_refl) (use R T in \<open>simp_all split: if_splits\<close>)
    then show ?thesis unfolding eq using settles_trans [OF S1 S2] by (rule settles_trans [rotated])
  qed
qed

section \<open>Accepted acknowledgements are not lost\<close>

definition queued_ids :: "streamDispatcher \<Rightarrow> string set" where
  "queued_ids d = set (concat (dAckQueue d))"

definition settled_ids :: "'w settled \<Rightarrow> 'w ack_state \<Rightarrow> string set" where
  "settled_ids settled x = settled (world (akSide x)) (dStreamName (akDisp x)) (dConsumerGroup (akDisp x))"

definition ack_inv :: "'w settled \<Rightarrow> 'w ack_state \<Rightarrow> bool" where
  "ack_inv settled x \<longleftrightarrow> acks_settle (redis (akSide x)) settled \<and> finite (akPending x) \<and>
     akAccepted x \<subseteq> queued_ids (akDisp x) \<union> akPending x \<union> settled_ids settled x \<and>
     int (length (dAckQueue (akDisp x))) \<le> max 0 (dAckQueueSize (akDisp x))"

definition ack_init :: "'w settled \<Rightarrow> 'w ack_state \<Rightarrow> bool" where
  "ack_init settled x \<longleftrightarrow> acks_settle (redis (akSide x)) settled \<and> akPending x = {} \<and> akAccepted x = {} \<and>
     dAckQueue (akDisp x) = [] \<and> akPc x = AckSelect"

lemma ack_invD:
  assumes "ack_inv settled x"
  shows "acks_settle (redis (akSide x)) settled" "finite (akPending x)"
    "akAccepted x \<subseteq> queued_ids (akDisp x) \<union> akPending x \<union> settled_ids settled x"
    "int (length (dAckQueue (akDisp x))) \<le> max 0 (dAckQueueSize (akDisp x))"
  using assms unfolding ack_inv_def by blast+

lemma take_acks_inv:
  assumes "ack_inv settled x" "dAckQueue (akDisp x) = ids # q"
  shows "ack_inv settled (take_acks ids q x)"
  using assms by (auto simp: ack_inv_def take_acks_def add_pending_def queued_ids_def settled_ids_def)

lemma run_flush_inv:
  assumes "ack_inv settled x" "run_flush x = Some y"
  shows "ack_inv settled y" "akDisp y = akDisp x" "akAccepted y = akAccepted x"
proof -
  note I = ack_invD [OF assms(1)]
  from assms(2) obtain P n s where f: "ack_flush (akDisp x) (akPending x) (akInput x) (akSide x) = Some (P, n, s)"
    and y: "y = x\<lparr>akPending := P, akInput := n, akSide := s\<rparr>"
    by (auto simp: run_flush_def split: option.splits)
  note S = ack_flush_settles [OF I(1) f, unfolded settles_def]
  have "settled_ids settled x \<subseteq> settled_ids settled y" using S by (simp add: settled_ids_def y stays_def)
  moreover have "akPending x \<subseteq> P \<union> settled_ids settled y" using S by (auto simp: settled_ids_def y)
  ultimately have "akAccepted x \<subseteq> queued_ids (akDisp x) \<union> P \<union> settled_ids settled y" using I(3) by blast
  then show "ack_inv settled y" using I S finite_subset [of P "akPending x"] by (simp add: ack_inv_def y)
  show "akDisp y = akDisp x" "akAccepted y = akAccepted x" by (simp_all add: y)
qed

lemma queueAck_cases:
  assumes "queueAck pickDone ids d s = (r, d', s')"
  obtains (refused) e where "r = Inl e" "d' = d" "s' = s"
  | (queued) "r = Inr (int (length (clean_ids ids)))" "d' = d\<lparr>dAckQueue := dAckQueue d @ [clean_ids ids]\<rparr>" "clean_ids ids \<noteq> []"
      "int (length (dAckQueue d)) < dAckQueueSize d" "s' = observeDispatcherAckQueueDepth (int (length (dAckQueue d'))) s"
  using assms by (auto simp: queueAck_def Let_def split: if_splits)

lemma ack_pc_inv [simp]: "ack_inv settled (x\<lparr>akPc := p\<rparr>) = ack_inv settled x"
  by (simp add: ack_inv_def settled_ids_def)

lemma ack_loop_inv: "ack_loop_step x y \<Longrightarrow> ack_inv settled x \<Longrightarrow> ack_inv settled y"
  by (induction rule: ack_loop_step.induct) (auto intro: take_acks_inv run_flush_inv)

lemma ack_step_inv: "ack_step settled x y \<Longrightarrow> ack_inv settled x \<Longrightarrow> ack_inv settled y"
proof (induction rule: ack_step.induct)
  case (ack_goroutine x y)
  then show ?case by (rule ack_loop_inv)
next
  case (ack_caller pickDone ids x r d s)
  note I = ack_invD [OF ack_caller(2)]
  from ack_caller(1) show ?case
  proof (cases rule: queueAck_cases)
    case refused
    then show ?thesis using I by (simp add: ack_inv_def settled_ids_def)
  next
    case queued
    then show ?thesis using I by (auto simp: ack_inv_def settled_ids_def queued_ids_def)
  qed
next
  case (ack_cancel x)
  then show ?case by (simp add: ack_inv_def settled_ids_def queued_ids_def)
next
  case (ack_others x w c)
  note I = ack_invD [OF ack_others(2)]
  have "settled_ids settled x \<subseteq> settled w (dStreamName (akDisp x)) (dConsumerGroup (akDisp x))"
    using ack_others(1) by (simp add: settled_ids_def stays_def)
  then show ?case using I by (auto simp: ack_inv_def settled_ids_def)
qed

interpretation ack_machine: transition_system "ack_init settled" "ack_step settled" "ack_inv settled" for settled
proof
  show "ack_inv settled x" if "ack_init settled x" for x :: "'a ack_state" using that by (simp add: ack_init_def ack_inv_def)
  show "ack_inv settled y" if "ack_inv settled x" "ack_step settled x y" for x y :: "'a ack_state" using that(2,1) by (rule ack_step_inv)
qed

text \<open>C11. Acknowledgements that were accepted are not lost: under every interleaving of callers, the ack loop,
  failing flushes and the end of the dispatcher's context, an identifier that \<open>queueAck\<close> accepted is in the queue, in
  the pending set, or acknowledged in Redis; and the queue stays within its size.\<close>

theorem acks_never_lost:
  assumes "ack_init settled x" "(ack_step settled)\<^sup>*\<^sup>* x y"
  shows "akAccepted y \<subseteq> queued_ids (akDisp y) \<union> akPending y \<union> settled_ids settled y \<and>
    int (length (dAckQueue (akDisp y))) \<le> max 0 (dAckQueueSize (akDisp y))"
  using ack_invD(3,4) [OF ack_machine.reachable_inv [OF assms]] by blast

section \<open>Flushing while Redis answers\<close>

definition acks_succeed :: "'w redis \<Rightarrow> bool" where
  "acks_succeed R \<longleftrightarrow> (\<forall>ctx cmds w. \<exists>ns w'. ExecXAcks R ctx cmds w = ((None, map Inr ns), w') \<and> length ns = length cmds)"

lemma zip_all_success:
  fixes ns :: "int list"
  assumes "length ns = length chunks"
  shows "\<Union> {set chunk | chunk n. (chunk, Inr n :: int go_result) \<in> set (zip chunks (map Inr ns))} = set (concat chunks)"
proof -
  have "chunk \<in> set chunks \<longleftrightarrow> (\<exists>n. (chunk, Inr n :: int go_result) \<in> set (zip chunks (map Inr ns)))" for chunk
    using assms by (force simp: set_zip in_set_conv_nth)
  then have "{set chunk | chunk n. (chunk, Inr n :: int go_result) \<in> set (zip chunks (map Inr ns))} = set ` set chunks" by blast
  then show ?thesis by simp
qed

lemma flushAckChunkBatch_success:
  assumes "acks_succeed (redis s)"
  obtains s' where "flushAckChunkBatch d chunks P s = ((None, P - set (concat chunks)), s')" "redis s' = redis s"
proof (cases "chunks = []")
  case True
  then show thesis by (intro that [of s]) (simp_all add: flushAckChunkBatch_def)
next
  case False
  obtain err P' s' where f: "flushAckChunkBatch d chunks P s = ((err, P'), s')" by (metis prod_cases3 surj_pair)
  obtain execErr cmds w where
    x: "ExecXAcks (redis s) ackFlushCtx (ack_commands d chunks) (world (snd (time_now s))) = ((execErr, cmds), w)" and
    e: "err = (case execErr of None \<Rightarrow> None | Some e \<Rightarrow> if errors_Is e RedisNil then None else Some e)" and
    P': "P' = (if err = None then P - \<Union> {set chunk | chunk n. (chunk, Inr n) \<in> set (zip chunks cmds)} else P)" and R: "redis s' = redis s"
    by (rule flushAckChunkBatch_result [OF f False])
  from assms x obtain ns where ns: "execErr = None" "cmds = map Inr ns" "length ns = length (ack_commands d chunks)"
    unfolding acks_succeed_def by (metis Pair_inject)
  then have len: "length ns = length chunks" by (simp add: ack_commands_def)
  have "err = None" using e ns by simp
  moreover from this have "P' = P - set (concat chunks)" using P' zip_all_success [OF len] ns(2) by simp
  ultimately show thesis using f R by (intro that [of s']) simp_all
qed

lemma flush_batches_success:
  assumes "acks_succeed (redis s)" "0 < n"
  shows "\<exists>s'. flush_batches d n chunks P s = (True, P - set (concat chunks), s')"
  using assms
proof (induction d n chunks P s rule: flush_batches.induct)
  case (1 d n chunks P s)
  show ?case
  proof (cases "chunks = []")
    case True
    then show ?thesis by (simp add: flush_batches.simps)
  next
    case False
    obtain s1 where f: "flushAckChunkBatch d (take n chunks) P s = ((None, P - set (concat (take n chunks))), s1)"
      and R: "redis s1 = redis s" by (rule flushAckChunkBatch_success [OF "1.prems"(1)])
    have "\<not> (chunks = [] \<or> n = 0)" using False "1.prems"(2) by simp
    from "1.IH" [OF this f [symmetric] refl refl] R "1.prems" obtain s' where
      r: "flush_batches d n (drop n chunks) (P - set (concat (take n chunks))) s1 =
        (True, P - set (concat (take n chunks)) - set (concat (drop n chunks)), s')" by auto
    have "set (concat (take n chunks)) \<union> set (concat (drop n chunks)) = set (concat chunks)"
      by (metis append_take_drop_id concat_append set_append)
    then have "P - set (concat (take n chunks)) - set (concat (drop n chunks)) = P - set (concat chunks)" by blast
    with r f False "1.prems"(2) show ?thesis by (simp add: flush_batches.simps [of d n chunks])
  qed
qed

lemma ack_flush_all:
  assumes "finite P" "acks_settle (redis s) settled" "acks_succeed (redis s)"
    and "0 < dAckBatchSize d" "dAckBatchSize d \<le> MaxInt" "int (card P) + dAckBatchSize d - 1 \<le> MaxInt"
  shows "\<exists>n' s' chunks. ack_flush d P n s = Some ({}, n', s') \<and> P \<subseteq> settled (world s') (dStreamName d) (dConsumerGroup d) \<and>
    chunkStringSlice (sorted_list_of_set P) (dAckBatchSize d) = Some chunks \<and> concat chunks = sorted_list_of_set P \<and>
    (\<forall>c\<in>set chunks. int (length c) \<le> dAckBatchSize d)"
proof -
  from chunkStringSlice_fits [OF assms(4,5), of "sorted_list_of_set P"] assms(6)
  have c: "chunkStringSlice (sorted_list_of_set P) (dAckBatchSize d) = Some (chunk_loop (nat (dAckBatchSize d)) (sorted_list_of_set P))"
    (is "_ = Some ?chunks") by simp
  have cc: "concat ?chunks = sorted_list_of_set P" "\<forall>c\<in>set ?chunks. int (length c) \<le> dAckBatchSize d"
    using assms(4) chunk_loop_sizes by (force, force)
  have "\<exists>n' s'. ack_flush d P n s = Some ({}, n', s')"
  proof (cases "P = {}")
    case True
    then show ?thesis by (simp add: ack_flush_def)
  next
    case False
    have "0 < nat (batch_chunks d)" by (simp add: batch_chunks_def Let_def)
    from flush_batches_success [OF _ this, of "snd (time_now s)" d ?chunks P] assms(3) obtain s2 where
      "flush_batches d (nat (batch_chunks d)) ?chunks P (snd (time_now s)) = (True, P - set (concat ?chunks), s2)" by auto
    moreover have "P - set (concat ?chunks) = {}" unfolding cc(1) using assms(1) by simp
    ultimately have "flush_batches d (nat (batch_chunks d)) ?chunks P (snd (time_now s)) = (True, {}, s2)" by simp
    from ack_flush_eq [OF False c this, of n] show ?thesis by metis
  qed
  then obtain n' s' where f: "ack_flush d P n s = Some ({}, n', s')" by blast
  have "P \<subseteq> settled (world s') (dStreamName d) (dConsumerGroup d)"
    using ack_flush_settles [OF assms(2) f] by (simp add: settles_def)
  with f c cc show ?thesis by blast
qed

text \<open>Remark. A flush acknowledges everything that is pending when Redis answers: it returns with nothing pending and every
  identifier acknowledged on the dispatcher's stream and group; the identifiers go out in sorted order, each once, in
  chunks of at most the batch size.\<close>

theorem ack_flush_acknowledges_all:
  assumes "finite P" "acks_settle (redis s) settled" "acks_succeed (redis s)"
    and "0 < dAckBatchSize d" "dAckBatchSize d \<le> MaxInt" "int (card P) + dAckBatchSize d - 1 \<le> MaxInt"
  shows "\<exists>n' s' chunks. ack_flush d P n s = Some ({}, n', s') \<and> P \<subseteq> settled (world s') (dStreamName d) (dConsumerGroup d) \<and>
    chunkStringSlice (sorted_list_of_set P) (dAckBatchSize d) = Some chunks \<and> concat chunks = sorted_list_of_set P \<and>
    (\<forall>c\<in>set chunks. int (length c) \<le> dAckBatchSize d)"
  by (rule ack_flush_all [OF assms])

section \<open>Shutting down\<close>

lemma ack_drain_run:
  "akPc x = AckDraining a \<Longrightarrow> \<exists>y. ack_loop_step\<^sup>*\<^sup>* x y \<and> akPc y = AckDraining a \<and> dAckQueue (akDisp y) = [] \<and>
     akPending y = akPending x \<union> queued_ids (akDisp x) \<and> akDisp y = (akDisp x)\<lparr>dAckQueue := []\<rparr> \<and> akSide y = akSide x \<and> akAccepted y = akAccepted x"
proof (induction "dAckQueue (akDisp x)" arbitrary: x)
  case Nil
  then have "akDisp x = (akDisp x)\<lparr>dAckQueue := []\<rparr>" by (cases "akDisp x") simp
  with Nil show ?case by (intro exI [of _ x]) (simp add: queued_ids_def)
next
  case (Cons ids q)
  let ?x1 = "take_acks ids q x"
  have st: "ack_loop_step x ?x1" using Cons by (intro ack_drain) simp_all
  have x1: "akPc ?x1 = AckDraining a" "q = dAckQueue (akDisp ?x1)" "akPending ?x1 = akPending x \<union> set ids"
    "akDisp ?x1 = (akDisp x)\<lparr>dAckQueue := q\<rparr>" "akSide ?x1 = akSide x" "akAccepted ?x1 = akAccepted x"
    using Cons by (simp_all add: take_acks_def add_pending_def)
  from Cons.hyps(1) [OF x1(2,1)] obtain y where y: "ack_loop_step\<^sup>*\<^sup>* ?x1 y" "akPc y = AckDraining a" "dAckQueue (akDisp y) = []"
    "akPending y = akPending ?x1 \<union> queued_ids (akDisp ?x1)" "akDisp y = (akDisp ?x1)\<lparr>dAckQueue := []\<rparr>" "akSide y = akSide ?x1"
    "akAccepted y = akAccepted ?x1"
    by blast
  have "queued_ids (akDisp x) = set ids \<union> queued_ids (akDisp ?x1)" using Cons.hyps(2) x1(4) by (simp add: queued_ids_def flip: Cons.hyps(2))
  then show ?case using y x1 converse_rtranclp_into_rtranclp [of ack_loop_step, OF st y(1)] by (intro exI [of _ y]) auto
qed


text \<open>Remark. After the loop has returned nothing takes acknowledgements from the queue any more, yet \<open>queueAck\<close> can still
  accept them when \<open>select\<close> prefers the free queue to the ended context: a caller that looked the dispatcher up
  before it was stopped is told that its acknowledgements were accepted.\<close>

theorem late_ack_stays_queued:
  assumes "dDone d" "int (length (dAckQueue d)) < dAckQueueSize d" "clean_ids ids \<noteq> []"
  shows "fst (queueAck False ids d s) = Inr (int (length (clean_ids ids))) \<and> (akPc x = AckReturned \<longrightarrow> \<not> ack_loop_step x y)"
  using assms by (auto simp: queueAck_def Let_def elim: ack_loop_stepE)

section \<open>Examples\<close>

definition ack_redis :: "mem_world redis" where
  "ack_redis = mem_redis\<lparr>ExecXAcks := (\<lambda>ctx cmds w.
     ((None, map Inr (map (\<lambda>(st, grp, ids). int (length ids)) cmds)), w\<lparr>memAcked := memAcked w @ cmds\<rparr>))\<rparr>"

definition mem_settled :: "mem_world settled" where
  "mem_settled w st grp = {i. \<exists>ids. (st, grp, ids) \<in> set (memAcked w) \<and> i \<in> set ids}"

lemma ack_redis_ok: "acks_settle ack_redis mem_settled" "acks_succeed ack_redis"
proof -
  show "acks_settle ack_redis mem_settled"
    by (auto simp: acks_settle_def ack_redis_def mem_settled_def stays_def mem_redis_def dest: set_zip_leftD)
  show "acks_succeed ack_redis"
    unfolding acks_succeed_def
  proof (intro allI)
    fix ctx cmds w
    show "\<exists>ns w'. ExecXAcks ack_redis ctx cmds w = ((None, map Inr ns), w') \<and> length ns = length cmds"
      by (intro exI [of _ "map (\<lambda>(st, grp, ids). int (length ids)) cmds"] exI [of _ "w\<lparr>memAcked := memAcked w @ cmds\<rparr>"])
        (simp add: ack_redis_def)
  qed
qed

definition sample_ack :: "mem_world ack_state" where
  "sample_ack = \<lparr>akDisp = small_dispatcher, akPending = {}, akInput = 0, akPc = AckSelect,
     akSide = (sample_sidecar False)\<lparr>redis := ack_redis\<rparr>, akAccepted = {}\<rparr>"

definition sample_queued :: "mem_world ack_state" where
  "sample_queued = (let (r, d, s) = queueAck False [''1-1'', '' 1-2 ''] (akDisp sample_ack) (akSide sample_ack)
     in sample_ack\<lparr>akDisp := d, akSide := s, akAccepted := {''1-1'', ''1-2''}\<rparr>)"

lemma small_dispatcher_acks:
  "dAckQueue small_dispatcher = []" "dAckQueueSize small_dispatcher = 1024" "dAckBatchSize small_dispatcher = 64" "\<not> dDone small_dispatcher"
  "dStreamName small_dispatcher = ''s''" "dConsumerGroup small_dispatcher = ''g''"
  by (simp_all add: small_dispatcher_def disp_start_def newStreamDispatcher_def sample_cfg_def)

lemma sample_clean: "clean_ids [''1-1'', '' 1-2 ''] = [''1-1'', ''1-2'']"
  by code_simp

lemma sample_ack_init: "ack_init mem_settled sample_ack"
  by (simp add: ack_init_def sample_ack_def ack_redis_ok small_dispatcher_acks)

lemma sample_queued_eq:
  "sample_queued = sample_ack\<lparr>akDisp := small_dispatcher\<lparr>dAckQueue := [[''1-1'', ''1-2'']]\<rparr>,
     akSide := observeDispatcherAckQueueDepth 1 (akSide sample_ack), akAccepted := {''1-1'', ''1-2''}\<rparr>"
  by (simp add: sample_queued_def queueAck_def sample_clean sample_ack_def small_dispatcher_acks Let_def)

lemma sample_queued_reachable: "(ack_step mem_settled)\<^sup>*\<^sup>* sample_ack sample_queued"
proof (rule r_into_rtranclp)
  have "queueAck False [''1-1'', '' 1-2 ''] (akDisp sample_ack) (akSide sample_ack) =
      (Inr 2, small_dispatcher\<lparr>dAckQueue := [[''1-1'', ''1-2'']]\<rparr>, observeDispatcherAckQueueDepth 1 (akSide sample_ack))"
    by (simp add: queueAck_def sample_clean sample_ack_def small_dispatcher_acks Let_def)
  from ack_caller [OF this, of mem_settled] show "ack_step mem_settled sample_ack sample_queued"
    by (simp add: sample_clean sample_queued_eq sample_ack_def)
qed

theorem acks_never_lost_witness:
  "(ack_step mem_settled)\<^sup>*\<^sup>* sample_ack sample_queued \<and>
   {''1-1'', ''1-2''} \<subseteq> queued_ids (akDisp sample_queued) \<union> akPending sample_queued \<union> settled_ids mem_settled sample_queued"
  using acks_never_lost [OF sample_ack_init sample_queued_reachable] sample_queued_reachable by (simp add: sample_queued_eq)

theorem ack_flush_acknowledges_all_witness:
  "\<exists>n' s'. ack_flush small_dispatcher {''1-1'', ''1-2''} 2 (akSide sample_ack) = Some ({}, n', s') \<and>
     {''1-1'', ''1-2''} \<subseteq> mem_settled (world s') ''s'' ''g''"
  using ack_flush_acknowledges_all [of "{''1-1'', ''1-2''}" "akSide sample_ack" mem_settled small_dispatcher 2] ack_redis_ok
  by (auto simp: sample_ack_def small_dispatcher_acks)


end
