(* ===== verification/Dispatcher_Manager.thy ===== *)
theory Dispatcher_Manager
  imports Dispatcher_Acks
begin

text \<open>
  \<open>internal/service/dispatcher.go\<close>, \<open>consumeDispatcherManager\<close>: the registry of dispatchers by stream and group, and the
  life of a dispatcher from the first subscriber to the last.

  Dispatchers are compared by identity in the source (\<open>removeIfSame\<close>), so they live in a store \<open>mObjs\<close> and the map holds
  indices into it.  \<open>mDispatchers\<close> are the entries of the map in the order of one iteration.
\<close>

section \<open>State\<close>

record consumeDispatcherManager =
  mDispatchers :: "(string \<times> nat) list"
  mClosed :: bool
  mObjs :: "streamDispatcher list"

record dispatcherSubscription =
  subDispatcher :: nat
  subID :: uint64

definition newConsumeDispatcherManager :: consumeDispatcherManager where
  "newConsumeDispatcherManager = \<lparr>mDispatchers = [], mClosed = False, mObjs = []\<rparr>"

definition on_obj :: "nat \<Rightarrow> (streamDispatcher \<Rightarrow> streamDispatcher) \<Rightarrow> consumeDispatcherManager \<Rightarrow> consumeDispatcherManager" where
  "on_obj p f m = m\<lparr>mObjs := (mObjs m)[p := f (mObjs m ! p)]\<rparr>"

definition manager_Count :: "consumeDispatcherManager \<Rightarrow> int" where
  "manager_Count m = int (length (mDispatchers m))"

definition manager_SubscriberCount :: "consumeDispatcherManager \<Rightarrow> int" where
  "manager_SubscriberCount m = fold (\<lambda>(_, p) total. total + subscriberCount (mObjs m ! p)) (mDispatchers m) 0"

definition manager_Close :: "consumeDispatcherManager \<Rightarrow> consumeDispatcherManager" where
  "manager_Close m =
     (if mClosed m then m
      else fold (\<lambda>(_, p). on_obj p disp_stop) (mDispatchers m) (m\<lparr>mClosed := True, mDispatchers := []\<rparr>))"

section \<open>Finding or creating a dispatcher\<close>

definition getOrCreate ::
  "Config \<Rightarrow> string \<Rightarrow> string \<Rightarrow> int \<Rightarrow> int \<Rightarrow> consumeDispatcherManager \<Rightarrow> nat go_result \<times> consumeDispatcherManager" where
  "getOrCreate c streamName consumerGroup readCount blockMS m =
     (let key = dispatcherKey streamName consumerGroup
      in if mClosed m then (Inl ErrDispatcherClosed, m)
         else case map_of (mDispatchers m) key of
           Some existing \<Rightarrow> (Inr existing, m)
         | None \<Rightarrow>
             (let p = length (mObjs m);
                  d = newStreamDispatcher c streamName consumerGroup readCount blockMS
              in (Inr p, m\<lparr>mObjs := mObjs m @ [disp_start d], mDispatchers := mDispatchers m @ [(key, p)]\<rparr>)))"

definition disp_subscribe :: "nat \<Rightarrow> consumeDispatcherManager \<Rightarrow> dispatcherSubscription \<times> consumeDispatcherManager" where
  "disp_subscribe p m =
     (let (i, d) = subscribe (mObjs m ! p) in (\<lparr>subDispatcher = p, subID = i\<rparr>, m\<lparr>mObjs := (mObjs m)[p := d]\<rparr>))"

definition manager_Subscribe ::
  "Config \<Rightarrow> readRequest \<Rightarrow> consumeDispatcherManager \<Rightarrow> dispatcherSubscription go_result \<times> consumeDispatcherManager" where
  "manager_Subscribe c req0 m =
     (let req = req0\<lparr>rrStream := TrimSpace (rrStream req0), rrConsumerGroup := TrimSpace (rrConsumerGroup req0)\<rparr>
      in if rrStream req = '''' \<or> rrConsumerGroup req = ''''
         then (Inl (ErrMsg ''stream and consumer_group are required''), m)
         else if \<not> IsStreamAllowed (ConsumeStreams c) (rrStream req)
         then (Inl (ErrMsg ''stream not allowed for this sugar glider''), m)
         else (let readCount = (if rrCount req \<le> 0 then DispatcherReadCount c else rrCount req);
                   blockMS = (if rrBlockMS req \<le> 0 then DispatcherBlockMS c else rrBlockMS req)
               in case getOrCreate c (rrStream req) (rrConsumerGroup req) readCount blockMS m of
                    (Inl err, m1) \<Rightarrow> (Inl err, m1)
                  | (Inr p, m1) \<Rightarrow> (let (sub, m2) = disp_subscribe p m1 in (Inr sub, m2))))"

definition manager_QueueAck ::
  "bool \<Rightarrow> ackRequest \<Rightarrow> consumeDispatcherManager \<Rightarrow> 'w sidecar \<Rightarrow> int go_result \<times> consumeDispatcherManager \<times> 'w sidecar" where
  "manager_QueueAck pickDone req0 m s =
     (let req = req0\<lparr>arStream := TrimSpace (arStream req0), arConsumerGroup := TrimSpace (arConsumerGroup req0)\<rparr>
      in if arStream req = '''' \<or> arConsumerGroup req = '''' \<or> length (arEntryIDs req) = 0
         then (Inl (ErrMsg ''stream, consumer_group, and entry_ids are required''), m, s)
         else if \<not> IsStreamAllowed (ConsumeStreams (cfg s)) (arStream req)
         then (Inl (ErrMsg ''stream not allowed for this sugar glider''), m, s)
         else case map_of (mDispatchers m) (dispatcherKey (arStream req) (arConsumerGroup req)) of
           None \<Rightarrow> (Inl ErrDispatcherNotFound, m, s)
         | Some p \<Rightarrow>
             (let (r, d, s1) = queueAck pickDone (arEntryIDs req) (mObjs m ! p) s in (r, m\<lparr>mObjs := (mObjs m)[p := d]\<rparr>, s1)))"

section \<open>Removing\<close>

definition removeIfSame :: "string \<Rightarrow> nat \<Rightarrow> consumeDispatcherManager \<Rightarrow> consumeDispatcherManager" where
  "removeIfSame key p m =
     (if map_of (mDispatchers m) key = Some p then m\<lparr>mDispatchers := filter (\<lambda>(k, _). k \<noteq> key) (mDispatchers m)\<rparr> else m)"

definition removeSubscriber :: "nat \<Rightarrow> uint64 \<Rightarrow> consumeDispatcherManager \<Rightarrow> consumeDispatcherManager" where
  "removeSubscriber p i m =
     (let (none, d) = remove_entry i (mObjs m ! p);
          m1 = m\<lparr>mObjs := (mObjs m)[p := d]\<rparr>
      in if none then on_obj p disp_stop (removeIfSame (dKey d) p m1) else m1)"

definition subscription_Close :: "dispatcherSubscription option \<Rightarrow> consumeDispatcherManager \<Rightarrow> consumeDispatcherManager" where
  "subscription_Close sub m =
     (case sub of None \<Rightarrow> m | Some x \<Rightarrow> removeSubscriber (subDispatcher x) (subID x) m)"

section \<open>Steps\<close>

text \<open>
  The registry with its clients.  \<open>Subscribe\<close> releases the lock between finding the dispatcher and subscribing to it, so these are
  two steps.  The dispatchers' own goroutines and receivers change what is inside a dispatcher.
\<close>

type_synonym 'w mgr_state = "consumeDispatcherManager \<times> 'w sidecar"

inductive mgr_step :: "Config \<Rightarrow> 'w mgr_state \<Rightarrow> 'w mgr_state \<Rightarrow> bool" for c where
  mgr_find: "getOrCreate c st grp n b m = (r, m') \<Longrightarrow> mgr_step c (m, s) (m', s)"
| mgr_subscribe: "p < length (mObjs m) \<Longrightarrow> mgr_step c (m, s) (snd (disp_subscribe p m), s)"
| mgr_remove: "p < length (mObjs m) \<Longrightarrow> mgr_step c (m, s) (removeSubscriber p i m, s)"
| mgr_close: "mgr_step c (m, s) (manager_Close m, s)"
| mgr_ack: "manager_QueueAck pickDone req m s = (r, m', s') \<Longrightarrow> mgr_step c (m, s) (m', s')"
| mgr_fan: "p < length (mObjs m) \<Longrightarrow> fanOut taken events (mObjs m ! p) s = (d, s') \<Longrightarrow>
    mgr_step c (m, s) (m\<lparr>mObjs := (mObjs m)[p := d]\<rparr>, s')"
| mgr_receive: "p < length (mObjs m) \<Longrightarrow> mgr_step c (m, s) (on_obj p (receive i k) m, s)"
| mgr_drained: "p < length (mObjs m) \<Longrightarrow> mgr_step c (m, s) (on_obj p (\<lambda>d. d\<lparr>dAckQueue := drop k (dAckQueue d)\<rparr>) m, s)"
| mgr_others: "mgr_step c (m, s) (m, s')"

section \<open>Keys\<close>

text \<open>Dispatcher keys satisfy the contract of keys of stream and group; the names are not trimmed here.\<close>

interpretation dispatcher_key: group_key dispatcherKey "\<lambda>x. x"
  by unfold_locales (simp add: dispatcherKey_def bar_append_eq)

section \<open>Invariant of the registry\<close>

definition obj_ok :: "consumeDispatcherManager \<Rightarrow> nat \<Rightarrow> bool" where
  "obj_ok m p \<longleftrightarrow> disp_inv (mObjs m ! p) \<and> dStarted (mObjs m ! p) \<and>
     (dStopped (mObjs m ! p) \<longleftrightarrow> (dKey (mObjs m ! p), p) \<notin> set (mDispatchers m))"

definition mgr_inv :: "consumeDispatcherManager \<Rightarrow> bool" where
  "mgr_inv m \<longleftrightarrow> distinct (map fst (mDispatchers m)) \<and>
     (\<forall>(k, p)\<in>set (mDispatchers m). p < length (mObjs m) \<and> dKey (mObjs m ! p) = k) \<and>
     (\<forall>p<length (mObjs m). obj_ok m p) \<and> (mClosed m \<longrightarrow> mDispatchers m = [])"

lemma mgr_invD:
  assumes "mgr_inv m"
  shows "distinct (map fst (mDispatchers m))" "mClosed m \<Longrightarrow> mDispatchers m = []"
    "(k, p) \<in> set (mDispatchers m) \<Longrightarrow> p < length (mObjs m)" "(k, p) \<in> set (mDispatchers m) \<Longrightarrow> dKey (mObjs m ! p) = k"
    "p < length (mObjs m) \<Longrightarrow> obj_ok m p"
  using assms unfolding mgr_inv_def by blast+

lemma mgr_invI:
  assumes "distinct (map fst (mDispatchers m))" "mClosed m \<Longrightarrow> mDispatchers m = []"
    "\<And>k p. (k, p) \<in> set (mDispatchers m) \<Longrightarrow> p < length (mObjs m) \<and> dKey (mObjs m ! p) = k"
    "\<And>p. p < length (mObjs m) \<Longrightarrow> obj_ok m p"
  shows "mgr_inv m"
  using assms unfolding mgr_inv_def by blast

text \<open>Steps inside one dispatcher that keep its key and whether it is started and stopped.\<close>

lemma inner_inv:
  assumes "mgr_inv m" "disp_inv d" "dKey d = dKey (mObjs m ! p)" "dStarted d = dStarted (mObjs m ! p)" "dStopped d = dStopped (mObjs m ! p)"
  shows "mgr_inv (m\<lparr>mObjs := (mObjs m)[p := d]\<rparr>)"
proof (cases "p < length (mObjs m)")
  case True
  have key: "dKey ((mObjs m)[p := d] ! q) = dKey (mObjs m ! q)" if "q < length (mObjs m)" for q
    using that assms(3) by (cases "q = p") simp_all
  have "obj_ok (m\<lparr>mObjs := (mObjs m)[p := d]\<rparr>) q" if "q < length (mObjs m)" for q
    using mgr_invD(5) [OF assms(1) that] assms(2-5) that by (cases "q = p") (simp_all add: obj_ok_def)
  then show ?thesis using mgr_invD [OF assms(1)] key by (intro mgr_invI) simp_all
next
  case False
  then have "m\<lparr>mObjs := (mObjs m)[p := d]\<rparr> = m" by (cases m) (simp add: list_update_beyond)
  with assms(1) show ?thesis by simp
qed

lemma disp_subscribe_inv:
  assumes "mgr_inv m" "p < length (mObjs m)"
  shows "mgr_inv (snd (disp_subscribe p m))"
proof -
  have "disp_inv (snd (subscribe (mObjs m ! p)))" using mgr_invD(5) [OF assms] by (simp add: obj_ok_def subscribe_inv)
  from inner_inv [OF assms(1) this, of p] show ?thesis by (simp add: disp_subscribe_def split_def)
qed

lemma getOrCreate_inv:
  assumes "mgr_inv m" "getOrCreate c st grp n b m = (r, m')"
  shows "mgr_inv m'"
proof (cases "mClosed m \<or> map_of (mDispatchers m) (dispatcherKey st grp) \<noteq> None")
  case True
  then show ?thesis using assms by (auto simp: getOrCreate_def Let_def split: if_splits option.splits)
next
  case False
  let ?d = "disp_start (newStreamDispatcher c st grp n b)"
  have m': "m' = m\<lparr>mObjs := mObjs m @ [?d], mDispatchers := mDispatchers m @ [(dispatcherKey st grp, length (mObjs m))]\<rparr>"
    using assms(2) False by (simp add: getOrCreate_def Let_def)
  note I = mgr_invD [OF assms(1)]
  have d: "disp_inv ?d" "dStarted ?d" "\<not> dStopped ?d" "dKey ?d = dispatcherKey st grp"
    by (simp_all add: disp_start_def newStreamDispatcher_def disp_inv_def)
  have fresh: "dispatcherKey st grp \<notin> fst ` set (mDispatchers m)" using False by (simp add: map_of_eq_None_iff)
  have "obj_ok m' p" if "p < length (mObjs m')" for p
  proof (cases "p = length (mObjs m)")
    case True
    then show ?thesis using d by (simp add: m' obj_ok_def)
  next
    case False
    then have "p < length (mObjs m)" using that by (simp add: m')
    then show ?thesis using I(5) by (auto simp: m' obj_ok_def nth_append)
  qed
  moreover have "q < length (mObjs m') \<and> dKey (mObjs m' ! q) = k" if "(k, q) \<in> set (mDispatchers m')" for k q
    using that d(4) I(3,4) by (auto simp: m' nth_append less_SucI)
  moreover have "distinct (map fst (mDispatchers m'))" using I(1) fresh by (simp add: m')
  moreover have "\<not> mClosed m'" using False by (simp add: m')
  ultimately show ?thesis by (intro mgr_invI) simp_all
qed

lemma remove_entry_same:
  assumes "remove_entry i d = (none, d')"
  shows "dKey d' = dKey d" "dStarted d' = dStarted d" "dStopped d' = dStopped d" "dDone d' = dDone d" "none \<longleftrightarrow> dSubscribers d' = []"
  using assms by (auto simp: remove_entry_def Let_def simp del: drop_subscriber_simps(1) split: if_splits)

text \<open>For a dispatcher's own key, removal by key and by identity agree.\<close>

lemma removeIfSame_eq:
  assumes "mgr_inv m" "p < length (mObjs m)"
  shows "removeIfSame (dKey (mObjs m ! p)) p m = m\<lparr>mDispatchers := filter (\<lambda>(_, q). q \<noteq> p) (mDispatchers m)\<rparr>"
proof -
  note I = mgr_invD [OF assms(1)]
  have lookup: "map_of (mDispatchers m) (dKey (mObjs m ! p)) = Some p \<longleftrightarrow> (dKey (mObjs m ! p), p) \<in> set (mDispatchers m)"
    using I(1) by (simp add: map_of_eq_Some_iff)
  show ?thesis
  proof (cases "map_of (mDispatchers m) (dKey (mObjs m ! p)) = Some p")
    case True
    have "k \<noteq> dKey (mObjs m ! p) \<longleftrightarrow> q \<noteq> p" if "(k, q) \<in> set (mDispatchers m)" for k q
      using True I(4) [OF that] map_of_is_SomeI [OF I(1) that] by (metis option.inject)
    then have "filter (\<lambda>(k, _). k \<noteq> dKey (mObjs m ! p)) (mDispatchers m) = filter (\<lambda>(_, q). q \<noteq> p) (mDispatchers m)"
      by (intro filter_cong refl) (simp add: split_beta)
    then show ?thesis using True by (simp add: removeIfSame_def)
  next
    case False
    then have "filter (\<lambda>(_, q). q \<noteq> p) (mDispatchers m) = mDispatchers m"
      using I(4) lookup by (auto simp: filter_id_conv)
    then show ?thesis using False by (simp add: removeIfSame_def)
  qed
qed

lemma unregister_inv:
  assumes "mgr_inv m" "p < length (mObjs m)"
  shows "mgr_inv (on_obj p disp_stop (m\<lparr>mDispatchers := filter (\<lambda>(_, q). q \<noteq> p) (mDispatchers m)\<rparr>))" (is "mgr_inv ?m")
proof (rule mgr_invI)
  note I = mgr_invD [OF assms(1)]
  show "distinct (map fst (mDispatchers ?m))" using I(1) by (simp add: on_obj_def distinct_map_filter)
  show "mDispatchers ?m = []" if "mClosed ?m" using that I(2) by (simp add: on_obj_def)
  have key: "dKey (mObjs ?m ! q) = dKey (mObjs m ! q)" if "q < length (mObjs m)" for q
    using that by (cases "q = p") (simp_all add: on_obj_def disp_stop_simps)
  show "q < length (mObjs ?m) \<and> dKey (mObjs ?m ! q) = k" if "(k, q) \<in> set (mDispatchers ?m)" for k q
  proof -
    have "(k, q) \<in> set (mDispatchers m)" using that by (simp add: on_obj_def)
    then show ?thesis using I(3,4) key by (simp add: on_obj_def)
  qed
  show "obj_ok ?m q" if "q < length (mObjs ?m)" for q
  proof -
    have q: "q < length (mObjs m)" using that by (simp add: on_obj_def)
    show ?thesis
      using I(5) [OF q] q by (cases "q = p") (auto simp: obj_ok_def on_obj_def disp_stop_simps disp_stop_inv)
  qed
qed

lemma removeSubscriber_inv:
  assumes "mgr_inv m" "p < length (mObjs m)"
  shows "mgr_inv (removeSubscriber p i m)"
proof -
  obtain none d where r: "remove_entry i (mObjs m ! p) = (none, d)" by fastforce
  note same = remove_entry_same [OF r]
  have d: "disp_inv d" using mgr_invD(5) [OF assms] remove_entry_inv [OF _ r] by (simp add: obj_ok_def)
  let ?m1 = "m\<lparr>mObjs := (mObjs m)[p := d]\<rparr>"
  have inv1: "mgr_inv ?m1" by (rule inner_inv [OF assms(1) d same(1-3)])
  have "removeIfSame (dKey d) p ?m1 = ?m1\<lparr>mDispatchers := filter (\<lambda>(_, q). q \<noteq> p) (mDispatchers ?m1)\<rparr>"
    using removeIfSame_eq [OF inv1, of p] assms(2) by simp
  then show ?thesis using inv1 unregister_inv [OF inv1, of p] assms(2) r by (simp add: removeSubscriber_def Let_def)
qed

lemma stop_all:
  "mObjs (fold (\<lambda>(_, p). on_obj p disp_stop) es m) = fold (\<lambda>(_, p) xs. xs[p := disp_stop (xs ! p)]) es (mObjs m)"
  "mClosed (fold (\<lambda>(_, p). on_obj p disp_stop) es m) = mClosed m"
  "mDispatchers (fold (\<lambda>(_, p). on_obj p disp_stop) es m) = mDispatchers m"
  by (induction es arbitrary: m) (auto simp: on_obj_def)

lemma disp_stop_idem [simp]: "disp_stop (disp_stop d) = disp_stop d"
  by (simp add: disp_stop_def [of "disp_stop d"] disp_stop_simps)

lemma stop_all_length: "length (fold (\<lambda>(_, p) xs. xs[p := disp_stop (xs ! p)]) es xs) = length xs"
  by (induction es arbitrary: xs) (simp_all add: split_beta)

lemma stop_all_nth:
  "q < length xs \<Longrightarrow> fold (\<lambda>(_, p) xs. xs[p := disp_stop (xs ! p)]) es xs ! q =
     (if q \<in> snd ` set es then disp_stop (xs ! q) else xs ! q)"
proof (induction es arbitrary: xs)
  case (Cons e es)
  obtain k p where e: "e = (k, p)" by fastforce
  show ?case using Cons.IH [of "xs[p := disp_stop (xs ! p)]"] Cons.prems by (cases "q = p") (simp_all add: e)
qed simp

lemma manager_Close_simps:
  assumes "\<not> mClosed m"
  shows "mDispatchers (manager_Close m) = []" "mClosed (manager_Close m)" "length (mObjs (manager_Close m)) = length (mObjs m)"
    "q < length (mObjs m) \<Longrightarrow> mObjs (manager_Close m) ! q =
       (if q \<in> snd ` set (mDispatchers m) then disp_stop (mObjs m ! q) else mObjs m ! q)"
  using assms by (simp_all add: manager_Close_def stop_all stop_all_nth stop_all_length)

lemma manager_Close_inv:
  assumes "mgr_inv m"
  shows "mgr_inv (manager_Close m)"
proof (cases "mClosed m")
  case True
  then show ?thesis using assms by (simp add: manager_Close_def)
next
  case False
  note C = manager_Close_simps [OF False] and I = mgr_invD [OF assms]
  have "obj_ok (manager_Close m) q" if "q < length (mObjs m)" for q
  proof (cases "q \<in> snd ` set (mDispatchers m)")
    case True
    then show ?thesis using I(5) [OF that] by (simp add: obj_ok_def C that disp_stop_simps disp_stop_inv)
  next
    case False
    then have "(dKey (mObjs m ! q), q) \<notin> set (mDispatchers m)" by force
    then show ?thesis using I(5) [OF that] False by (simp add: obj_ok_def C that)
  qed
  then show ?thesis by (intro mgr_invI) (simp_all add: C)
qed

lemma manager_QueueAck_inv:
  assumes "mgr_inv m" "manager_QueueAck pickDone req m s = (r, m', s')"
  shows "mgr_inv m'"
proof (cases "m' = m")
  case False
  from assms(2) False obtain p d where q: "map_of (mDispatchers m) (dispatcherKey (TrimSpace (arStream req)) (TrimSpace (arConsumerGroup req))) = Some p"
    "queueAck pickDone (arEntryIDs req) (mObjs m ! p) s = (r, d, s')" "m' = m\<lparr>mObjs := (mObjs m)[p := d]\<rparr>"
    by (auto simp: manager_QueueAck_def Let_def split: if_splits option.splits prod.splits)
  have p: "p < length (mObjs m)" using q(1) mgr_invD(3) [OF assms(1)] map_of_SomeD by metis
  then have ok: "disp_inv (mObjs m ! p)" using mgr_invD(5) [OF assms(1)] by (simp add: obj_ok_def)
  from q(2) have "disp_inv d \<and> dKey d = dKey (mObjs m ! p) \<and> dStarted d = dStarted (mObjs m ! p) \<and> dStopped d = dStopped (mObjs m ! p)"
    by (cases rule: queueAck_cases) (use ok in \<open>simp_all add: disp_inv_def drop_count_def\<close>)
  then show ?thesis using inner_inv [OF assms(1)] q(3) by simp
qed (use assms(1) in simp)

lemma fanOut_same:
  assumes "disp_inv d" "fanOut taken events d s = (d', s')"
  shows "dKey d' = dKey d" "dStarted d' = dStarted d" "dStopped d' = dStopped d"
proof -
  from fanOut_result [OF assms] obtain rs d1 where e: "evict rs d1 s = (d', s')" and f: "offer_frame d d1" by metis
  note E = evict_result [OF e] and F = offer_frameD [OF f]
  show "dKey d' = dKey d" "dStopped d' = dStopped d" using E F by simp_all
  have "dStarted d' = dStarted d1" using e by (induction rs d1 s rule: evict.induct) (auto split: if_splits)
  then show "dStarted d' = dStarted d" using F by simp
qed

lemma mgr_step_inv: "mgr_step c x y \<Longrightarrow> mgr_inv (fst x) \<Longrightarrow> mgr_inv (fst y)"
proof (induction rule: mgr_step.induct)
  case (mgr_find st grp n b m r m' s)
  then show ?case using getOrCreate_inv by simp
next
  case (mgr_fan p m taken events s d s')
  have ok: "disp_inv (mObjs m ! p)" using mgr_fan mgr_invD(5) [of m p] by (simp add: obj_ok_def)
  then show ?case using inner_inv [OF _ fanOut_inv [OF ok mgr_fan(2)] fanOut_same [OF ok mgr_fan(2)]] mgr_fan by simp
next
  case (mgr_receive p m s i k)
  have ok: "disp_inv (mObjs m ! p)" using mgr_receive mgr_invD(5) [of m p] by (simp add: obj_ok_def)
  show ?case using inner_inv [OF _ receive_inv [OF ok], where m = m and p = p] mgr_receive by (simp add: on_obj_def receive_def)
next
  case (mgr_drained p m s k)
  have "disp_inv ((mObjs m ! p)\<lparr>dAckQueue := drop k (dAckQueue (mObjs m ! p))\<rparr>)"
    using mgr_drained mgr_invD(5) [of m p] by (simp add: obj_ok_def disp_inv_def drop_count_def)
  from inner_inv [OF _ this, of m p] mgr_drained show ?case by (simp add: on_obj_def)
qed (simp_all add: disp_subscribe_inv removeSubscriber_inv manager_Close_inv manager_QueueAck_inv)

definition mgr_init :: "'w mgr_state \<Rightarrow> bool" where
  "mgr_init x \<longleftrightarrow> fst x = newConsumeDispatcherManager"

interpretation manager_machine: transition_system mgr_init "mgr_step c" "\<lambda>x. mgr_inv (fst x)" for c
proof
  show "mgr_inv (fst x)" if "mgr_init x" for x :: "'a mgr_state"
    using that by (simp add: mgr_init_def newConsumeDispatcherManager_def mgr_inv_def)
  show "mgr_inv (fst y)" if "mgr_inv (fst x)" "mgr_step c x y" for x y :: "'a mgr_state" using that(2,1) by (rule mgr_step_inv)
qed


section \<open>Routing\<close>

lemma getOrCreate_lookup:
  assumes "getOrCreate c st grp n b m = (Inr p, m')"
  shows "\<not> mClosed m" "map_of (mDispatchers m') (dispatcherKey st grp) = Some p" "mClosed m' = mClosed m"
    "map_of (mDispatchers m') = (map_of (mDispatchers m))(dispatcherKey st grp \<mapsto> p)"
    "mgr_inv m \<Longrightarrow> p < length (mObjs m')"
proof -
  show "\<not> mClosed m" "mClosed m' = mClosed m" "map_of (mDispatchers m') (dispatcherKey st grp) = Some p"
    using assms by (auto simp: getOrCreate_def Let_def map_add_Some_iff split: if_splits option.splits)
  show "map_of (mDispatchers m') = (map_of (mDispatchers m))(dispatcherKey st grp \<mapsto> p)"
    using assms by (auto simp: getOrCreate_def Let_def map_add_def fun_eq_iff split: if_splits option.splits)
  show "p < length (mObjs m')" if "mgr_inv m"
    using assms mgr_invD(3) [OF that] by (auto simp: getOrCreate_def Let_def split: if_splits option.splits dest: map_of_SomeD)
qed

lemma manager_Subscribe_ok:
  assumes "manager_Subscribe c req m = (Inr sub, m')"
  obtains n b p m1 where "getOrCreate c (TrimSpace (rrStream req)) (TrimSpace (rrConsumerGroup req)) n b m = (Inr p, m1)"
    "disp_subscribe p m1 = (sub, m')" "TrimSpace (rrStream req) \<noteq> ''''" "TrimSpace (rrConsumerGroup req) \<noteq> ''''"
    "IsStreamAllowed (ConsumeStreams c) (TrimSpace (rrStream req))" "n = (if rrCount req \<le> 0 then DispatcherReadCount c else rrCount req)"
  using assms by (auto simp: manager_Subscribe_def Let_def split: if_splits prod.splits sum.splits)

lemma disp_subscribe_result:
  assumes "disp_subscribe p m = (sub, m')" "p < length (mObjs m)"
  shows "mDispatchers m' = mDispatchers m" "subDispatcher sub = p" "subID sub \<in> set (dSubscribers (mObjs m' ! p))"
    "dChans (mObjs m' ! p) (subID sub) = empty_channel" "dAckQueue (mObjs m' ! p) = dAckQueue (mObjs m ! p)"
    "mClosed m' = mClosed m"
  using assms by (auto simp: disp_subscribe_def subscribe_def Let_def)

text \<open>C26. Subscriptions and acknowledgements meet: a successful \<open>Subscribe\<close> gives a fresh channel at the dispatcher
  registered for the stream and group; a later \<open>QueueAck\<close> for the same stream and group appends to that
  dispatcher's queue; and dispatchers of other groups stay registered as they were.\<close>

theorem subscribe_routes_acks:
  assumes "mgr_init x" "(mgr_step c)\<^sup>*\<^sup>* x (m, s)" "manager_Subscribe c req m = (Inr sub, m')" "cfg s = c"
    and "ids \<noteq> []" "clean_ids ids \<noteq> []" "d = mObjs m' ! subDispatcher sub" "\<not> dDone d" "int (length (dAckQueue d)) < dAckQueueSize d"
  shows "dChans d (subID sub) = empty_channel \<and> subID sub \<in> set (dSubscribers d) \<and>
    (\<exists>m'' s''. manager_QueueAck pick \<lparr>arStream = rrStream req, arConsumerGroup = rrConsumerGroup req, arEntryIDs = ids\<rparr> m' s =
        (Inr (int (length (clean_ids ids))), m'', s'') \<and>
      mObjs m'' ! subDispatcher sub = d\<lparr>dAckQueue := dAckQueue d @ [clean_ids ids]\<rparr>) \<and>
    (\<forall>st grp. CHR ''|'' \<notin> set (TrimSpace (rrStream req)) \<and> CHR ''|'' \<notin> set st \<and>
      (st, grp) \<noteq> (TrimSpace (rrStream req), TrimSpace (rrConsumerGroup req)) \<longrightarrow>
      map_of (mDispatchers m') (dispatcherKey st grp) = map_of (mDispatchers m) (dispatcherKey st grp))"
proof (intro conjI allI impI)
  have inv: "mgr_inv m" using manager_machine.reachable_inv [OF assms(1,2)] by simp
  from assms(3) obtain n b p m1 where
    g: "getOrCreate c (TrimSpace (rrStream req)) (TrimSpace (rrConsumerGroup req)) n b m = (Inr p, m1)" and
    s: "disp_subscribe p m1 = (sub, m')" and
    v: "TrimSpace (rrStream req) \<noteq> ''''" "TrimSpace (rrConsumerGroup req) \<noteq> ''''" "IsStreamAllowed (ConsumeStreams c) (TrimSpace (rrStream req))"
    by (rule manager_Subscribe_ok)
  note G = getOrCreate_lookup [OF g]
  have p: "p < length (mObjs m1)" by (rule G(5) [OF inv])
  note S = disp_subscribe_result [OF s p]
  show "dChans d (subID sub) = empty_channel" "subID sub \<in> set (dSubscribers d)" using S assms(7) by simp_all
  have p': "p < length (mObjs m')" using p s by (auto simp: disp_subscribe_def Let_def split_def)
  have look: "map_of (mDispatchers m') (dispatcherKey (TrimSpace (rrStream req)) (TrimSpace (rrConsumerGroup req))) = Some p"
    using G(2) S(1) by simp
  have "manager_QueueAck pick \<lparr>arStream = rrStream req, arConsumerGroup = rrConsumerGroup req, arEntryIDs = ids\<rparr> m' s =
      (Inr (int (length (clean_ids ids))), m'\<lparr>mObjs := (mObjs m')[p := d\<lparr>dAckQueue := dAckQueue d @ [clean_ids ids]\<rparr>]\<rparr>,
       observeDispatcherAckQueueDepth (int (length (dAckQueue d @ [clean_ids ids]))) s)"
    using v look assms(4-9) S(2) by (simp add: manager_QueueAck_def queueAck_def Let_def)
  with p' S(2) show "\<exists>m'' s''. manager_QueueAck pick \<lparr>arStream = rrStream req, arConsumerGroup = rrConsumerGroup req, arEntryIDs = ids\<rparr> m' s =
      (Inr (int (length (clean_ids ids))), m'', s'') \<and> mObjs m'' ! subDispatcher sub = d\<lparr>dAckQueue := dAckQueue d @ [clean_ids ids]\<rparr>"
    by simp
  fix st grp
  assume o: "CHR ''|'' \<notin> set (TrimSpace (rrStream req)) \<and> CHR ''|'' \<notin> set st \<and>
      (st, grp) \<noteq> (TrimSpace (rrStream req), TrimSpace (rrConsumerGroup req))"
  show "map_of (mDispatchers m') (dispatcherKey st grp) = map_of (mDispatchers m) (dispatcherKey st grp)"
    unfolding S(1) G(4) using o by (auto simp: dispatcher_key.key_eq_iff)
qed

section \<open>A subscription that nobody serves\<close>

lemma manager_Close_unregistered:
  assumes "mgr_inv m" "p < length (mObjs m)" "map_of (mDispatchers m) (dKey (mObjs m ! p)) = None"
  shows "mObjs (manager_Close m) ! p = mObjs m ! p"
proof (cases "mClosed m")
  case True
  then show ?thesis by (simp add: manager_Close_def)
next
  case False
  have "p \<notin> snd ` set (mDispatchers m)" using mgr_invD(4) [OF assms(1)] assms(3) by (force simp: map_of_eq_None_iff)
  then show ?thesis using manager_Close_simps(4) [OF False] assms(2) by simp
qed

text \<open>C39. The two steps of \<open>Subscribe\<close> can be separated by the last subscriber leaving: the new subscription then belongs to
  a dispatcher that is stopped and no longer registered.  Its channel is open and stays open even when the manager is
  closed, so the subscriber waits without receiving events or an error.\<close>

theorem orphaned_subscription:
  assumes "mgr_init x" "(mgr_step c)\<^sup>*\<^sup>* x (m, s)" "getOrCreate c st grp n b m = (Inr p, m)"
    and "dSubscribers (mObjs m ! p) = [i]" "disp_subscribe p (removeSubscriber p i m) = (sub, m')"
  shows "(mgr_step c)\<^sup>*\<^sup>* x (m', s) \<and> dDone (mObjs m' ! p) \<and> map_of (mDispatchers m') (dispatcherKey st grp) = None \<and>
    \<not> chClosed (dChans (mObjs m' ! p) (subID sub)) \<and> \<not> chClosed (dChans (mObjs (manager_Close m') ! p) (subID sub))"
proof -
  have inv: "mgr_inv m" using manager_machine.reachable_inv [OF assms(1,2)] by simp
  note I = mgr_invD [OF inv] and G = getOrCreate_lookup [OF assms(3)]
  have p: "p < length (mObjs m)" by (rule G(5) [OF inv])
  define m1 where "m1 = removeSubscriber p i m"
  let ?d = "drop_subscriber i (mObjs m ! p)"
  have key: "dKey (mObjs m ! p) = dispatcherKey st grp" using I(4) map_of_SomeD [OF G(2)] by blast
  have m1: "m1 = on_obj p disp_stop (removeIfSame (dispatcherKey st grp) p (m\<lparr>mObjs := (mObjs m)[p := ?d]\<rparr>))"
    using assms(4) key by (simp add: m1_def removeSubscriber_def remove_entry_def Let_def)
  have D1: "mDispatchers m1 = filter (\<lambda>(k, _). k \<noteq> dispatcherKey st grp) (mDispatchers m)"
    using G(2) by (simp add: m1 on_obj_def removeIfSame_def)
  have O1: "mObjs m1 ! p = disp_stop ?d" "length (mObjs m1) = length (mObjs m)"
    using p by (simp_all add: m1 on_obj_def removeIfSame_def)
  have p1: "p < length (mObjs m1)" using p O1(2) by simp
  have st: "(mgr_step c)\<^sup>*\<^sup>* x (m', s)"
  proof -
    have "mgr_step c (m, s) (m1, s)" unfolding m1_def by (rule mgr_remove [OF p])
    moreover have "mgr_step c (m1, s) (m', s)" using mgr_subscribe [OF p1, of c s] assms(5) by (simp add: m1_def)
    ultimately show ?thesis using rtranclp.rtrancl_into_rtrancl [OF rtranclp.rtrancl_into_rtrancl [OF assms(2)]] by blast
  qed
  note S = disp_subscribe_result [OF assms(5) [folded m1_def] p1]
  have inv': "mgr_inv m'" using manager_machine.reachable_inv [OF assms(1) st] by simp
  have gone: "map_of (mDispatchers m') (dispatcherKey st grp) = None"
    unfolding S(1) D1 map_of_eq_None_iff by auto
  have stop: "dDone (mObjs m' ! p)" "dKey (mObjs m' ! p) = dispatcherKey st grp"
  proof -
    have m': "mObjs m' ! p = snd (subscribe (disp_stop ?d))" using assms(5) p1 O1(1) by (auto simp: m1_def disp_subscribe_def Let_def split_def)
    have "\<not> dStopped (mObjs m ! p)" using I(5) [OF p] map_of_SomeD [OF G(2)] by (simp add: obj_ok_def key)
    then show "dDone (mObjs m' ! p)" by (simp add: m' disp_stop_simps)
    show "dKey (mObjs m' ! p) = dispatcherKey st grp" by (simp add: m' disp_stop_simps key)
  qed
  have "p < length (mObjs m')" using assms(5) p1 by (auto simp: m1_def disp_subscribe_def Let_def split_def)
  with manager_Close_unregistered [OF inv'] stop(2) gone have "mObjs (manager_Close m') ! p = mObjs m' ! p" by simp
  then show ?thesis using st stop(1) gone S(4) by (simp add: empty_channel_def)
qed

section \<open>Examples\<close>

definition sample_subscribed :: consumeDispatcherManager where
  "sample_subscribed = snd (manager_Subscribe sample_cfg sample_read newConsumeDispatcherManager)"

lemma sample_getOrCreate:
  "getOrCreate sample_cfg ''s'' ''g'' n b newConsumeDispatcherManager =
     (Inr 0, newConsumeDispatcherManager\<lparr>mObjs := [disp_start (newStreamDispatcher sample_cfg ''s'' ''g'' n b)],
        mDispatchers := [(''s|g'', 0)]\<rparr>)"
  by (simp add: getOrCreate_def newConsumeDispatcherManager_def dispatcherKey_def Let_def)

lemma sample_read_trim: "TrimSpace (rrStream sample_read) = ''s''" "TrimSpace (rrConsumerGroup sample_read) = ''g''"
  by (simp_all add: sample_read_def TrimSpace_visible ascii_visible_def)

lemma sample_Subscribe:
  "manager_Subscribe sample_cfg sample_read newConsumeDispatcherManager = (Inr \<lparr>subDispatcher = 0, subID = 1\<rparr>, sample_subscribed)"
  "mDispatchers sample_subscribed = [(''s|g'', 0)]" "mObjs sample_subscribed = [sample_dispatcher]" "\<not> mClosed sample_subscribed"
proof -
  have allowed: "IsStreamAllowed (ConsumeStreams sample_cfg) ''s''" by (simp add: sample_cfg_def IsStreamAllowed_iff)
  have f: "rrCount sample_read = 0" "rrBlockMS sample_read = 0" "DispatcherReadCount sample_cfg = 64" "DispatcherBlockMS sample_cfg = 1000"
    by (simp_all add: sample_read_def sample_cfg_def)
  have sub: "manager_Subscribe sample_cfg sample_read newConsumeDispatcherManager =
      (Inr \<lparr>subDispatcher = 0, subID = 1\<rparr>,
       newConsumeDispatcherManager\<lparr>mObjs := [sample_dispatcher], mDispatchers := [(''s|g'', 0)]\<rparr>)"
    by (simp add: manager_Subscribe_def sample_read_trim allowed f sample_getOrCreate disp_subscribe_def sample_dispatcher_def
        disp_start_def newStreamDispatcher_def subscribe_def Let_def)
  then show "manager_Subscribe sample_cfg sample_read newConsumeDispatcherManager = (Inr \<lparr>subDispatcher = 0, subID = 1\<rparr>, sample_subscribed)"
    "mDispatchers sample_subscribed = [(''s|g'', 0)]" "mObjs sample_subscribed = [sample_dispatcher]" "\<not> mClosed sample_subscribed"
    by (simp_all add: sample_subscribed_def newConsumeDispatcherManager_def)
qed

abbreviation sample_start :: "mem_world mgr_state" where
  "sample_start \<equiv> (newConsumeDispatcherManager, sample_sidecar False)"

lemma sample_start_init: "mgr_init sample_start"
  by (simp add: mgr_init_def)

lemma sample_subscribed_reachable: "(mgr_step sample_cfg)\<^sup>*\<^sup>* sample_start (sample_subscribed, sample_sidecar False)"
proof -
  let ?m1 = "newConsumeDispatcherManager\<lparr>mObjs := [disp_start (newStreamDispatcher sample_cfg ''s'' ''g'' 64 1000)], mDispatchers := [(''s|g'', 0)]\<rparr>"
  have "mgr_step sample_cfg sample_start (?m1, sample_sidecar False)" by (rule mgr_find [OF sample_getOrCreate])
  moreover have "snd (disp_subscribe 0 ?m1) = sample_subscribed"
    by (rule consumeDispatcherManager.equality)
      (simp_all add: disp_subscribe_def split_def sample_Subscribe sample_dispatcher_def newConsumeDispatcherManager_def sample_Subscribe(4) [simplified])
  then have "mgr_step sample_cfg (?m1, sample_sidecar False) (sample_subscribed, sample_sidecar False)"
    using mgr_subscribe [of 0 ?m1 sample_cfg "sample_sidecar False"] by simp
  ultimately show ?thesis by (rule rtranclp.rtrancl_into_rtrancl [OF r_into_rtranclp])
qed


theorem subscribe_routes_acks_witness:
  "\<exists>m'' s''. manager_QueueAck False \<lparr>arStream = ''s'', arConsumerGroup = ''g'', arEntryIDs = [''1-1'', '' 1-2 '']\<rparr> sample_subscribed (sample_sidecar False) =
     (Inr 2, m'', s'')"
proof -
  have "\<not> dDone sample_dispatcher" "dAckQueue sample_dispatcher = []" "dAckQueueSize sample_dispatcher = 1024"
    by (simp_all add: sample_dispatcher_def subscribe_def disp_start_def newStreamDispatcher_def sample_cfg_def Let_def)
  then show ?thesis
    using subscribe_routes_acks [OF sample_start_init rtranclp.rtrancl_refl sample_Subscribe(1), of "[''1-1'', '' 1-2 '']" sample_dispatcher False]
    by (simp add: sample_Subscribe sample_clean sample_read_def) blast
qed

theorem orphaned_subscription_witness:
  "\<exists>m'. (mgr_step sample_cfg)\<^sup>*\<^sup>* sample_start (m', sample_sidecar False) \<and> dDone (mObjs m' ! 0) \<and>
     \<not> chClosed (dChans (mObjs (manager_Close m') ! 0) 2)"
proof -
  have g: "getOrCreate sample_cfg ''s'' ''g'' 64 1000 sample_subscribed = (Inr 0, sample_subscribed)"
    by (simp add: getOrCreate_def sample_Subscribe dispatcherKey_def Let_def)
  obtain sub m' where d: "disp_subscribe 0 (removeSubscriber 0 1 sample_subscribed) = (sub, m')" by fastforce
  have one: "dSubscribers (mObjs sample_subscribed ! 0) = [1]" by (simp add: sample_Subscribe sample_dispatcher_simps)
  have "subID sub = 2"
  proof -
    have "dNextSubID sample_dispatcher = 1"
      by (simp add: sample_dispatcher_def subscribe_def disp_start_def newStreamDispatcher_def Let_def)
    then have "dNextSubID (mObjs (removeSubscriber 0 1 sample_subscribed) ! 0) = 1"
      by (simp add: removeSubscriber_def remove_entry_def sample_Subscribe sample_dispatcher_simps on_obj_def removeIfSame_def
          disp_stop_def fold_drop Let_def)
    then show ?thesis using d by (auto simp: disp_subscribe_def Let_def split_def)
  qed
  with orphaned_subscription [OF sample_start_init sample_subscribed_reachable g one d] show ?thesis by auto
qed

end
