(* ===== verification/Publish_Pipeline.thy ===== *)
theory Publish_Pipeline
  imports Sidecar
begin

text \<open>
  \<open>internal/service/publish_pipeline.go\<close>: the batching publisher.  Callers put jobs into a bounded channel and wait
  for their result channel; one goroutine moves jobs to a buffer and flushes it as one Redis pipeline.

  The goroutine and its callers are a step relation on the shared state.  A job's result channel has capacity one
  and is written once, so it is the entry of the job in a map of results.  \<open>select\<close> picks any ready case: each
  case is a rule guarded by its readiness, \<open>default\<close> a rule guarded by the others not being ready.  The position of
  the goroutine is explicit (\<open>pPc\<close>), so that callers interleave with the draining of the channel.  \<open>pEnqueued\<close> and
  \<open>pFlushed\<close> record the jobs accepted and the jobs handed to \<open>flushBatch\<close>, in order; no operation reads them.
\<close>

section \<open>Jobs and the size estimate\<close>

record publishJob =
  jobID :: nat
  jobCtx :: ctx
  jobReq :: PublishRequest
  estimatedBytes :: int

definition estimatePublishRequestBytes :: "PublishRequest \<Rightarrow> int" where
  "estimatePublishRequestBytes req =
     (let size0 = int (length (Stream req)) + int (length (EventType req)) + int (length (Sender req)) +
                  int (length (Recipient req)) + int (length (Priority req));
          size1 = size0 + int (length (Payload req));
          size2 = (if TTLSec req > 0 then size1 + 8 else size1)
      in if size2 < 128 then 128 else size2)"

record publishPipelineConfig =
  pcMaxStreamLen :: int
  pcMaxBatch :: int
  pcMaxBytes :: int
  pcFlushInterval :: int
  pcQueueSize :: int

section \<open>Flushing a batch\<close>

text \<open>
  Jobs whose context has ended get its error at once; for the others the \<open>XADD\<close> arguments are built.
\<close>

fun build_batch ::
  "'w redis \<Rightarrow> int \<Rightarrow> publishJob list \<Rightarrow> 'w \<Rightarrow> (nat \<times> string go_result) list \<times> (publishJob \<times> XAddArgs) list \<times> 'w" where
  "build_batch R maxStreamLen [] w = ([], [], w)"
| "build_batch R maxStreamLen (job # rest) w =
     (case CtxErr R (jobCtx job) w of
        Some err \<Rightarrow>
          (case build_batch R maxStreamLen rest w of (res, live, w1) \<Rightarrow> ((jobID job, Inl err) # res, live, w1))
      | None \<Rightarrow>
          (case Now R w of (now, w1) \<Rightarrow>
             (case build_batch R maxStreamLen rest w1 of
                (res, live, w2) \<Rightarrow> (res, (job, BuildXAddArgs now (jobReq job) maxStreamLen) # live, w2))))"

fun deliver :: "(publishJob \<times> string go_result) list \<Rightarrow> collector \<Rightarrow> (nat \<times> string go_result) list \<times> collector" where
  "deliver [] c = ([], c)"
| "deliver ((job, r) # rest) c =
     (let c1 = (case r of Inl _ \<Rightarrow> IncPublishPipelineError 1 c | Inr _ \<Rightarrow> c);
          (res, c2) = deliver rest c1
      in ((jobID job, r) # res, c2))"

definition flushCtx :: ctx where "flushCtx = WithTimeout BackgroundCtx 5000"

definition flushBatch ::
  "'w redis \<Rightarrow> int \<Rightarrow> publishJob list \<Rightarrow> 'w \<times> collector \<Rightarrow> (nat \<times> string go_result) list \<times> 'w \<times> collector" where
  "flushBatch R maxStreamLen batch wc =
     (case wc of (w, c) \<Rightarrow>
       if batch = [] then ([], w, c)
       else (let c1 = IncPublishPipelineFlushedBatch c;
                 (expired, live, w1) = build_batch R maxStreamLen batch w
             in if live = [] then (expired, w1, c1)
                else (let ((execErr, cmds), w2) = ExecXAdds R flushCtx (map snd live) w1;
                          failed = (case execErr of None \<Rightarrow> None | Some e \<Rightarrow> if errors_Is e RedisNil then None else Some e)
                      in case failed of
                           Some e \<Rightarrow>
                             (expired @ map (\<lambda>(job, _). (jobID job, Inl e)) live, w2,
                              IncPublishPipelineError (word_of_nat (length live)) c1)
                         | None \<Rightarrow>
                             (let (res, c3) = deliver (zip (map fst live) cmds)
                                                (IncPublishPipelineFlushedEntries (word_of_nat (length live)) c1)
                              in (expired @ res, w2, c3)))))"

section \<open>The state machine\<close>

datatype pc = AtSelect | Draining bool | Stopped

record 'w pipe =
  pQueue :: "publishJob list"
  pBuffer :: "publishJob list"
  pBufferBytes :: int
  pStop :: bool
  pDone :: bool
  pPc :: pc
  pResults :: "nat \<rightharpoonup> string go_result"
  pNext :: nat
  pWorld :: 'w
  pCollector :: collector
  pEnqueued :: "publishJob list"
  pFlushed :: "publishJob list"

definition newPublishPipeline :: "'w \<Rightarrow> collector \<Rightarrow> 'w pipe" where
  "newPublishPipeline w c =
     \<lparr>pQueue = [], pBuffer = [], pBufferBytes = 0, pStop = False, pDone = False, pPc = AtSelect, pResults = Map.empty,
      pNext = 0, pWorld = w, pCollector = c, pEnqueued = [], pFlushed = []\<rparr>"

text \<open>The closures \<open>flush\<close> and the body of \<open>drain\<close> of \<open>run\<close>.\<close>

definition flush :: "'w redis \<Rightarrow> publishPipelineConfig \<Rightarrow> 'w pipe \<Rightarrow> 'w pipe" where
  "flush R cf s =
     (if pBuffer s = [] then s
      else (case flushBatch R (pcMaxStreamLen cf) (pBuffer s) (pWorld s, pCollector s) of
              (res, w, c) \<Rightarrow>
                s\<lparr>pBuffer := [], pBufferBytes := 0, pFlushed := pFlushed s @ pBuffer s,
                  pResults := pResults s ++ map_of res, pWorld := w, pCollector := c\<rparr>))"

definition take_job :: "publishJob \<Rightarrow> publishJob list \<Rightarrow> 'w pipe \<Rightarrow> 'w pipe" where
  "take_job job q s =
     s\<lparr>pQueue := q, pBuffer := pBuffer s @ [job], pBufferBytes := int64_wrap (pBufferBytes s + estimatedBytes job)\<rparr>"

definition flush_due :: "publishPipelineConfig \<Rightarrow> 'w pipe \<Rightarrow> bool" where
  "flush_due cf s \<longleftrightarrow> pcFlushInterval cf = 0 \<or> int (length (pBuffer s)) \<ge> pcMaxBatch cf \<or> pBufferBytes s \<ge> pcMaxBytes cf"

definition new_job :: "ctx \<Rightarrow> PublishRequest \<Rightarrow> 'w pipe \<Rightarrow> publishJob" where
  "new_job ctx req s = \<lparr>jobID = pNext s, jobCtx = ctx, jobReq = req, estimatedBytes = estimatePublishRequestBytes req\<rparr>"

definition enqueue :: "ctx \<Rightarrow> PublishRequest \<Rightarrow> 'w pipe \<Rightarrow> 'w pipe" where
  "enqueue ctx req s =
     s\<lparr>pQueue := pQueue s @ [new_job ctx req s], pNext := pNext s + 1, pEnqueued := pEnqueued s @ [new_job ctx req s],
       pCollector := IncPublishPipelineEnqueued (pCollector s)\<rparr>"

text \<open>The goroutine \<open>run\<close>.\<close>

inductive run_step :: "'w redis \<Rightarrow> publishPipelineConfig \<Rightarrow> 'w pipe \<Rightarrow> 'w pipe \<Rightarrow> bool" for R cf where
  stop_seen: "pPc s = AtSelect \<Longrightarrow> pStop s \<Longrightarrow> run_step R cf s (s\<lparr>pPc := Draining True\<rparr>)"
| tick: "pPc s = AtSelect \<Longrightarrow> pcFlushInterval cf > 0 \<Longrightarrow> run_step R cf s (flush R cf s)"
| receive: "pPc s = AtSelect \<Longrightarrow> pQueue s = job # q \<Longrightarrow> run_step R cf s ((take_job job q s)\<lparr>pPc := Draining False\<rparr>)"
| drain: "pPc s = Draining b \<Longrightarrow> pQueue s = job # q \<Longrightarrow> run_step R cf s (take_job job q s)"
| drained: "pPc s = Draining False \<Longrightarrow> pQueue s = [] \<Longrightarrow>
    run_step R cf s ((if flush_due cf s then flush R cf s else s)\<lparr>pPc := AtSelect\<rparr>)"
| drained_stop: "pPc s = Draining True \<Longrightarrow> pQueue s = [] \<Longrightarrow>
    run_step R cf s ((flush R cf s)\<lparr>pPc := Stopped, pDone := True\<rparr>)"

inductive_cases run_stepE: "run_step R cf s t"

text \<open>The first \<open>select\<close> of \<open>Publish\<close> and of each job of \<open>PublishMany\<close>.\<close>

inductive publish_begin ::
  "'w redis \<Rightarrow> publishPipelineConfig \<Rightarrow> ctx \<Rightarrow> PublishRequest \<Rightarrow> 'w pipe \<Rightarrow> nat go_result \<Rightarrow> 'w pipe \<Rightarrow> bool" for R cf ctx req where
  begin_stopped: "pDone s \<Longrightarrow> publish_begin R cf ctx req s (Inl ErrPublishPipelineStopped) s"
| begin_ctx: "CtxErr R ctx (pWorld s) = Some e \<Longrightarrow> publish_begin R cf ctx req s (Inl e) s"
| begin_queued: "int (length (pQueue s)) < pcQueueSize cf \<Longrightarrow> publish_begin R cf ctx req s (Inr (pNext s)) (enqueue ctx req s)"
| begin_full: "\<not> pDone s \<Longrightarrow> CtxErr R ctx (pWorld s) = None \<Longrightarrow> \<not> int (length (pQueue s)) < pcQueueSize cf \<Longrightarrow>
    publish_begin R cf ctx req s (Inl ErrPublishPipelineQueueFull) s"

inductive_cases begin_acceptedE: "publish_begin R cf ctx req s (Inr i) t"
inductive_cases begin_refusedE: "publish_begin R cf ctx req s (Inl ErrPublishPipelineQueueFull) t"

text \<open>The second \<open>select\<close>, waiting for the result of the job.\<close>

inductive publish_end :: "'w redis \<Rightarrow> ctx \<Rightarrow> nat \<Rightarrow> 'w pipe \<Rightarrow> string go_result \<Rightarrow> bool" for R ctx i s where
  end_result: "pResults s i = Some r \<Longrightarrow> publish_end R ctx i s r"
| end_ctx: "CtxErr R ctx (pWorld s) = Some e \<Longrightarrow> publish_end R ctx i s (Inl e)"
| end_stopped: "pDone s \<Longrightarrow> pResults s i = None \<Longrightarrow> publish_end R ctx i s (Inl ErrPublishPipelineStopped)"

inductive_cases publish_endE: "publish_end R ctx i s r"

text \<open>The enqueueing loop of \<open>PublishMany\<close>: the first job that is not accepted ends it; jobs before it stay queued.\<close>

inductive many_begin ::
  "'w redis \<Rightarrow> publishPipelineConfig \<Rightarrow> ctx \<Rightarrow> PublishRequest list \<Rightarrow> 'w pipe \<Rightarrow> nat list go_result \<Rightarrow> 'w pipe \<Rightarrow> bool" for R cf ctx where
  many_nil: "many_begin R cf ctx [] s (Inr []) s"
| many_error: "publish_begin R cf ctx req s (Inl e) s' \<Longrightarrow> many_begin R cf ctx (req # reqs) s (Inl e) s'"
| many_stop: "publish_begin R cf ctx req s (Inr i) s1 \<Longrightarrow> many_begin R cf ctx reqs s1 (Inl e) s' \<Longrightarrow>
    many_begin R cf ctx (req # reqs) s (Inl e) s'"
| many_cons: "publish_begin R cf ctx req s (Inr i) s1 \<Longrightarrow> many_begin R cf ctx reqs s1 (Inr is) s' \<Longrightarrow>
    many_begin R cf ctx (req # reqs) s (Inr (i # is)) s'"

definition QueueLength :: "'w pipe \<Rightarrow> int" where
  "QueueLength s = int (length (pQueue s))"

text \<open>\<open>Close\<close> closes the stop channel once and waits for the goroutine.\<close>

definition pipeline_Close :: "'w pipe \<Rightarrow> 'w pipe" where
  "pipeline_Close s = s\<lparr>pStop := True\<rparr>"

text \<open>All steps: the goroutine, callers, \<open>Close\<close>, and other clients of Redis.\<close>

inductive pipe_step :: "'w redis \<Rightarrow> publishPipelineConfig \<Rightarrow> 'w pipe \<Rightarrow> 'w pipe \<Rightarrow> bool" for R cf where
  goroutine: "run_step R cf s t \<Longrightarrow> pipe_step R cf s t"
| caller: "publish_begin R cf ctx req s r t \<Longrightarrow> pipe_step R cf s t"
| close: "pipe_step R cf s (pipeline_Close s)"
| others: "pipe_step R cf s (s\<lparr>pWorld := w\<rparr>)"

section \<open>Results of a flush\<close>

text \<open>What the pipeline relies on in go-redis: \<open>Exec\<close> leaves one result per queued command.\<close>

definition exec_complete :: "'w redis \<Rightarrow> bool" where
  "exec_complete R \<longleftrightarrow> (\<forall>ctx as w e rs w'. ExecXAdds R ctx as w = ((e, rs), w') \<longrightarrow> length rs = length as)"

lemma build_batch_ids:
  "build_batch R n jobs w = (res, live, w') \<Longrightarrow> set (map fst res) \<union> jobID ` fst ` set live = jobID ` set jobs"
proof (induction jobs arbitrary: w res live w')
  case (Cons job jobs)
  show ?case
  proof (cases "CtxErr R (jobCtx job) w")
    case None
    obtain now w1 where n: "Now R w = (now, w1)" by fastforce
    obtain res1 live1 w2 where b: "build_batch R n jobs w1 = (res1, live1, w2)" by (metis prod_cases3)
    have "res = res1" "live = (job, BuildXAddArgs now (jobReq job) n) # live1" using Cons.prems None n b by simp_all
    then have "set (map fst res) \<union> jobID ` fst ` set live = insert (jobID job) (set (map fst res1) \<union> jobID ` fst ` set live1)" by auto
    then show ?thesis unfolding Cons.IH [OF b] by simp
  next
    case (Some e)
    obtain res1 live1 w2 where b: "build_batch R n jobs w = (res1, live1, w2)" by (metis prod_cases3)
    have "res = (jobID job, Inl e) # res1" "live = live1" using Cons.prems Some b by simp_all
    then have "set (map fst res) \<union> jobID ` fst ` set live = insert (jobID job) (set (map fst res1) \<union> jobID ` fst ` set live1)" by auto
    then show ?thesis unfolding Cons.IH [OF b] by simp
  qed
qed simp

lemma deliver_results:
  "length js = length rs \<Longrightarrow> fst (deliver (zip js rs) c) = zip (map jobID js) rs"
  by (induction js rs arbitrary: c rule: list_induct2) (simp_all add: Let_def split_def)

lemma flushBatch_ids:
  assumes "exec_complete R" "flushBatch R n batch (w, c) = (res, w', c')"
  shows "set (map fst res) = jobID ` set batch"
proof (cases "batch = []")
  case True
  with assms show ?thesis by (auto simp: flushBatch_def)
next
  case False
  obtain expired live w1 where b: "build_batch R n batch w = (expired, live, w1)" by (metis prod_cases3)
  note ids = build_batch_ids [OF b]
  obtain e cmds w2 where x: "ExecXAdds R flushCtx (map snd live) w1 = ((e, cmds), w2)" by (metis prod_cases3 surj_pair)
  have len: "length (map fst live) = length cmds" using assms(1) x unfolding exec_complete_def by fastforce
  obtain dres c3 where d: "deliver (zip (map fst live) cmds) (IncPublishPipelineFlushedEntries (word_of_nat (length live)) (IncPublishPipelineFlushedBatch c)) = (dres, c3)"
    by fastforce
  with deliver_results [OF len] have dres: "map fst dres = map jobID (map fst live)" using len by (metis fst_conv map_fst_zip length_map)
  have "map fst res = map fst expired @ map jobID (map fst live)"
    using assms(2) False b x d dres
    by (auto simp: flushBatch_def Let_def comp_def split_def split: if_splits option.splits)
  then have "set (map fst res) = set (map fst expired) \<union> jobID ` fst ` set live"
    by (simp only: set_append set_map)
  with ids show ?thesis by simp
qed

lemma deliver_pipeline_only: "pipeline_only c (snd (deliver jrs c))"
proof (induction jrs arbitrary: c)
  case (Cons x jrs)
  obtain job r where x: "x = (job, r)" by fastforce
  have "pipeline_only c (case r of Inl _ \<Rightarrow> IncPublishPipelineError 1 c | Inr _ \<Rightarrow> c)" by (cases r) simp_all
  with Cons.IH show ?case by (auto simp: x Let_def split_def intro: pipeline_only_trans)
qed simp

lemma flushBatch_pipeline_only:
  assumes "flushBatch R n batch (w, c) = (res, w', c')"
  shows "pipeline_only c c'"
proof -
  obtain expired live w1 where b: "build_batch R n batch w = (expired, live, w1)" by (metis prod_cases3)
  obtain e cmds w2 where x: "ExecXAdds R flushCtx (map snd live) w1 = ((e, cmds), w2)" by (metis prod_cases3 surj_pair)
  let ?c2 = "IncPublishPipelineFlushedEntries (word_of_nat (length live)) (IncPublishPipelineFlushedBatch c)"
  have "pipeline_only c (snd (deliver (zip (map fst live) cmds) ?c2))"
    by (rule pipeline_only_trans [OF _ deliver_pipeline_only]) simp
  with assms b x show ?thesis
    by (auto simp: flushBatch_def Let_def split_def split: if_splits option.splits)
qed

section \<open>Invariant of the pipeline\<close>

definition buffer_size :: "publishJob list \<Rightarrow> int" where
  "buffer_size js = int64_wrap (sum_list (map estimatedBytes js))"

lemma int64_wrap_add: "int64_wrap (int64_wrap a + b) = int64_wrap (a + b)"
proof -
  have "(word_of_int (int64_wrap a) :: 64 word) = word_of_int a" by (simp add: int64_wrap_def)
  then have "(word_of_int (int64_wrap a + b) :: 64 word) = word_of_int (a + b)" by (metis wi_hom_add)
  then show ?thesis by (simp add: int64_wrap_def)
qed

lemma buffer_size_snoc: "int64_wrap (buffer_size js + estimatedBytes j) = buffer_size (js @ [j])"
  by (simp add: buffer_size_def int64_wrap_add)

definition pipe_inv :: "publishPipelineConfig \<Rightarrow> 'w pipe \<Rightarrow> bool" where
  "pipe_inv cf s \<longleftrightarrow>
     pEnqueued s = pFlushed s @ pBuffer s @ pQueue s \<and>
     map jobID (pEnqueued s) = [0..<pNext s] \<and>
     dom (pResults s) = jobID ` set (pFlushed s) \<and>
     (pcQueueSize cf \<ge> 0 \<longrightarrow> int (length (pQueue s)) \<le> pcQueueSize cf) \<and>
     pBufferBytes s = buffer_size (pBuffer s) \<and>
     (pDone s \<longleftrightarrow> pPc s = Stopped) \<and> (pDone s \<longrightarrow> pBuffer s = []) \<and>
     (pPc s \<in> {Draining True, Stopped} \<longrightarrow> pStop s) \<and>
     (pPc s = AtSelect \<longrightarrow> pBuffer s = [] \<or> \<not> flush_due cf s)"

lemma pipe_invD:
  assumes "pipe_inv cf s"
  shows "pEnqueued s = pFlushed s @ pBuffer s @ pQueue s" "dom (pResults s) = jobID ` set (pFlushed s)" "pDone s \<Longrightarrow> pBuffer s = []"
    "map jobID (pEnqueued s) = [0..<pNext s]" "0 \<le> pcQueueSize cf \<Longrightarrow> int (length (pQueue s)) \<le> pcQueueSize cf"
    "pBufferBytes s = buffer_size (pBuffer s)" "pPc s = AtSelect \<Longrightarrow> pBuffer s = [] \<or> \<not> flush_due cf s"
  using assms unfolding pipe_inv_def by blast+

lemma flush_inv:
  assumes "exec_complete R" "pipe_inv cf s" "pPc s \<noteq> Stopped"
  shows "pipe_inv cf ((flush R cf s)\<lparr>pPc := AtSelect\<rparr>)" "pStop s \<Longrightarrow> pipe_inv cf ((flush R cf s)\<lparr>pPc := Stopped, pDone := True\<rparr>)"
    "pBuffer (flush R cf s) = []"
proof -
  obtain res w c where f: "flushBatch R (pcMaxStreamLen cf) (pBuffer s) (pWorld s, pCollector s) = (res, w, c)" by (metis prod_cases3)
  note ids = flushBatch_ids [OF assms(1) f]
  have "dom (pResults s ++ map_of res) = jobID ` set (pFlushed s @ pBuffer s)"
    using assms(2) ids by (auto simp: pipe_inv_def dom_map_of_conv_image_fst)
  then show "pipe_inv cf ((flush R cf s)\<lparr>pPc := AtSelect\<rparr>)" "pStop s \<Longrightarrow> pipe_inv cf ((flush R cf s)\<lparr>pPc := Stopped, pDone := True\<rparr>)"
    "pBuffer (flush R cf s) = []"
    using assms(2,3) f by (auto simp: pipe_inv_def flush_def buffer_size_def int64_wrap_id)
qed

lemma take_job_inv:
  assumes "pipe_inv cf s" "pQueue s = job # q" "b \<longrightarrow> pStop s" "pPc s \<noteq> Stopped"
  shows "pipe_inv cf ((take_job job q s)\<lparr>pPc := Draining b\<rparr>)"
  using assms buffer_size_snoc [of "pBuffer s" job] by (auto simp: pipe_inv_def take_job_def)

lemma pPc_same: "pPc s = p \<Longrightarrow> s\<lparr>pPc := p\<rparr> = s"
  by (cases s) simp

lemma run_step_inv:
  assumes "exec_complete R" "run_step R cf s t" "pipe_inv cf s"
  shows "pipe_inv cf t"
  using assms(2)
proof (cases rule: run_step.cases)
  case stop_seen
  then show ?thesis using assms(3) by (auto simp: pipe_inv_def)
next
  case tick
  have "pPc (flush R cf s) = AtSelect" using tick by (simp add: flush_def split: prod.split)
  then have "(flush R cf s)\<lparr>pPc := AtSelect\<rparr> = flush R cf s" by (rule pPc_same)
  with flush_inv(1) [OF assms(1,3)] tick show ?thesis by simp
next
  case (receive job q)
  with take_job_inv [OF assms(3), of job q False] show ?thesis by simp
next
  case (drain b job q)
  have "pPc (take_job job q s) = Draining b" using drain by (simp add: take_job_def)
  then have "(take_job job q s)\<lparr>pPc := Draining b\<rparr> = take_job job q s" by (rule pPc_same)
  moreover have "b \<longrightarrow> pStop s" using drain(2) assms(3) by (cases b) (simp_all add: pipe_inv_def)
  ultimately show ?thesis using take_job_inv [OF assms(3) drain(3), of b] drain(1,2) by simp
next
  case drained
  then show ?thesis
    using flush_inv(1) [OF assms(1,3)] assms(3) by (auto simp: pipe_inv_def flush_due_def)
next
  case drained_stop
  then show ?thesis using flush_inv(2) [OF assms(1,3)] assms(3) by (auto simp: pipe_inv_def)
qed

lemma publish_begin_inv:
  assumes "publish_begin R cf ctx req s r t" "pipe_inv cf s"
  shows "pipe_inv cf t"
  using assms
proof (cases rule: publish_begin.cases)
  case begin_queued
  then show ?thesis using assms(2) by (auto simp: pipe_inv_def enqueue_def new_job_def flush_due_def)
qed simp_all

lemma pipe_step_inv: "pipe_step R cf s t \<Longrightarrow> exec_complete R \<Longrightarrow> pipe_inv cf s \<Longrightarrow> pipe_inv cf t"
proof (induction rule: pipe_step.induct)
  case (goroutine s t)
  then show ?case by (blast intro: run_step_inv)
next
  case (caller ctx req s r t)
  then show ?case by (blast intro: publish_begin_inv)
next
  case (close s)
  then show ?case by (auto simp: pipe_inv_def pipeline_Close_def flush_due_def)
next
  case (others s w)
  then show ?case by (auto simp: pipe_inv_def flush_due_def)
qed

lemma new_pipe_inv: "pipe_inv cf (newPublishPipeline w c)"
  by (simp add: pipe_inv_def newPublishPipeline_def buffer_size_def int64_wrap_id)

interpretation pipe_machine: transition_system "\<lambda>s. \<exists>w c. s = newPublishPipeline w c" "pipe_step R cf"
    "\<lambda>s. exec_complete R \<longrightarrow> pipe_inv cf s" for R :: "'w redis" and cf
  by unfold_locales (auto intro: new_pipe_inv pipe_step_inv)



lemma drain_run:
  assumes "pPc s = Draining True" "pipe_inv cf s" "exec_complete R"
  shows "\<exists>t. (run_step R cf)\<^sup>*\<^sup>* s t \<and> pDone t \<and> pQueue t = [] \<and> pEnqueued t = pEnqueued s"
  using assms
proof (induction "pQueue s" arbitrary: s)
  case Nil
  let ?t = "(flush R cf s)\<lparr>pPc := Stopped, pDone := True\<rparr>"
  have "run_step R cf s ?t" using Nil by (intro run_step.drained_stop) simp_all
  moreover have "pQueue ?t = [] \<and> pEnqueued ?t = pEnqueued s" using Nil by (simp add: flush_def split: prod.split)
  ultimately show ?case by (intro exI [of _ ?t]) auto
next
  case (Cons job q)
  let ?t = "take_job job q s"
  have step: "run_step R cf s ?t" using Cons by (intro run_step.drain) simp_all
  have "pipe_inv cf ?t" by (rule run_step_inv [OF Cons.prems(3) step Cons.prems(2)])
  moreover have "pPc ?t = Draining True" "pQueue ?t = q" "pEnqueued ?t = pEnqueued s" using Cons.prems by (simp_all add: take_job_def)
  ultimately obtain u where "(run_step R cf)\<^sup>*\<^sup>* ?t u" "pDone u" "pQueue u = []" "pEnqueued u = pEnqueued s"
    using Cons.hyps(1) [of ?t] Cons.prems(3) by auto
  with step show ?case by (meson converse_rtranclp_into_rtranclp)
qed

lemma run_steps_inv: "(run_step R cf)\<^sup>*\<^sup>* s t \<Longrightarrow> exec_complete R \<Longrightarrow> pipe_inv cf s \<Longrightarrow> pipe_inv cf t"
  by (induction rule: rtranclp_induct) (auto intro: run_step_inv)


section \<open>Who gets which result\<close>

lemma build_batch_live:
  assumes "\<forall>j\<in>set batch. \<forall>w. CtxErr R (jobCtx j) w = None" "build_batch R n batch w = (res, live, w')"
  shows "res = []" "map fst live = batch" "list_all2 (\<lambda>j a. \<exists>now. a = BuildXAddArgs now (jobReq j) n) batch (map snd live)"
proof -
  have "res = [] \<and> map fst live = batch \<and> list_all2 (\<lambda>j a. \<exists>now. a = BuildXAddArgs now (jobReq j) n) batch (map snd live)"
    using assms
  proof (induction batch arbitrary: w res live w')
    case (Cons j js)
    obtain now w1 where "Now R w = (now, w1)" by fastforce
    moreover obtain res1 live1 w2 where "build_batch R n js w1 = (res1, live1, w2)" by (metis prod_cases3)
    ultimately show ?case using Cons.IH [of w1 res1 live1 w2] Cons.prems by auto
  qed simp
  then show "res = []" "map fst live = batch" "list_all2 (\<lambda>j a. \<exists>now. a = BuildXAddArgs now (jobReq j) n) batch (map snd live)"
    by blast+
qed

text \<open>Remark. A flush sends one \<open>XADD\<close> per job, in the order of the batch and built from the job's own request, and every
  job gets the answer to its own command; when the pipeline as a whole fails, every job gets that error.\<close>

theorem flush_delivers_own_results:
  assumes "exec_complete R" "batch \<noteq> []" "\<forall>j\<in>set batch. \<forall>w. CtxErr R (jobCtx j) w = None"
    and "flushBatch R n batch (w, c) = (res, w', c')"
  shows "\<exists>as w1 e cmds. list_all2 (\<lambda>j a. \<exists>now. a = BuildXAddArgs now (jobReq j) n) batch as \<and>
    ExecXAdds R flushCtx as w1 = ((e, cmds), w') \<and>
    (case e of
       Some err \<Rightarrow> res = (if errors_Is err RedisNil then zip (map jobID batch) cmds else map (\<lambda>j. (jobID j, Inl err)) batch)
     | None \<Rightarrow> res = zip (map jobID batch) cmds)"
proof -
  obtain expired live w1 where b: "build_batch R n batch w = (expired, live, w1)" by (metis prod_cases3)
  note live = build_batch_live [OF assms(3) b]
  obtain e cmds w2 where x: "ExecXAdds R flushCtx (map snd live) w1 = ((e, cmds), w2)" by (metis prod_cases3 surj_pair)
  have len: "length batch = length cmds"
    using assms(1) x live(2) unfolding exec_complete_def by (metis length_map)
  have ne: "live \<noteq> []" using live(2) assms(2) by auto
  have "(case e of
       Some err \<Rightarrow> res = (if errors_Is err RedisNil then zip (map jobID batch) cmds else map (\<lambda>j. (jobID j, Inl err)) batch)
     | None \<Rightarrow> res = zip (map jobID batch) cmds) \<and> w' = w2"
    using assms(2,4) b x ne live(1,2) deliver_results [OF len]
    by (auto simp: flushBatch_def Let_def split_def split: option.splits if_splits)
  with live(3) x show ?thesis by blast
qed

section \<open>The pipeline as a publish client\<close>

text \<open>
  One schedule of the machine as an implementation of the sidecar's \<open>publishPipelineClient\<close>: the jobs of a call are
  accepted, taken by the goroutine and flushed before any other caller arrives.
\<close>

definition solo_state :: "'w redis \<Rightarrow> publishPipelineConfig \<Rightarrow> ctx \<Rightarrow> PublishRequest list \<Rightarrow> 'w \<times> collector \<Rightarrow> 'w pipe" where
  "solo_state R cf ctx reqs wc =
     (let s = fold (enqueue ctx) reqs (newPublishPipeline (fst wc) (snd wc))
      in flush R cf (fold (\<lambda>j t. take_job j (tl (pQueue t)) t) (pQueue s) s))"

definition job_result :: "'w pipe \<Rightarrow> nat \<Rightarrow> string go_result" where
  "job_result s i = (case pResults s i of Some r \<Rightarrow> r | None \<Rightarrow> Inl ErrPublishPipelineStopped)"

definition solo_pipeline :: "'w redis \<Rightarrow> publishPipelineConfig \<Rightarrow> 'w publishPipelineClient" where
  "solo_pipeline R cf =
     \<lparr>pipePublish = (\<lambda>ctx req wc. let s = solo_state R cf ctx [req] wc in (job_result s 0, pWorld s, pCollector s)),
      pipePublishMany = (\<lambda>ctx reqs wc. let s = solo_state R cf ctx reqs wc
         in (Inr (map (job_result s) [0..<length reqs]), pWorld s, pCollector s)),
      pipeQueueLength = (\<lambda>w. 0)\<rparr>"

lemma fold_enqueue_collector: "pipeline_only c (pCollector s) \<Longrightarrow> pipeline_only c (pCollector (fold (enqueue ctx) reqs s))"
  by (induction reqs arbitrary: s) (simp_all add: enqueue_def)

lemma fold_take_collector: "pCollector (fold (\<lambda>j t. take_job j (tl (pQueue t)) t) js s) = pCollector s"
  by (induction js arbitrary: s) (simp_all add: take_job_def)

lemma flush_collector: "pipeline_only (pCollector s) (pCollector (flush R cf s))"
  by (auto simp: flush_def split: prod.split dest: flushBatch_pipeline_only)

lemma solo_state_collector: "pipeline_only c (pCollector (solo_state R cf ctx reqs (w, c)))"
proof -
  let ?s = "fold (enqueue ctx) reqs (newPublishPipeline w c)"
  let ?t = "fold (\<lambda>j t. take_job j (tl (pQueue t)) t) (pQueue ?s) ?s"
  have "pipeline_only c (pCollector ?s)" by (rule fold_enqueue_collector) (simp add: newPublishPipeline_def)
  then have "pipeline_only c (pCollector ?t)" by (simp add: fold_take_collector)
  then show ?thesis using flush_collector [of ?t R cf] by (auto simp: solo_state_def Let_def intro: pipeline_only_trans)
qed

interpretation solo: pipeline_client "solo_pipeline R cf" for R :: "'w redis" and cf
  by unfold_locales (auto simp: solo_pipeline_def Let_def solo_state_collector)

text \<open>That schedule is a run of the machine: acceptance by the caller, then steps of the goroutine.\<close>

lemma solo_is_run:
  assumes "0 < pcQueueSize cf" "0 < pcFlushInterval cf" "pcMaxBatch cf > 1" "pcMaxBytes cf > estimatePublishRequestBytes req"
    and "estimatePublishRequestBytes req \<le> MaxInt64"
  shows "(pipe_step R cf)\<^sup>*\<^sup>* (newPublishPipeline w c) (solo_state R cf ctx [req] (w, c))"
proof -
  let ?s0 = "newPublishPipeline w c"
  let ?s1 = "enqueue ctx req ?s0"
  let ?j = "new_job ctx req ?s0"
  let ?s2 = "(take_job ?j [] ?s1)\<lparr>pPc := Draining False\<rparr>"
  let ?s3 = "take_job ?j [] ?s1"
  have q: "pQueue ?s1 = [?j]" "pPc ?s1 = AtSelect" by (simp_all add: enqueue_def newPublishPipeline_def)
  have a: "pipe_step R cf ?s0 ?s1"
    by (rule pipe_step.caller, rule begin_queued) (simp add: newPublishPipeline_def assms(1))
  have b: "pipe_step R cf ?s1 ?s2" by (intro pipe_step.goroutine run_step.receive) (use q in simp_all)
  have "0 \<le> estimatePublishRequestBytes req" by (simp add: estimatePublishRequestBytes_def Let_def)
  then have nd: "\<not> flush_due cf ?s2"
    using assms by (simp add: flush_due_def take_job_def enqueue_def newPublishPipeline_def new_job_def int64_wrap_id)
  have "?s2\<lparr>pPc := AtSelect\<rparr> = ?s3" using q(2) by (simp add: take_job_def enqueue_def newPublishPipeline_def)
  moreover have "run_step R cf ?s2 ((if flush_due cf ?s2 then flush R cf ?s2 else ?s2)\<lparr>pPc := AtSelect\<rparr>)"
    by (rule run_step.drained) (simp_all add: take_job_def)
  ultimately have d: "pipe_step R cf ?s2 ?s3" using nd by (intro pipe_step.goroutine) simp
  have e: "pipe_step R cf ?s3 (flush R cf ?s3)"
    using assms(2) by (intro pipe_step.goroutine run_step.tick) (simp_all add: take_job_def enqueue_def newPublishPipeline_def)
  have "solo_state R cf ctx [req] (w, c) = flush R cf ?s3" by (simp add: solo_state_def q Let_def)
  with a b d e show ?thesis by (metis converse_rtranclp_into_rtranclp r_into_rtranclp)
qed

section \<open>Examples\<close>

definition sample_pipe_cfg :: publishPipelineConfig where
  "sample_pipe_cfg = \<lparr>pcMaxStreamLen = 1000, pcMaxBatch = 64, pcMaxBytes = 1048576, pcFlushInterval = 2000000, pcQueueSize = 1\<rparr>"

lemma mem_exec_complete: "exec_complete mem_redis"
proof -
  have "length (snd (fst (mem_ExecXAdds ctx as w))) = length as" for ctx as w
    by (induction as arbitrary: w) (simp_all add: split_def)
  then show ?thesis unfolding exec_complete_def mem_redis_simps by (metis fst_conv snd_conv)
qed

definition sample_pipe :: "mem_world pipe" where
  "sample_pipe = newPublishPipeline mem_empty sample_collector"

lemma sample_pipe_reach:
  "(pipe_step mem_redis sample_pipe_cfg)\<^sup>*\<^sup>* (newPublishPipeline mem_empty sample_collector) (enqueue RequestCtx (sample_req ''a'') sample_pipe)"
  unfolding sample_pipe_def
  by (rule r_into_rtranclp, rule pipe_step.caller, rule begin_queued) (simp add: newPublishPipeline_def sample_pipe_cfg_def)



text \<open>A job accepted after the goroutine has ended stays in the channel.\<close>

definition stopped_pipe :: "mem_world pipe" where
  "stopped_pipe = sample_pipe\<lparr>pStop := True, pPc := Stopped, pDone := True\<rparr>"

lemma stopped_pipe_reach:
  "(pipe_step mem_redis sample_pipe_cfg)\<^sup>*\<^sup>* (newPublishPipeline mem_empty sample_collector) (enqueue RequestCtx (sample_req ''a'') stopped_pipe)"
proof -
  let ?s1 = "pipeline_Close sample_pipe"
  let ?s2 = "?s1\<lparr>pPc := Draining True\<rparr>"
  have a: "pipe_step mem_redis sample_pipe_cfg sample_pipe ?s1" by (rule pipe_step.close)
  have b: "pipe_step mem_redis sample_pipe_cfg ?s1 ?s2"
    by (intro pipe_step.goroutine run_step.stop_seen) (simp_all add: pipeline_Close_def sample_pipe_def newPublishPipeline_def)
  have "run_step mem_redis sample_pipe_cfg ?s2 ((flush mem_redis sample_pipe_cfg ?s2)\<lparr>pPc := Stopped, pDone := True\<rparr>)"
    by (rule run_step.drained_stop) (simp_all add: pipeline_Close_def sample_pipe_def newPublishPipeline_def)
  moreover have "(flush mem_redis sample_pipe_cfg ?s2)\<lparr>pPc := Stopped, pDone := True\<rparr> = stopped_pipe"
    by (simp add: flush_def stopped_pipe_def pipeline_Close_def sample_pipe_def newPublishPipeline_def)
  ultimately have d: "pipe_step mem_redis sample_pipe_cfg ?s2 stopped_pipe" by (simp add: pipe_step.goroutine)
  have e: "pipe_step mem_redis sample_pipe_cfg stopped_pipe (enqueue RequestCtx (sample_req ''a'') stopped_pipe)"
    by (rule pipe_step.caller, rule begin_queued) (simp add: stopped_pipe_def sample_pipe_def newPublishPipeline_def sample_pipe_cfg_def)
  from a b d e show ?thesis unfolding sample_pipe_def by (meson converse_rtranclp_into_rtranclp r_into_rtranclp)
qed


theorem flush_delivers_own_results_witness:
  "\<exists>res w' c'. flushBatch mem_redis 1000 [new_job RequestCtx (sample_req ''a'') sample_pipe] (mem_empty, sample_collector) = (res, w', c') \<and>
     map fst res = [0]"
proof -
  let ?j = "new_job RequestCtx (sample_req ''a'') sample_pipe"
  obtain res w' c' where f: "flushBatch mem_redis 1000 [?j] (mem_empty, sample_collector) = (res, w', c')" by (metis prod_cases3)
  have "[?j] \<noteq> []" "\<forall>j\<in>set [?j]. \<forall>w. CtxErr mem_redis (jobCtx j) w = None" by simp_all
  from flush_delivers_own_results [OF mem_exec_complete this f] obtain as w1 e cmds where
      run: "list_all2 (\<lambda>j a. \<exists>now. a = BuildXAddArgs now (jobReq j) 1000) [?j] as" "ExecXAdds mem_redis flushCtx as w1 = ((e, cmds), w')"
      and res: "case e of Some err \<Rightarrow> res = (if errors_Is err RedisNil then zip (map jobID [?j]) cmds else map (\<lambda>j. (jobID j, Inl err)) [?j])
        | None \<Rightarrow> res = zip (map jobID [?j]) cmds"
    by blast
  from list_all2_lengthD [OF run(1)] run(2) have "length cmds = Suc 0"
    using mem_exec_complete unfolding exec_complete_def by fastforce
  then obtain r where "cmds = [r]" by (auto simp: length_Suc_conv)
  with res have "map fst res = [jobID ?j]" by (cases e) (auto split: if_splits)
  with f show ?thesis by (simp add: new_job_def sample_pipe_def newPublishPipeline_def)
qed

section \<open>A batch that does not fit\<close>

text \<open>Remark. When the channel fills up in the middle of \<open>PublishMany\<close>, the caller gets the queue-full error, on which
  the sidecar publishes the whole batch directly; but the jobs accepted before stay in the channel and are flushed
  too, so their messages are published twice.\<close>

theorem many_full_leaves_jobs:
  assumes "many_begin R cf ctx reqs s (Inl ErrPublishPipelineQueueFull) s'"
    and "\<forall>w. CtxErr R ctx w = None" "0 \<le> pcQueueSize cf" "int (length (pQueue s)) \<le> pcQueueSize cf"
  shows "map jobReq (pQueue s') = map jobReq (pQueue s) @ take (nat (pcQueueSize cf) - length (pQueue s)) reqs \<and>
    nat (pcQueueSize cf) - length (pQueue s) < length reqs"
  using assms
proof (induction reqs s "Inl ErrPublishPipelineQueueFull :: nat list go_result" s' rule: many_begin.induct)
  case (many_error req s s' reqs)
  show ?case by (rule begin_refusedE [OF many_error(1)]) (use many_error(2) in simp_all)
next
  case (many_stop req s i s1 reqs s')
  from many_stop(1) have s1: "s1 = enqueue ctx req s" and room: "int (length (pQueue s)) < pcQueueSize cf"
    by (blast elim: begin_acceptedE)+
  have q: "pQueue s1 = pQueue s @ [new_job ctx req s]" by (simp add: s1 enqueue_def)
  have n: "nat (pcQueueSize cf) - length (pQueue s) = Suc (nat (pcQueueSize cf) - length (pQueue s1))" using room q by simp
  have "jobReq (new_job ctx req s) = req" by (simp add: new_job_def)
  with many_stop(3) [OF many_stop(4,5)] q n room show ?case by simp
qed

theorem many_full_leaves_jobs_witness:
  "\<exists>s'. many_begin mem_redis sample_pipe_cfg RequestCtx [sample_req ''a'', sample_req ''b''] sample_pipe (Inl ErrPublishPipelineQueueFull) s' \<and>
     map jobReq (pQueue s') = [sample_req ''a'']"
proof -
  let ?s1 = "enqueue RequestCtx (sample_req ''a'') sample_pipe"
  have a: "publish_begin mem_redis sample_pipe_cfg RequestCtx (sample_req ''a'') sample_pipe (Inr (pNext sample_pipe)) ?s1"
    by (rule begin_queued) (simp add: sample_pipe_def newPublishPipeline_def sample_pipe_cfg_def)
  have "publish_begin mem_redis sample_pipe_cfg RequestCtx (sample_req ''b'') ?s1 (Inl ErrPublishPipelineQueueFull) ?s1"
    by (rule begin_full) (simp_all add: enqueue_def sample_pipe_def newPublishPipeline_def sample_pipe_cfg_def)
  with a have m: "many_begin mem_redis sample_pipe_cfg RequestCtx [sample_req ''a'', sample_req ''b''] sample_pipe (Inl ErrPublishPipelineQueueFull) ?s1"
    by (blast intro: many_stop many_error)
  from many_full_leaves_jobs [OF m] m show ?thesis by (auto simp: sample_pipe_def newPublishPipeline_def sample_pipe_cfg_def)
qed

end
