(* ===== verification/Dlq.thy ===== *)
theory Dlq
  imports Consume
begin

text \<open>
  Dead letters: the scan that moves pending entries with too many deliveries to a dead-letter stream
  (\<open>scanAndMoveToDLQ\<close>, \<open>movePendingEntryToDLQ\<close> and \<open>trackedStreamsForDLQ\<close> in \<open>service.go\<close>) and the replay of
  dead letters to their streams (\<open>dlq_replay.go\<close>).

  The scan asks Redis for pages of pending entries until a page is short; since the sources do not bound the
  number of pages, the loop is a partial function whose value is \<open>None\<close> when it does not end.
\<close>

abbreviation incrementDLQMoved :: "'w sidecar \<Rightarrow> 'w sidecar" where
  "incrementDLQMoved \<equiv> on_collector IncDLQMoved"
abbreviation incrementDLQReplayed :: "uint64 \<Rightarrow> 'w sidecar \<Rightarrow> 'w sidecar" where
  "incrementDLQReplayed n \<equiv> on_collector (IncDLQReplayed n)"

section \<open>Moving entries to the dead-letter stream\<close>

definition trackedStreamsForDLQ :: "Config \<Rightarrow> string list" where
  "trackedStreamsForDLQ c =
     sort (remdups (filter (\<lambda>t. t \<noteq> '''') (map TrimSpace (ConsumeStreams c @ PublishStreams c))))"

definition dlq_metadata :: "string \<Rightarrow> string \<Rightarrow> string \<Rightarrow> XPendingExt \<Rightarrow> string \<Rightarrow> string \<rightharpoonup> goany" where
  "dlq_metadata stream grp eid pending now =
     [''dlq_original_stream'' \<mapsto> GoString stream,
      ''dlq_original_group'' \<mapsto> GoString grp,
      ''dlq_original_id'' \<mapsto> GoString eid,
      ''dlq_reason'' \<mapsto> GoString ''max_retries_exceeded'',
      ''dlq_retry_count'' \<mapsto> GoInt (pendRetryCount pending),
      ''dlq_idle_ms'' \<mapsto> GoInt (Milliseconds (pendIdle pending)),
      ''dlq_moved_at'' \<mapsto> GoString now]"

definition dlq_values :: "string \<Rightarrow> string \<Rightarrow> XMessage \<Rightarrow> XPendingExt \<Rightarrow> string \<Rightarrow> string \<rightharpoonup> goany" where
  "dlq_values stream grp message pending now = dlq_metadata stream grp (msgID message) pending now ++ msgValues message"

definition movePendingEntryToDLQ ::
  "ctx \<Rightarrow> string \<Rightarrow> string \<Rightarrow> XPendingExt \<Rightarrow> string \<Rightarrow> 'w sidecar \<Rightarrow> (bool \<times> go_error option) \<times> 'w sidecar" where
  "movePendingEntryToDLQ ctx stream grp pending dlqStream s =
     (case XRange (redis s) ctx stream (pendID pending) (pendID pending) (world s) of
        (Inl err, w1) \<Rightarrow> ((False, Some err), s\<lparr>world := w1\<rparr>)
      | (Inr [], w1) \<Rightarrow> ((False, None), s\<lparr>world := w1\<rparr>)
      | (Inr (message # _), w1) \<Rightarrow>
          (let (now, w2) = Now (redis s) w1;
               args = \<lparr>xaStream = dlqStream, xaMaxLen = MaxStreamLen (cfg s), xaApprox = True,
                       xaValues = ValueMap (dlq_values stream grp message pending now)\<rparr>
           in case XAdd (redis s) ctx args w2 of
                (Inl err, w3) \<Rightarrow> ((False, Some err), s\<lparr>world := w3\<rparr>)
              | (Inr _, w3) \<Rightarrow>
                  (case XAck (redis s) ctx stream grp [msgID message] w3 of
                     (Inl err, w4) \<Rightarrow> ((False, Some err), s\<lparr>world := w4\<rparr>)
                   | (Inr _, w4) \<Rightarrow> ((True, None), s\<lparr>world := w4\<rparr>))))"

section \<open>The scan\<close>

definition dlq_eligible :: "StreamDLQPolicy \<Rightarrow> XPendingExt \<Rightarrow> bool" where
  "dlq_eligible policy pending =
     (if pendRetryCount pending < MaxRetries policy then False
      else if MinIdle policy > 0 \<and> pendIdle pending < MinIdle policy then False
      else True)"

fun scan_entries :: "ctx \<Rightarrow> string \<Rightarrow> string \<Rightarrow> StreamDLQPolicy \<Rightarrow> XPendingExt list \<Rightarrow> 'w sidecar \<Rightarrow> 'w sidecar" where
  "scan_entries ctx stream grp policy [] s = s"
| "scan_entries ctx stream grp policy (pending # rest) s =
     (if \<not> dlq_eligible policy pending then scan_entries ctx stream grp policy rest s
      else case movePendingEntryToDLQ ctx stream grp pending (DLQStream policy) s of
        ((moved, Some moveErr), s1) \<Rightarrow> scan_entries ctx stream grp policy rest (incrementError s1)
      | ((moved, None), s1) \<Rightarrow>
          scan_entries ctx stream grp policy rest (if moved then incrementDLQMoved s1 else s1))"

definition pending_page :: "ctx \<Rightarrow> string \<Rightarrow> string \<Rightarrow> string \<Rightarrow> 'w sidecar \<Rightarrow> XPendingExt list go_result \<times> 'w sidecar" where
  "pending_page ctx stream grp start s =
     (let (r, w) = XPendingExtCmd (redis s) ctx
                     \<lparr>xpStream = stream, xpGroup = grp, xpStart = start, xpEnd = ''+'', xpCount = DLQScanBatch (cfg s)\<rparr> (world s)
      in (r, s\<lparr>world := w\<rparr>))"

partial_function (option) scan_group ::
  "ctx \<Rightarrow> string \<Rightarrow> string \<Rightarrow> StreamDLQPolicy \<Rightarrow> string \<Rightarrow> 'w sidecar \<Rightarrow> 'w sidecar option" where
  "scan_group ctx stream grp policy start s =
     (case pending_page ctx stream grp start s of
        (Inl err, s1) \<Rightarrow>
          if Contains (ToLower (Error err)) ''nogroup'' then Some s1 else Some (incrementError s1)
      | (Inr [], s1) \<Rightarrow> Some s1
      | (Inr (p # ps), s1) \<Rightarrow>
          (let s2 = scan_entries ctx stream grp policy (p # ps) s1
           in if int (length (p # ps)) < DLQScanBatch (cfg s2) then Some s2
              else scan_group ctx stream grp policy (''('' @ pendID (last (p # ps))) s2))"

fun scan_groups :: "ctx \<Rightarrow> string \<Rightarrow> StreamDLQPolicy \<Rightarrow> string list \<Rightarrow> 'w sidecar \<Rightarrow> 'w sidecar option" where
  "scan_groups ctx stream policy [] s = Some s"
| "scan_groups ctx stream policy (g # gs) s =
     (case scan_group ctx stream g policy ''-'' s of
        None \<Rightarrow> None
      | Some s1 \<Rightarrow> scan_groups ctx stream policy gs s1)"

fun scan_streams :: "ctx \<Rightarrow> string list \<Rightarrow> 'w sidecar \<Rightarrow> 'w sidecar option" where
  "scan_streams ctx [] s = Some s"
| "scan_streams ctx (stream # streams) s =
     (let policy = ResolveDLQPolicy (cfg s) stream;
          (r, w) = XInfoGroups (redis s) ctx stream (world s);
          s1 = s\<lparr>world := w\<rparr>
      in case r of
           Inl err \<Rightarrow>
             if errors_Is err RedisNil \<or> isNoSuchStreamErr (Some err) then scan_streams ctx streams s1
             else scan_streams ctx streams (incrementError s1)
         | Inr groups \<Rightarrow>
             (case scan_groups ctx stream policy groups s1 of
                None \<Rightarrow> None
              | Some s2 \<Rightarrow> scan_streams ctx streams s2))"

definition scanAndMoveToDLQ :: "ctx \<Rightarrow> 'w sidecar \<Rightarrow> 'w sidecar option" where
  "scanAndMoveToDLQ ctx s =
     (let streams = trackedStreamsForDLQ (cfg s)
      in if streams = [] then Some s else scan_streams ctx streams s)"

text \<open>The background loop, for a number of ticks before its context ends.\<close>

fun dlq_ticks :: "ctx \<Rightarrow> nat \<Rightarrow> 'w sidecar \<Rightarrow> 'w sidecar option" where
  "dlq_ticks ctx 0 s = Some s"
| "dlq_ticks ctx (Suc n) s = (case scanAndMoveToDLQ ctx s of None \<Rightarrow> None | Some s1 \<Rightarrow> dlq_ticks ctx n s1)"

definition runDLQLoop :: "ctx \<Rightarrow> nat \<Rightarrow> 'w sidecar \<Rightarrow> 'w sidecar option" where
  "runDLQLoop ctx ticks s =
     (if DLQMaxRetries (cfg s) = 0 \<or> DLQScanInterval (cfg s) = 0 then Some s else dlq_ticks ctx ticks s)"

section \<open>Replaying dead letters\<close>

text \<open>
  The identifiers of a result are a slice, \<open>None\<close> being the nil slice; appending to either gives a slice.
\<close>

record dlqReplayRequest =
  drDLQStream :: string
  drTargetStream :: string
  drCount :: int
  drStart :: string
  drEnd :: string
  drDeleteFromDLQ :: bool

record dlqReplayResult =
  resReplayed :: int
  resSkipped :: int
  resEntryIDs :: "string list option"

definition replay_target :: "string \<Rightarrow> XMessage \<Rightarrow> string" where
  "replay_target target message =
     (if target = ''''
      then (case msgValues message ''dlq_original_stream'' of
              Some raw \<Rightarrow> TrimSpace (Sprint raw)
            | None \<Rightarrow> target)
      else target)"

definition replay_values :: "string \<Rightarrow> XMessage \<Rightarrow> string \<Rightarrow> string \<rightharpoonup> goany" where
  "replay_values dlqStream message now =
     (let base = (\<lambda>k. if HasPrefix k ''dlq_'' then None else msgValues message k);
          v1 = base(''dlq_replayed_from'' \<mapsto> GoString dlqStream, ''dlq_replayed_at'' \<mapsto> GoString now)
      in case msgValues message ''dlq_original_id'' of
           Some originalID \<Rightarrow> v1(''dlq_original_id'' \<mapsto> originalID)
         | None \<Rightarrow> v1)"

definition append_slice :: "'a list option \<Rightarrow> 'a \<Rightarrow> 'a list option" where
  "append_slice xs x = Some ((case xs of None \<Rightarrow> [] | Some ys \<Rightarrow> ys) @ [x])"

text \<open>One message of the loop: skip it, requeue it (and delete the dead letter), or stop with an error.\<close>

datatype replay_step = Skip | Requeued | Stop go_error

definition replay_one :: "ctx \<Rightarrow> dlqReplayRequest \<Rightarrow> XMessage \<Rightarrow> 'w sidecar \<Rightarrow> replay_step \<times> 'w sidecar" where
  "replay_one ctx req message s =
     (let targetStream = replay_target (drTargetStream req) message
      in if targetStream = '''' then (Skip, s)
         else if \<not> IsStreamAllowed (PublishStreams (cfg s)) targetStream then (Skip, s)
         else (let (now, w1) = Now (redis s) (world s);
                   args = \<lparr>xaStream = targetStream, xaMaxLen = MaxStreamLen (cfg s), xaApprox = True,
                           xaValues = ValueMap (replay_values (drDLQStream req) message now)\<rparr>
               in case XAdd (redis s) ctx args w1 of
                    (Inl addErr, w2) \<Rightarrow>
                      (Stop (Wrapped (''failed to requeue dlq entry '' @ msgID message @ '': '') addErr),
                       incrementError (s\<lparr>world := w2\<rparr>))
                  | (Inr _, w2) \<Rightarrow>
                      if drDeleteFromDLQ req
                      then (case XDel (redis s) ctx (drDLQStream req) (msgID message) w2 of
                              (Inl delErr, w3) \<Rightarrow>
                                (Stop (Wrapped (''requeued but failed to delete dlq entry '' @ msgID message @ '': '') delErr),
                                 incrementError (s\<lparr>world := w3\<rparr>))
                            | (Inr _, w3) \<Rightarrow> (Requeued, s\<lparr>world := w3\<rparr>))
                      else (Requeued, s\<lparr>world := w2\<rparr>)))"

fun replay_messages ::
  "ctx \<Rightarrow> dlqReplayRequest \<Rightarrow> XMessage list \<Rightarrow> dlqReplayResult \<Rightarrow> 'w sidecar \<Rightarrow>
   (dlqReplayResult \<times> go_error option) \<times> 'w sidecar" where
  "replay_messages ctx req [] result s = ((result, None), s)"
| "replay_messages ctx req (message # rest) result s =
     (case replay_one ctx req message s of
        (Skip, s1) \<Rightarrow> replay_messages ctx req rest (result\<lparr>resSkipped := resSkipped result + 1\<rparr>) s1
      | (Stop err, s1) \<Rightarrow> ((result, Some err), s1)
      | (Requeued, s1) \<Rightarrow>
          replay_messages ctx req rest
            (result\<lparr>resReplayed := resReplayed result + 1, resEntryIDs := append_slice (resEntryIDs result) (msgID message)\<rparr>) s1)"

definition no_replay :: dlqReplayResult where
  "no_replay = \<lparr>resReplayed = 0, resSkipped = 0, resEntryIDs = None\<rparr>"

definition normalize_replay :: "dlqReplayRequest \<Rightarrow> dlqReplayRequest" where
  "normalize_replay req0 =
     (let req1 = (if drCount req0 \<le> 0 then req0\<lparr>drCount := 100\<rparr> else req0);
          req2 = (if drCount req1 > 1000 then req1\<lparr>drCount := 1000\<rparr> else req1);
          req3 = (if drStart req2 = '''' then req2\<lparr>drStart := ''-''\<rparr> else req2)
      in if drEnd req3 = '''' then req3\<lparr>drEnd := ''+''\<rparr> else req3)"

definition replayDLQInternal ::
  "ctx \<Rightarrow> dlqReplayRequest \<Rightarrow> 'w sidecar \<Rightarrow> (dlqReplayResult \<times> int \<times> go_error option) \<times> 'w sidecar" where
  "replayDLQInternal ctx req0 s =
     (let req1 = req0\<lparr>drDLQStream := TrimSpace (drDLQStream req0), drTargetStream := TrimSpace (drTargetStream req0),
                     drStart := TrimSpace (drStart req0), drEnd := TrimSpace (drEnd req0)\<rparr>
      in if drDLQStream req1 = ''''
         then ((no_replay, StatusBadRequest, Some (ErrMsg ''dlq_stream is required'')), incrementError s)
         else (let req = normalize_replay req1;
                   (r, w) = XRangeN (redis s) ctx (drDLQStream req) (drStart req) (drEnd req) (drCount req) (world s);
                   s1 = s\<lparr>world := w\<rparr>
               in case r of
                    Inl err \<Rightarrow>
                      if errors_Is err RedisNil \<or> isNoSuchStreamErr (Some err) then ((no_replay, StatusOK, None), s1)
                      else ((no_replay, StatusServiceUnavailable, Some (Wrapped ''failed to read dlq stream: '' err)), incrementError s1)
                  | Inr messages \<Rightarrow>
                      (case replay_messages ctx req messages (no_replay\<lparr>resEntryIDs := Some []\<rparr>) s1 of
                         ((result, Some err), s2) \<Rightarrow> ((result, StatusServiceUnavailable, Some err), s2)
                       | ((result, None), s2) \<Rightarrow>
                           ((result, StatusOK, None),
                            if resReplayed result > 0 then incrementDLQReplayed (word_of_int (resReplayed result)) s2 else s2))))"

definition replayDLQHTTP ::
  "(string \<Rightarrow> dlqReplayRequest go_result) \<Rightarrow> http_request \<Rightarrow> 'w sidecar \<Rightarrow> response \<times> 'w sidecar" where
  "replayDLQHTTP decode r s =
     (if reqMethod r \<noteq> ''POST'' then ((StatusMethodNotAllowed, None), s)
      else case decode (reqBody r) of
        Inl err \<Rightarrow> (writeJSON StatusBadRequest [(''error'', JStr ''invalid JSON'')], incrementError s)
      | Inr req \<Rightarrow>
          (case replayDLQInternal RequestCtx req s of
             ((result, statusCode, Some err), s1) \<Rightarrow> (writeJSON statusCode [(''error'', JStr (Error err))], s1)
           | ((result, statusCode, None), s1) \<Rightarrow>
               (writeJSON StatusOK [(''replayed'', JNum (resReplayed result)), (''skipped'', JNum (resSkipped result)),
                  (''entry_ids'', case resEntryIDs result of None \<Rightarrow> JNull | Some ids \<Rightarrow> JList (map JStr ids))], s1)))"

section \<open>Moving: order and content\<close>

lemma dlq_values_fields: "msgValues m k = Some v \<Longrightarrow> dlq_values st g m p now k = Some v"
  by (simp add: dlq_values_def map_add_def)

lemma dlq_values_metadata: "msgValues m k = None \<Longrightarrow> dlq_values st g m p now k = dlq_metadata st g (msgID m) p now k"
  by (simp add: dlq_values_def map_add_def)

text \<open>C12. A pending entry is acknowledged only after its copy is in the dead-letter stream: the move reads the
  entry, adds a copy that carries every field of the entry, then acknowledges that entry, in this order, and
  reports success exactly when all three succeeded; when reading or adding fails nothing is acknowledged.\<close>

theorem move_acks_after_copy:
  assumes "movePendingEntryToDLQ ctx stream grp pending dlqStream s = ((moved, err), s')"
  shows "\<exists>r w1. XRange (redis s) ctx stream (pendID pending) (pendID pending) (world s) = (r, w1) \<and>
    s' = s\<lparr>world := world s'\<rparr> \<and>
    (case r of
       Inl e \<Rightarrow> \<not> moved \<and> err = Some e \<and> world s' = w1
     | Inr [] \<Rightarrow> \<not> moved \<and> err = None \<and> world s' = w1
     | Inr (m # _) \<Rightarrow>
         (\<exists>now w2 a v x w3. Now (redis s) w1 = (now, w2) \<and> xaStream a = dlqStream \<and> xaValues a = ValueMap v \<and>
            (\<forall>k u. msgValues m k = Some u \<longrightarrow> v k = Some u) \<and> XAdd (redis s) ctx a w2 = (x, w3) \<and>
            (case x of
               Inl e \<Rightarrow> \<not> moved \<and> err = Some e \<and> world s' = w3
             | Inr eid \<Rightarrow> (\<exists>y. XAck (redis s) ctx stream grp [msgID m] w3 = (y, world s') \<and> moved = (\<not> isl y) \<and>
                                (err = None) = (\<not> isl y)))))"
proof -
  obtain r w1 where r: "XRange (redis s) ctx stream (pendID pending) (pendID pending) (world s) = (r, w1)" by fastforce
  show ?thesis
  proof (cases r)
    case (Inl e)
    with r assms show ?thesis by (auto simp: movePendingEntryToDLQ_def)
  next
    case (Inr ms)
    show ?thesis
    proof (cases ms)
      case Nil
      with Inr r assms show ?thesis by (auto simp: movePendingEntryToDLQ_def)
    next
      case (Cons m rest)
      obtain now w2 where n: "Now (redis s) w1 = (now, w2)" by fastforce
      let ?v = "dlq_values stream grp m pending now"
      let ?a = "\<lparr>xaStream = dlqStream, xaMaxLen = MaxStreamLen (cfg s), xaApprox = True, xaValues = ValueMap ?v\<rparr>"
      obtain x w3 where x: "XAdd (redis s) ctx ?a w2 = (x, w3)" by fastforce
      obtain y w4 where y: "XAck (redis s) ctx stream grp [msgID m] w3 = (y, w4)" by fastforce
      have "s' = s\<lparr>world := world s'\<rparr> \<and>
          (case x of Inl e \<Rightarrow> \<not> moved \<and> err = Some e \<and> world s' = w3
           | Inr eid \<Rightarrow> (\<exists>y. XAck (redis s) ctx stream grp [msgID m] w3 = (y, world s') \<and> moved = (\<not> isl y) \<and> (err = None) = (\<not> isl y)))"
        using assms r Inr Cons n x y
        by (cases x; cases y) (auto simp: movePendingEntryToDLQ_def)
      with r Inr Cons n x show ?thesis by (auto intro!: exI [of _ ?a] dlq_values_fields)
    qed
  qed
qed

definition sample_pending :: XPendingExt where
  "sample_pending = \<lparr>pendID = ''1-0'', pendIdle = 5000000000, pendRetryCount = 5\<rparr>"

definition sample_message :: XMessage where
  "sample_message = \<lparr>msgID = ''1-0'', msgValues = [''event_type'' \<mapsto> GoString ''t'', ''payload'' \<mapsto> GoString ''{}'']\<rparr>"

definition sample_dlq_world :: mem_world where
  "sample_dlq_world = mem_empty\<lparr>memStreams := (\<lambda>_. [])(''s'' := [sample_message]),
     memPending := (\<lambda>_. [])(''s'' := [sample_pending]), memNext := 2\<rparr>"

theorem move_acks_after_copy_witness:
  "\<exists>s'. movePendingEntryToDLQ BackgroundCtx ''s'' ''g'' sample_pending ''s:dlq'' ((sample_sidecar False)\<lparr>world := sample_dlq_world\<rparr>)
     = ((True, None), s') \<and> memAcked (world s') = [(''s'', ''g'', [''1-0''])]"
proof -
  let ?s = "(sample_sidecar False)\<lparr>world := sample_dlq_world\<rparr>"
  obtain moved err s' where m: "movePendingEntryToDLQ BackgroundCtx ''s'' ''g'' sample_pending ''s:dlq'' ?s = ((moved, err), s')"
    by (metis prod_cases3 surj_pair)
  from move_acks_after_copy [OF m] m show ?thesis
    by (auto simp: mem_XRange_def sample_dlq_world_def sample_message_def sample_pending_def mem_XAdd_def mem_XAck_def mem_empty_def Let_def)
      (metis mem_world.select_convs(3))
qed

section \<open>Which entries are moved\<close>

lemma scan_entries_frame: "cfg (scan_entries ctx st g pol ps s) = cfg s \<and> redis (scan_entries ctx st g pol ps s) = redis s \<and>
   wal (scan_entries ctx st g pol ps s) = wal s \<and> disk (scan_entries ctx st g pol ps s) = disk s"
proof (induction ps arbitrary: s)
  case (Cons p ps)
  have "cfg s1 = cfg s \<and> redis s1 = redis s \<and> wal s1 = wal s \<and> disk s1 = disk s"
    if "movePendingEntryToDLQ ctx st g p d s = (r, s1)" for d r s1
    using that by (auto simp: movePendingEntryToDLQ_def Let_def split: prod.splits sum.splits list.splits)
  with Cons.IH show ?case by (auto split: prod.splits option.splits)
qed simp

text \<open>Remark. The scan applies the policy exactly: an entry is moved if and only if it was delivered at least the
  configured number of times and has been idle at least the configured time (when one is configured); all others are
  left alone, so a page acts like the page of its eligible entries.\<close>

theorem scan_moves_eligible:
  "scan_entries ctx st g pol ps s = scan_entries ctx st g pol (filter (dlq_eligible pol) ps) s \<and>
   (\<forall>p. dlq_eligible pol p \<longleftrightarrow> MaxRetries pol \<le> pendRetryCount p \<and> (0 < MinIdle pol \<longrightarrow> MinIdle pol \<le> pendIdle p)) \<and>
   ((\<forall>p\<in>set ps. \<not> dlq_eligible pol p) \<longrightarrow> scan_entries ctx st g pol ps s = s)"
proof (intro conjI impI allI)
  show eq: "scan_entries ctx st g pol ps s = scan_entries ctx st g pol (filter (dlq_eligible pol) ps) s"
    by (induction ps arbitrary: s) (auto split: prod.splits option.splits)
  show "dlq_eligible pol p \<longleftrightarrow> MaxRetries pol \<le> pendRetryCount p \<and> (0 < MinIdle pol \<longrightarrow> MinIdle pol \<le> pendIdle p)" for p
    by (auto simp: dlq_eligible_def)
  assume "\<forall>p\<in>set ps. \<not> dlq_eligible pol p"
  then have "filter (dlq_eligible pol) ps = []" by simp
  with eq show "scan_entries ctx st g pol ps s = s" by simp
qed

theorem scan_moves_eligible_witness:
  "scan_entries BackgroundCtx ''s'' ''g'' \<lparr>MaxRetries = 9, MinIdle = 0, DLQStream = ''d''\<rparr> [sample_pending] (sample_sidecar False) = sample_sidecar False"
proof -
  have "\<forall>p\<in>set [sample_pending]. \<not> dlq_eligible \<lparr>MaxRetries = 9, MinIdle = 0, DLQStream = ''d''\<rparr> p"
    by (simp add: dlq_eligible_def sample_pending_def)
  with scan_moves_eligible [of BackgroundCtx "''s''" "''g''" "\<lparr>MaxRetries = 9, MinIdle = 0, DLQStream = ''d''\<rparr>" "[sample_pending]" "sample_sidecar False"]
  show ?thesis by blast
qed

section \<open>The scan ends\<close>

text \<open>
  What Redis documents of \<open>XPENDING\<close> with a range: from \<open>-\<close> it lists the pending entries in the order of their
  identifiers, from \<open>(id\<close> those after the entry \<open>id\<close>.  \<open>ids\<close> are the identifiers pending in a group during the scan.
\<close>

definition after :: "string \<Rightarrow> string list \<Rightarrow> string list" where
  "after start ids = (if start = ''-'' then ids else tl (dropWhile (\<lambda>x. ''('' @ x \<noteq> start) ids))"

definition pages_within :: "'w redis \<Rightarrow> ctx \<Rightarrow> (string \<Rightarrow> string \<Rightarrow> string list) \<Rightarrow> bool" where
  "pages_within R ctx ids \<longleftrightarrow>
     (\<forall>st g. distinct (ids st g)) \<and>
     (\<forall>a w ps w'. XPendingExtCmd R ctx a w = (Inr ps, w') \<longrightarrow> set (map pendID ps) \<subseteq> set (after (xpStart a) (ids (xpStream a) (xpGroup a))))"

lemma after_shorter:
  assumes "distinct ids" "i \<in> set (after start ids)"
  shows "length (after (''('' @ i) ids) < length (after start ids)"
proof -
  have cut: "length (tl (dropWhile (\<lambda>x. x \<noteq> i) xs)) < length xs" if "i \<in> set xs" for xs
  proof -
    have "dropWhile (\<lambda>x. x \<noteq> i) xs \<noteq> []" using that by (simp add: dropWhile_eq_Nil_conv)
    with length_dropWhile_le [of "\<lambda>x. x \<noteq> i" xs] show ?thesis by (cases "dropWhile (\<lambda>x. x \<noteq> i) xs") auto
  qed
  have new: "after (''('' @ i) ids = tl (dropWhile (\<lambda>x. x \<noteq> i) ids)" by (simp add: after_def)
  show ?thesis
  proof (cases "start = ''-''")
    case True
    with assms(2) cut [of ids] new show ?thesis by (simp add: after_def)
  next
    case False
    define A where "A = after start ids"
    define X where "X = takeWhile (\<lambda>x. ''('' @ x \<noteq> start) ids"
    define D where "D = dropWhile (\<lambda>x. ''('' @ x \<noteq> start) ids"
    define j where "j = hd D"
    have tl: "tl D = A" using False by (simp add: A_def D_def after_def)
    have "A \<noteq> []" using assms(2) unfolding A_def by fastforce
    with tl have "D \<noteq> []" by auto
    then have "D = j # A" using tl list.collapse [of D] unfolding j_def by simp
    moreover have "ids = X @ D" by (simp add: X_def D_def)
    ultimately have ids: "ids = X @ j # A" by simp
    have i: "i \<in> set A" using assms(2) by (simp add: A_def)
    have "distinct (X @ j # A)" using assms(1) unfolding ids .
    then have "\<forall>x\<in>set (X @ [j]). x \<noteq> i" using i by auto
    then have "dropWhile (\<lambda>x. x \<noteq> i) (X @ j # A) = dropWhile (\<lambda>x. x \<noteq> i) A"
      using dropWhile_append2 [of "X @ [j]" "\<lambda>x. x \<noteq> i" A] by simp
    then have "dropWhile (\<lambda>x. x \<noteq> i) ids = dropWhile (\<lambda>x. x \<noteq> i) A" unfolding ids .
    with cut [OF i] new show ?thesis unfolding A_def by simp
  qed
qed

lemma scan_group_returns:
  assumes "pages_within (redis s) ctx ids" "0 < DLQScanBatch (cfg s)"
  shows "\<exists>s'. scan_group ctx st g pol start s = Some s' \<and> cfg s' = cfg s \<and> redis s' = redis s"
  using assms
proof (induction "length (after start (ids st g))" arbitrary: start s rule: less_induct)
  case less
  obtain r s1 where page: "pending_page ctx st g start s = (r, s1)" by fastforce
  have f1: "cfg s1 = cfg s" "redis s1 = redis s" using page by (auto simp: pending_page_def split: prod.splits)
  show ?case
  proof (cases r)
    case (Inl e)
    with page f1 show ?thesis by (subst scan_group.simps) simp
  next
    case (Inr ps)
    show ?thesis
    proof (cases ps)
      case Nil
      with page Inr f1 show ?thesis by (subst scan_group.simps) simp
    next
      case (Cons p rest)
      let ?s2 = "scan_entries ctx st g pol ps s1"
      let ?next = "''('' @ pendID (last ps)"
      have f2: "cfg ?s2 = cfg s" "redis ?s2 = redis s" using scan_entries_frame f1 by metis+
      have "last ps \<in> set ps" using Cons by simp
      then have "pendID (last ps) \<in> set (after start (ids st g))"
        using page Inr less.prems(1) by (fastforce simp: pending_page_def pages_within_def split: prod.splits)
      then have "length (after ?next (ids st g)) < length (after start (ids st g))"
        using less.prems(1) by (intro after_shorter) (simp_all add: pages_within_def)
      from less.hyps [OF this, of ?s2] less.prems f2
      obtain s' where "scan_group ctx st g pol ?next ?s2 = Some s'" "cfg s' = cfg s" "redis s' = redis s" by auto
      with page Inr Cons f2 show ?thesis by (subst scan_group.simps) (auto simp: Let_def)
    qed
  qed
qed

lemma scan_groups_returns:
  assumes "pages_within (redis s) ctx ids" "0 < DLQScanBatch (cfg s)"
  shows "\<exists>s'. scan_groups ctx st pol gs s = Some s' \<and> cfg s' = cfg s \<and> redis s' = redis s"
  using assms
proof (induction gs arbitrary: s)
  case (Cons g gs)
  from scan_group_returns [OF Cons.prems] obtain s1 where
    s1: "scan_group ctx st g pol ''-'' s = Some s1" "cfg s1 = cfg s" "redis s1 = redis s" by blast
  with Cons.IH [of s1] Cons.prems show ?case by auto
qed simp

lemma scan_streams_returns:
  assumes "pages_within (redis s) ctx ids" "0 < DLQScanBatch (cfg s)"
  shows "\<exists>s'. scan_streams ctx sts s = Some s'"
  using assms
proof (induction sts arbitrary: s)
  case (Cons st sts)
  obtain r w where x: "XInfoGroups (redis s) ctx st (world s) = (r, w)" by fastforce
  show ?case
  proof (cases r)
    case (Inl e)
    with x Cons.IH [of "s\<lparr>world := w\<rparr>"] Cons.IH [of "incrementError (s\<lparr>world := w\<rparr>)"] Cons.prems
    show ?thesis by (auto simp: Let_def)
  next
    case (Inr gs)
    from scan_groups_returns [of "s\<lparr>world := w\<rparr>" ctx ids st "ResolveDLQPolicy (cfg s) st" gs] Cons.prems
    obtain s1 where s1: "scan_groups ctx st (ResolveDLQPolicy (cfg s) st) gs (s\<lparr>world := w\<rparr>) = Some s1"
      "cfg s1 = cfg s" "redis s1 = redis s" by auto
    with x Inr Cons.IH [of s1] Cons.prems show ?thesis by (auto simp: Let_def)
  qed
qed simp

text \<open>C25. The dead-letter scan ends: if the pages Redis returns for a range start lie after that start in the
  (finite) list of pending identifiers of the group, every scan returns, whatever commands fail on the way; the
  batch size being positive is what \<open>Load\<close> checks.\<close>

theorem dlq_scan_terminates:
  assumes "pages_within (redis s) ctx ids" "config_valid (cfg s)"
  shows "\<exists>s'. scanAndMoveToDLQ ctx s = Some s'"
proof -
  have "0 < DLQScanBatch (cfg s)" using assms(2) by (simp add: config_valid_def)
  with scan_streams_returns [OF assms(1)] show ?thesis by (simp add: scanAndMoveToDLQ_def Let_def)
qed

definition fixed_pending_redis :: "mem_world redis" where
  "fixed_pending_redis = mem_redis\<lparr>XPendingExtCmd := (\<lambda>ctx a w. (Inr (if xpStart a = ''-'' then [sample_pending] else []), w))\<rparr>"

theorem dlq_scan_terminates_witness:
  "\<exists>s'. scanAndMoveToDLQ BackgroundCtx ((sample_sidecar False)\<lparr>redis := fixed_pending_redis, world := sample_dlq_world\<rparr>) = Some s'"
proof (rule dlq_scan_terminates)
  show "pages_within (redis ((sample_sidecar False)\<lparr>redis := fixed_pending_redis, world := sample_dlq_world\<rparr>)) BackgroundCtx (\<lambda>_ _. [''1-0''])"
    by (auto simp: pages_within_def fixed_pending_redis_def after_def sample_pending_def split: if_splits)
  show "config_valid (cfg ((sample_sidecar False)\<lparr>redis := fixed_pending_redis, world := sample_dlq_world\<rparr>))"
    using sample_cfg_valid by simp
qed

section \<open>Round trip through the dead-letter stream\<close>

text \<open>Redis stores every value as a string.\<close>

definition stored_values :: "(string \<rightharpoonup> goany) \<Rightarrow> string \<rightharpoonup> goany" where
  "stored_values m k = map_option (\<lambda>v. GoString (toString v)) (m k)"

definition plain_message :: "XMessage \<Rightarrow> bool" where
  "plain_message m \<longleftrightarrow> (\<forall>k. HasPrefix k ''dlq_'' \<longrightarrow> msgValues m k = None)"

lemma dlq_keys: "HasPrefix ''dlq_original_stream'' ''dlq_''" "HasPrefix ''dlq_original_id'' ''dlq_''"
  "HasPrefix ''dlq_replayed_from'' ''dlq_''" "HasPrefix ''dlq_replayed_at'' ''dlq_''"
  by (simp_all add: HasPrefix_iff)

lemma dlq_metadata_prefix: "dlq_metadata st g i p now k \<noteq> None \<Longrightarrow> HasPrefix k ''dlq_''"
  by (auto simp: dlq_metadata_def HasPrefix_iff split: if_splits)

lemma replay_values_plain: "\<not> HasPrefix k ''dlq_'' \<Longrightarrow> replay_values d m now k = msgValues m k"
  using dlq_keys by (auto simp: replay_values_def Let_def split: option.splits)

text \<open>C24. Dead letters can be put back: when an entry without \<open>dlq_\<close> fields was moved and its copy (as Redis stores
  it, with every value a string) is replayed without an explicit target, it is requeued on the stream it came from,
  with exactly its original fields and, under \<open>dlq_original_id\<close>, its original identifier.\<close>

theorem dlq_roundtrip:
  assumes "plain_message m" "TrimSpace stream = stream" "stream \<noteq> ''''" "IsStreamAllowed (PublishStreams (cfg s)) stream"
    and "msgValues d = stored_values (dlq_values stream grp m pending now0)"
    and "drTargetStream req = ''''" "\<not> drDeleteFromDLQ req" "Now (redis s) (world s) = (now, w1)"
  shows "\<exists>a v. xaStream a = stream \<and> xaValues a = ValueMap v \<and>
    (\<forall>k. \<not> HasPrefix k ''dlq_'' \<longrightarrow> v k = stored_values (msgValues m) k) \<and> v ''dlq_original_id'' = Some (GoString (msgID m)) \<and>
    (\<forall>eid w2. XAdd (redis s) ctx a w1 = (Inr eid, w2) \<longrightarrow> replay_one ctx req d s = (Requeued, s\<lparr>world := w2\<rparr>))"
proof -
  have meta: "msgValues d k = stored_values (dlq_metadata stream grp (msgID m) pending now0) k" if "HasPrefix k ''dlq_''" for k
    using that assms(1,5) by (simp add: plain_message_def stored_values_def dlq_values_metadata)
  have fld: "msgValues d k = stored_values (msgValues m) k" if "\<not> HasPrefix k ''dlq_''" for k
  proof (cases "msgValues m k")
    case None
    moreover have "dlq_metadata stream grp (msgID m) pending now0 k = None" using that dlq_metadata_prefix by blast
    ultimately show ?thesis using assms(5) by (simp add: stored_values_def dlq_values_metadata)
  next
    case (Some v)
    then show ?thesis using assms(5) by (simp add: stored_values_def dlq_values_fields)
  qed
  have orig: "msgValues d ''dlq_original_stream'' = Some (GoString stream)" "msgValues d ''dlq_original_id'' = Some (GoString (msgID m))"
    by (simp_all add: meta dlq_keys stored_values_def dlq_metadata_def)
  have target: "replay_target (drTargetStream req) d = stream"
    using assms(2,6) by (simp add: replay_target_def orig Sprint_def)
  let ?v = "replay_values (drDLQStream req) d now"
  let ?a = "\<lparr>xaStream = stream, xaMaxLen = MaxStreamLen (cfg s), xaApprox = True, xaValues = ValueMap ?v\<rparr>"
  have "\<forall>k. \<not> HasPrefix k ''dlq_'' \<longrightarrow> ?v k = stored_values (msgValues m) k" by (simp add: replay_values_plain fld)
  moreover have "?v ''dlq_original_id'' = Some (GoString (msgID m))" by (simp add: replay_values_def orig)
  moreover have "\<forall>eid w2. XAdd (redis s) ctx ?a w1 = (Inr eid, w2) \<longrightarrow> replay_one ctx req d s = (Requeued, s\<lparr>world := w2\<rparr>)"
    using assms(3,4,7,8) by (simp add: replay_one_def target)
  ultimately show ?thesis by (intro exI [of _ ?a] exI [of _ ?v]) simp
qed

definition sample_dead :: XMessage where
  "sample_dead = \<lparr>msgID = ''9-0'', msgValues = stored_values (dlq_values ''s'' ''g'' sample_message sample_pending ''t0'')\<rparr>"

definition sample_replay_req :: dlqReplayRequest where
  "sample_replay_req = \<lparr>drDLQStream = ''s:dlq'', drTargetStream = '''', drCount = 10, drStart = ''-'', drEnd = ''+'', drDeleteFromDLQ = False\<rparr>"

lemma sample_replay_req_simps [simp]:
  "drDLQStream sample_replay_req = ''s:dlq''" "drTargetStream sample_replay_req = []" "drCount sample_replay_req = 10"
  "drStart sample_replay_req = ''-''" "drEnd sample_replay_req = ''+''" "drDeleteFromDLQ sample_replay_req = False"
  by (simp_all add: sample_replay_req_def)

lemma sample_message_plain: "plain_message sample_message"
  by (auto simp: plain_message_def sample_message_def HasPrefix_iff prefix_def)

theorem dlq_roundtrip_witness:
  "\<exists>w2. replay_one RequestCtx sample_replay_req sample_dead (sample_sidecar False) = (Requeued, (sample_sidecar False)\<lparr>world := w2\<rparr>)"
proof -
  have "\<exists>a v. xaStream a = ''s'' \<and> xaValues a = ValueMap v \<and>
    (\<forall>k. \<not> HasPrefix k ''dlq_'' \<longrightarrow> v k = stored_values (msgValues sample_message) k) \<and> v ''dlq_original_id'' = Some (GoString (msgID sample_message)) \<and>
    (\<forall>eid w2. XAdd (redis (sample_sidecar False)) RequestCtx a mem_empty = (Inr eid, w2) \<longrightarrow>
       replay_one RequestCtx sample_replay_req sample_dead (sample_sidecar False) = (Requeued, (sample_sidecar False)\<lparr>world := w2\<rparr>))"
    by (rule dlq_roundtrip [OF sample_message_plain])
      (simp_all add: sample_dead_def sample_replay_req_def sample_cfg_def IsStreamAllowed_iff TrimSpace_visible ascii_visible_def mem_empty_def)
  then obtain a where "\<forall>eid w2. mem_XAdd RequestCtx a mem_empty = (Inr eid, w2) \<longrightarrow>
       replay_one RequestCtx sample_replay_req sample_dead (sample_sidecar False) = (Requeued, (sample_sidecar False)\<lparr>world := w2\<rparr>)" by auto
  moreover have "\<exists>eid w2. mem_XAdd RequestCtx a mem_empty = (Inr eid, w2)" by (simp add: mem_XAdd_def mem_empty_def Let_def)
  ultimately show ?thesis by blast
qed

section \<open>Accounting of a replay\<close>

definition replayable :: "Config \<Rightarrow> dlqReplayRequest \<Rightarrow> XMessage \<Rightarrow> bool" where
  "replayable c req m \<longleftrightarrow> replay_target (drTargetStream req) m \<noteq> '''' \<and>
     IsStreamAllowed (PublishStreams c) (replay_target (drTargetStream req) m)"

lemma replay_one_cases:
  assumes "replay_one ctx req m s = (r, s')"
  shows "cfg s' = cfg s" "r = Skip \<longleftrightarrow> \<not> replayable (cfg s) req m" "r = Skip \<Longrightarrow> s' = s"
  using assms
  by (auto simp: replay_one_def replayable_def Let_def split: if_splits prod.splits sum.splits)

lemma replay_messages_ok:
  assumes "replay_messages ctx req ms result s = ((result', None), s')" "resEntryIDs result = Some ids"
  shows "resReplayed result' = resReplayed result + int (length (filter (replayable (cfg s) req) ms)) \<and>
    resSkipped result' = resSkipped result + int (length (filter (\<lambda>m. \<not> replayable (cfg s) req m) ms)) \<and>
    resEntryIDs result' = Some (ids @ map msgID (filter (replayable (cfg s) req) ms)) \<and> cfg s' = cfg s"
  using assms
proof (induction ms arbitrary: result ids s)
  case (Cons m ms)
  obtain r s1 where one: "replay_one ctx req m s = (r, s1)" by fastforce
  note c = replay_one_cases [OF one]
  show ?case
  proof (cases r)
    case Skip
    with Cons.IH [of "result\<lparr>resSkipped := resSkipped result + 1\<rparr>" s1 ids] Cons.prems one c show ?thesis by auto
  next
    case Requeued
    with Cons.IH [of "result\<lparr>resReplayed := resReplayed result + 1, resEntryIDs := append_slice (resEntryIDs result) (msgID m)\<rparr>" s1 "ids @ [msgID m]"]
      Cons.prems one c show ?thesis by (auto simp: append_slice_def)
  next
    case (Stop e)
    with Cons.prems one show ?thesis by simp
  qed
qed simp

lemma normalize_replay_simps [simp]:
  "drDLQStream (normalize_replay req) = drDLQStream req" "drTargetStream (normalize_replay req) = drTargetStream req"
  "1 \<le> drCount (normalize_replay req)" "drCount (normalize_replay req) \<le> 1000" "drStart (normalize_replay req) \<noteq> ''''"
  by (simp_all add: normalize_replay_def Let_def)



section \<open>Where the dead-letter path falls short\<close>

text \<open>Remark. The fields of an entry override the dead-letter metadata.  A dead letter that was replayed keeps
  \<open>dlq_original_id\<close>; when it fails again and is moved a second time, the new dead letter still names the identifier
  of the first entry, although the entry that is acknowledged is a different one.\<close>

theorem dlq_second_move_keeps_old_id:
  assumes "msgValues d ''dlq_original_id'' = Some old" "msgValues m = replay_values dlqStream d now"
  shows "dlq_values stream grp m pending now' ''dlq_original_id'' = Some old"
  using assms by (intro dlq_values_fields) (simp add: replay_values_def)

theorem dlq_second_move_keeps_old_id_witness:
  "dlq_values ''s'' ''g'' \<lparr>msgID = ''10-0'', msgValues = replay_values ''s:dlq'' sample_dead ''t1''\<rparr> sample_pending ''t2'' ''dlq_original_id''
     = Some (GoString ''1-0'')"
  by (rule dlq_second_move_keeps_old_id)
    (simp_all add: sample_dead_def stored_values_def dlq_values_def dlq_metadata_def sample_message_def map_add_def)

text \<open>Remark. A pending entry whose message is gone from the stream (trimmed by the length bound or deleted) is never
  acknowledged: the move reports neither success nor error and leaves everything but the read unchanged, so every
  further scan meets the entry again.\<close>

theorem trimmed_entry_stays_pending:
  assumes "XRange (redis s) ctx stream (pendID pending) (pendID pending) (world s) = (Inr [], w)"
  shows "scan_entries ctx stream grp pol [pending] s = (if dlq_eligible pol pending then s\<lparr>world := w\<rparr> else s)"
  using assms by (simp add: movePendingEntryToDLQ_def)

theorem trimmed_entry_stays_pending_witness:
  "scan_entries BackgroundCtx ''s'' ''g'' \<lparr>MaxRetries = 3, MinIdle = 0, DLQStream = ''d''\<rparr> [sample_pending] (sample_sidecar False) =
     (sample_sidecar False)\<lparr>world := mem_empty\<lparr>memDown := False\<rparr>\<rparr>"
proof -
  have "XRange (redis (sample_sidecar False)) BackgroundCtx ''s'' (pendID sample_pending) (pendID sample_pending) (world (sample_sidecar False))
      = (Inr [], mem_empty\<lparr>memDown := False\<rparr>)"
    by (simp add: mem_XRange_def mem_empty_def)
  note stays = trimmed_entry_stays_pending [OF this, of "''g''" "\<lparr>MaxRetries = 3, MinIdle = 0, DLQStream = ''d''\<rparr>"]
  have "dlq_eligible \<lparr>MaxRetries = 3, MinIdle = 0, DLQStream = ''d''\<rparr> sample_pending" by (simp add: dlq_eligible_def sample_pending_def)
  then show ?thesis unfolding stays by simp
qed

end
