(* ===== verification/Status_Api.thy ===== *)
theory Status_Api
  imports Dispatcher_Manager Publish_Pipeline Dlq
begin

text \<open>
  The rest of \<open>internal/service/service.go\<close> and \<open>internal/health\<close>: the whole sidecar with its dispatcher manager, its
  construction and shutdown, the probes and the introspection handlers.
\<close>

section \<open>The whole sidecar\<close>

text \<open>\<open>dispatcherManager\<close> is nil unless the consume mode is \<open>dispatcher\<close>; the other fields are those of \<open>core\<close>.\<close>

record 'w server =
  core :: "'w sidecar"
  dispatcherManager :: "consumeDispatcherManager option"

definition on_core :: "('w sidecar \<Rightarrow> 'w sidecar) \<Rightarrow> 'w server \<Rightarrow> 'w server" where
  "on_core f v = v\<lparr>core := f (core v)\<rparr>"

text \<open>What the construction gets from outside: go-redis (parsing an address, a client for it), the pipeline over it, the clock, the log codec,
  the metrics client, the registry of metrics, the disk and the world.\<close>

record ('w, 'o, 'r) environment =
  envParseURL :: "string \<Rightarrow> 'o go_result"
  envNewClient :: "'o \<Rightarrow> 'w redis"
  envPipeline :: "'w redis \<Rightarrow> publishPipelineConfig \<Rightarrow> 'w publishPipelineClient"
  envCodec :: wal_codec
  envProm :: prom
  envRegister :: "string \<Rightarrow> 'r \<Rightarrow> 'r option"
  envRegistry :: 'r
  envDisk :: filesys
  envWorld :: 'w

datatype 'a outcome = Started 'a | Failed go_error | Panicked

text \<open>\<open>service.New\<close>.  Registering a metric twice panics inside \<open>metrics.New\<close>.\<close>

definition pipeline_config :: "Config \<Rightarrow> publishPipelineConfig" where
  "pipeline_config c = \<lparr>pcMaxStreamLen = MaxStreamLen c, pcMaxBatch = PublishPipelineMaxBatch c, pcMaxBytes = PublishPipelineMaxBytes c,
     pcFlushInterval = PublishPipelineFlushInterval c, pcQueueSize = PublishPipelineQueueSize c\<rparr>"

definition service_New :: "Config \<Rightarrow> ('w, 'o, 'r) environment \<Rightarrow> 'w server outcome \<times> filesys" where
  "service_New c E =
     (case client_New (envParseURL E) (envNewClient E) (RedisURL c) of
        Inl err \<Rightarrow> (Failed (Wrapped ''redis client: '' err), envDisk E)
      | Inr R \<Rightarrow>
          (case wal_New (WALDir c) (Some \<lparr>MaxEntries = WALMaxEntries c, MaxBytes = WALMaxBytes c\<rparr>) (envDisk E) of
             (Inl err, d) \<Rightarrow> (Failed (Wrapped ''wal init: '' err), d)
           | (Inr l, d) \<Rightarrow>
               (case Clock R (envWorld E) of
                  (now, w) \<Rightarrow>
                    (case metrics_New (envRegister E) (envRegistry E) of
                       None \<Rightarrow> (Panicked, d)
                     | Some (col, reg) \<Rightarrow>
                         (let s = \<lparr>cfg = c, redis = R, publisher = Publisher_Publish R (MaxStreamLen c), publishPipeline = None,
                                   wal = l, replayMu = False, consumerGroupsEnsured = {}, startedAt = now, collector = col,
                                   walJSON = envCodec E, promClient = envProm E, disk = d, world = w\<rparr>;
                              s1 = (if PublishPipelineEnabled c
                                    then s\<lparr>publishPipeline := Some (envPipeline E R (pipeline_config c))\<rparr> else s);
                              mgr = (if ConsumeMode c = ConsumeModeDispatcher then Some newConsumeDispatcherManager else None)
                          in (Started \<lparr>core = s1, dispatcherManager = mgr\<rparr>, d))))))"

text \<open>\<open>Close\<close>: the pipeline and the client are closed in their own components, the dispatchers here.\<close>

definition service_Close :: "('w \<Rightarrow> 'w) \<Rightarrow> ('w \<Rightarrow> 'w) \<Rightarrow> 'w server \<Rightarrow> 'w server" where
  "service_Close pipelineClose redisClose v =
     (let v1 = (if publishPipeline (core v) \<noteq> None then on_core (\<lambda>s. s\<lparr>world := pipelineClose (world s)\<rparr>) v else v);
          v2 = v1\<lparr>dispatcherManager := map_option manager_Close (dispatcherManager v1)\<rparr>
      in on_core (\<lambda>s. s\<lparr>world := redisClose (world s)\<rparr>) v2)"

section \<open>Probes\<close>

definition health_CheckReady :: "int \<Rightarrow> (ctx \<Rightarrow> 'w \<Rightarrow> go_error option \<times> 'w) \<Rightarrow> 'w \<Rightarrow> go_error option \<times> 'w" where
  "health_CheckReady timeout probe w =
     (case probe (WithTimeout BackgroundCtx (Milliseconds timeout)) w of
        (Some err, w1) \<Rightarrow> (Some (ErrMsg ''not ready''), w1)
      | (None, w1) \<Rightarrow> (None, w1))"

definition service_CheckReady :: "ctx \<Rightarrow> 'w server \<Rightarrow> go_error option \<times> 'w server" where
  "service_CheckReady ctx v =
     (let (err, w) = Ping (redis (core v)) ctx (world (core v)) in (err, on_core (\<lambda>s. s\<lparr>world := w\<rparr>) v))"

definition publishPipelineQueueDepthOf :: "'w sidecar \<Rightarrow> int" where
  "publishPipelineQueueDepthOf s = (case publishPipeline s of None \<Rightarrow> 0 | Some p \<Rightarrow> pipeQueueLength p (world s))"

definition activeDispatchers :: "'w server \<Rightarrow> int" where
  "activeDispatchers v = (case dispatcherManager v of None \<Rightarrow> 0 | Some m \<Rightarrow> manager_Count m)"

definition activeSubscribers :: "'w server \<Rightarrow> int" where
  "activeSubscribers v = (case dispatcherManager v of None \<Rightarrow> 0 | Some m \<Rightarrow> manager_SubscriberCount m)"

definition add_reason :: "bool \<Rightarrow> string \<Rightarrow> string list \<Rightarrow> string list" where
  "add_reason b reason reasons = (if b then reasons @ [reason] else reasons)"

text \<open>\<open>readinessSnapshot\<close>: the reasons and the payload.  \<open>wal.Bytes\<close> fails when the file cannot be examined and then
  reports zero.\<close>

definition readinessSnapshot :: "'w server \<Rightarrow> (string list \<times> (string \<times> jval) list) \<times> 'w server" where
  "readinessSnapshot v0 =
     (let (err, w) = health_CheckReady (ReadinessTimeout (cfg (core v0))) (Ping (redis (core v0))) (world (core v0));
          v = on_core (\<lambda>s. s\<lparr>world := w\<rparr>) v0;
          s = core v;
          c = cfg s;
          redisStatus = (if err \<noteq> None then ''down'' else ''ok'');
          reasons0 = add_reason (err \<noteq> None) ''redis_unavailable'' [];
          depth = wal_Depth (wal s);
          bytes = wal_Bytes (wal s) (disk s);
          reasons1 = add_reason (isl bytes) ''wal_stat_failed'' reasons0;
          publishQueueDepth = publishPipelineQueueDepthOf s;
          reasons2 = add_reason (ReadyMaxWALDepth c > 0 \<and> depth \<ge> ReadyMaxWALDepth c) ''wal_depth_exceeded'' reasons1;
          reasons = add_reason (ReadyMaxPublishQueueDepth c > 0 \<and> publishQueueDepth \<ge> ReadyMaxPublishQueueDepth c)
                      ''publish_pipeline_queue_depth_exceeded'' reasons2
      in ((reasons,
           [(''ready'', JBool (reasons = [])), (''redis_status'', JStr redisStatus), (''wal_depth'', JNum depth),
            (''wal_bytes'', JNum (case bytes of Inl _ \<Rightarrow> 0 | Inr n \<Rightarrow> n)), (''wal_max_entries'', JNum (WALMaxEntries c)),
            (''wal_max_bytes'', JNum (WALMaxBytes c)), (''publish_pipeline_queue_depth'', JNum publishQueueDepth),
            (''dispatcher_active'', JNum (activeDispatchers v)), (''dispatcher_subscribers'', JNum (activeSubscribers v)),
            (''reasons'', JList (map JStr reasons))]), v))"

definition readyz :: "'w server \<Rightarrow> response \<times> 'w server" where
  "readyz v =
     (case readinessSnapshot v of
        ((reasons, payload), v1) \<Rightarrow> (writeJSON (if reasons \<noteq> [] then StatusServiceUnavailable else StatusOK) payload, v1))"

text \<open>The formatting of a duration is a parameter.\<close>

definition healthz :: "(int \<Rightarrow> string) \<Rightarrow> 'w server \<Rightarrow> response \<times> 'w server" where
  "healthz durationString v =
     (let (t, s) = time_since (startedAt (core v)) (core v)
      in (writeJSON StatusOK [(''healthy'', JBool True), (''service'', JStr (ServiceName (cfg s))), (''uptime'', JStr (durationString t))],
          v\<lparr>core := s\<rparr>))"

text \<open>\<open>metrics\<close> refreshes three gauges and hands over to the Prometheus handler.\<close>

definition metrics_refresh :: "'w server \<Rightarrow> 'w server" where
  "metrics_refresh v =
     (let s0 = core v;
          s1 = on_collector (SetWALDepth (wal_Depth (wal s0))) s0;
          (t, s2) = time_since (startedAt s1) s1;
          s3 = on_collector (SetUptime t) s2
      in v\<lparr>core := on_collector (SetPublishPipelineQueueDepth (publishPipelineQueueDepthOf s3)) s3\<rparr>)"

section \<open>Introspection\<close>

text \<open>\<open>metricsSnapshot\<close> has the fields of the collector's \<open>Snapshot\<close>, which \<open>getMetricsSnapshot\<close> copies one by one; it is
  used only as the JSON object its tags describe.\<close>

definition metricsSnapshot :: "Snapshot \<Rightarrow> (string \<times> jval) list" where
  "metricsSnapshot snapshot =
     [(''publish_attempts'', JUint (PublishAttempts snapshot)),
      (''publish_success'', JUint (PublishSuccess snapshot)),
      (''publish_queued'', JUint (PublishQueued snapshot)),
      (''publish_pipeline_enqueued'', JUint (PublishPipelineEnqueued snapshot)),
      (''publish_pipeline_flushed_batches'', JUint (PublishPipelineFlushedBatch snapshot)),
      (''publish_pipeline_flushed_entries'', JUint (PublishPipelineFlushedEntry snapshot)),
      (''publish_pipeline_fallback_direct'', JUint (PublishPipelineFallback snapshot)),
      (''publish_pipeline_adaptive_direct'', JUint (PublishPipelineAdaptiveDirect snapshot)),
      (''publish_pipeline_errors'', JUint (PublishPipelineError snapshot)),
      (''publish_pipeline_queue_depth'', JNum (PublishPipelineQueueDepth snapshot)),
      (''read_requests'', JUint (ReadRequests snapshot)),
      (''read_events'', JUint (ReadEvents snapshot)),
      (''ack_requests'', JUint (AckRequests snapshot)),
      (''ack_rpc_requests'', JUint (AckRPCRequests snapshot)),
      (''acked_entries'', JUint (AckedEntries snapshot)),
      (''dispatcher_read_samples'', JUint (DispatcherReadSamples snapshot)),
      (''dispatcher_read_duration_ms_total'', JUint (DispatcherReadDurationMS snapshot)),
      (''dispatcher_read_duration_ms_max'', JUint (DispatcherReadDurationMSMax snapshot)),
      (''dispatcher_fanout_samples'', JUint (DispatcherFanOutSamples snapshot)),
      (''dispatcher_fanout_duration_ms_total'', JUint (DispatcherFanOutDurationMS snapshot)),
      (''dispatcher_fanout_duration_ms_max'', JUint (DispatcherFanOutDurationMSMax snapshot)),
      (''dispatcher_ack_flush_calls'', JUint (DispatcherAckFlushCalls snapshot)),
      (''dispatcher_ack_flush_chunks'', JUint (DispatcherAckFlushChunks snapshot)),
      (''dispatcher_ack_flush_duration_ms_total'', JUint (DispatcherAckFlushDurationMS snapshot)),
      (''dispatcher_ack_flush_duration_ms_max'', JUint (DispatcherAckFlushDurationMax snapshot)),
      (''dispatcher_ack_exec_samples'', JUint (DispatcherAckExecSamples snapshot)),
      (''dispatcher_ack_exec_duration_ms_total'', JUint (DispatcherAckExecDurationMS snapshot)),
      (''dispatcher_ack_exec_duration_ms_max'', JUint (DispatcherAckExecDurationMax snapshot)),
      (''dispatcher_ack_queue_depth_peak'', JUint (DispatcherAckQueueDepthPeak snapshot)),
      (''dispatcher_ack_input_entries'', JUint (DispatcherAckInputEntries snapshot)),
      (''dispatcher_ack_deduped_entries'', JUint (DispatcherAckDedupedEntries snapshot)),
      (''dispatcher_ack_duplicate_entries'', JUint (DispatcherAckDuplicateEntries snapshot)),
      (''dispatcher_ack_contiguous_spans'', JUint (DispatcherAckContiguousSpans snapshot)),
      (''dispatcher_ack_contiguous_saved_entries'', JUint (DispatcherAckContiguousSaved snapshot)),
      (''group_ensure_attempts'', JUint (GroupEnsureAttempts snapshot)),
      (''wal_replayed'', JUint (WALReplayed snapshot)),
      (''wal_replay_sync_calls'', JUint (WALReplaySyncCalls snapshot)),
      (''dlq_moved'', JUint (DLQMoved snapshot)),
      (''dlq_replayed'', JUint (DLQReplayed snapshot)),
      (''dispatcher_dropped_subscribers'', JUint (DispatcherDroppedSubscribers snapshot)),
      (''errors'', JUint (Errors snapshot))]"

definition getMetricsSnapshot :: "'w server \<Rightarrow> (string \<times> jval) list" where
  "getMetricsSnapshot v =
     metricsSnapshot (collector_Snapshot (promClient (core v)) (publishPipelineQueueDepthOf (core v)) (collector (core v)))"

definition currentConfig :: "'w server \<Rightarrow> response" where
  "currentConfig v =
     (let s = core v; c = cfg s
      in writeJSON StatusOK
         [(''service_name'', JStr (ServiceName c)),
          (''listen_addr'', JStr (ListenAddr c)),
          (''grpc_listen_addr'', JStr (GRPCListenAddr c)),
          (''publish_pipeline_enabled'', JBool (PublishPipelineEnabled c)),
          (''publish_pipeline_adaptive_enabled'', JBool (PublishPipelineAdaptiveEnabled c)),
          (''publish_pipeline_max_batch'', JNum (PublishPipelineMaxBatch c)),
          (''publish_pipeline_min_batch'', JNum (PublishPipelineMinBatch c)),
          (''publish_pipeline_flush_ms'', JNum (Milliseconds (PublishPipelineFlushInterval c))),
          (''publish_pipeline_queue_size'', JNum (PublishPipelineQueueSize c)),
          (''publish_pipeline_max_bytes'', JNum (PublishPipelineMaxBytes c)),
          (''publish_pipeline_queue_depth'', JNum (publishPipelineQueueDepthOf s)),
          (''consume_mode'', JStr (ConsumeMode c)),
          (''wal_replay_mode'', JStr (WALReplayMode c)),
          (''dispatcher_consumer_name'', JStr (DispatcherConsumerName c)),
          (''dispatcher_read_count'', JNum (DispatcherReadCount c)),
          (''dispatcher_block_ms'', JNum (DispatcherBlockMS c)),
          (''dispatcher_subscriber_buffer'', JNum (DispatcherSubscriberBuffer c)),
          (''dispatcher_ack_batch_size'', JNum (DispatcherAckBatchSize c)),
          (''dispatcher_ack_flush_concurrency'', JNum (DispatcherAckFlushConcurrency c)),
          (''dispatcher_ack_flush_ms'', JNum (Milliseconds (DispatcherAckFlushInterval c))),
          (''dispatcher_ack_queue_size'', JNum (DispatcherAckQueueSize c)),
          (''dispatcher_active'', JNum (activeDispatchers v)),
          (''publish_streams'', JList (map JStr (PublishStreams c))),
          (''consume_streams'', JList (map JStr (ConsumeStreams c))),
          (''max_stream_len'', JNum (MaxStreamLen c)),
          (''wal_replay_batch'', JNum (WALReplayBatch c)),
          (''wal_replay_interval_ms'', JNum (Milliseconds (WALReplayInterval c))),
          (''dlq_max_retries'', JNum (DLQMaxRetries c)),
          (''dlq_min_idle_ms'', JNum (Milliseconds (DLQMinIdle c))),
          (''dlq_scan_interval_ms'', JNum (Milliseconds (DLQScanInterval c))),
          (''dlq_scan_batch'', JNum (DLQScanBatch c)),
          (''dlq_stream_policies'', JPolicies (DLQStreamPolicies c)),
          (''wal_path'', JStr (wal_path (wal s))),
          (''wal_max_entries'', JNum (WALMaxEntries c)),
          (''wal_max_bytes'', JNum (WALMaxBytes c)),
          (''wal_depth'', JNum (wal_Depth (wal s))),
          (''ready_max_wal_depth'', JNum (ReadyMaxWALDepth c)),
          (''ready_max_publish_queue_depth'', JNum (ReadyMaxPublishQueueDepth c)),
          (''metrics'', JObj (getMetricsSnapshot v))])"

section \<open>Readiness\<close>

text \<open>C29. Readiness is decided exactly: \<open>/readyz\<close> answers 200 if and only if the ping succeeds, the log file can be examined and
  neither configured threshold is reached, a threshold of zero never counts; the payload says so, and the
  probe changes nothing but the world it pinged.\<close>

theorem readyz_iff:
  assumes "readyz v = ((code, payload), v')" "s = core v"
    and "Ping (redis s) (WithTimeout BackgroundCtx (Milliseconds (ReadinessTimeout (cfg s)))) (world s) = (err, w)"
  shows "(code = StatusOK \<longleftrightarrow> err = None \<and> \<not> isl (wal_Bytes (wal s) (disk s)) \<and>
      (ReadyMaxWALDepth (cfg s) > 0 \<longrightarrow> wal_Depth (wal s) < ReadyMaxWALDepth (cfg s)) \<and>
      (ReadyMaxPublishQueueDepth (cfg s) > 0 \<longrightarrow> publishPipelineQueueDepthOf (s\<lparr>world := w\<rparr>) < ReadyMaxPublishQueueDepth (cfg s))) \<and>
    (code \<noteq> StatusOK \<longrightarrow> code = StatusServiceUnavailable) \<and>
    (\<exists>kvs. payload = Some kvs \<and> map_of kvs ''ready'' = Some (JBool (code = StatusOK)) \<and>
      map_of kvs ''redis_status'' = Some (JStr (if err = None then ''ok'' else ''down''))) \<and>
    v' = v\<lparr>core := s\<lparr>world := w\<rparr>\<rparr>"
proof -
  define r0 where "r0 = add_reason (err \<noteq> None) ''redis_unavailable'' []"
  define r1 where "r1 = add_reason (isl (wal_Bytes (wal s) (disk s))) ''wal_stat_failed'' r0"
  define r2 where "r2 = add_reason (ReadyMaxWALDepth (cfg s) > 0 \<and> wal_Depth (wal s) \<ge> ReadyMaxWALDepth (cfg s)) ''wal_depth_exceeded'' r1"
  define r3 where "r3 = add_reason (ReadyMaxPublishQueueDepth (cfg s) > 0 \<and>
     publishPipelineQueueDepthOf (s\<lparr>world := w\<rparr>) \<ge> ReadyMaxPublishQueueDepth (cfg s)) ''publish_pipeline_queue_depth_exceeded'' r2"
  have empty: "r3 = [] \<longleftrightarrow> err = None \<and> \<not> isl (wal_Bytes (wal s) (disk s)) \<and>
      \<not> (ReadyMaxWALDepth (cfg s) > 0 \<and> wal_Depth (wal s) \<ge> ReadyMaxWALDepth (cfg s)) \<and>
      \<not> (ReadyMaxPublishQueueDepth (cfg s) > 0 \<and> publishPipelineQueueDepthOf (s\<lparr>world := w\<rparr>) \<ge> ReadyMaxPublishQueueDepth (cfg s))"
    by (auto simp: r3_def r2_def r1_def r0_def add_reason_def)
  have h: "health_CheckReady (ReadinessTimeout (cfg s)) (Ping (redis s)) (world s) =
      (if err = None then None else Some (ErrMsg ''not ready''), w)"
    using assms(3) by (simp add: health_CheckReady_def split: option.splits)
  have code: "code = (if r3 \<noteq> [] then StatusServiceUnavailable else StatusOK)"
    and pay: "\<exists>kvs. payload = Some kvs \<and> map_of kvs ''ready'' = Some (JBool (r3 = [])) \<and>
      map_of kvs ''redis_status'' = Some (JStr (if err = None then ''ok'' else ''down''))"
    and v': "v' = v\<lparr>core := s\<lparr>world := w\<rparr>\<rparr>"
    using assms(1) h
    by (auto simp: readyz_def readinessSnapshot_def writeJSON_def on_core_def assms(2) r3_def r2_def r1_def r0_def Let_def)
  have "code = StatusOK \<longleftrightarrow> r3 = []" using code by simp
  then show ?thesis using empty code pay v' by (auto simp: not_le)
qed

definition sample_server :: "bool \<Rightarrow> mem_world server" where
  "sample_server down = \<lparr>core = sample_sidecar down, dispatcherManager = None\<rparr>"

theorem readyz_iff_witness:
  "\<exists>payload v'. readyz (sample_server False) = ((StatusOK, payload), v')"
proof -
  obtain code payload v' where r: "readyz (sample_server False) = ((code, payload), v')" by (metis prod_cases3 surj_pair)
  have p: "Ping (redis (sample_sidecar False)) c (world (sample_sidecar False)) = (None, mem_empty)" for c
    by (simp add: mem_redis_def mem_empty_def)
  have "wal_Bytes empty_log empty_fs = Inr 0"
    by (simp add: wal_Bytes_def fileSizeLocked_def os_Stat_def empty_log_def empty_fs_def)
  with readyz_iff [OF r refl, of None mem_empty] p have "code = StatusOK"
    by (simp add: sample_server_def sample_cfg_def)
  with r show ?thesis by blast
qed

section \<open>Starting on an existing log\<close>

lemma service_New_started:
  assumes "service_New c E = (Started v, d)"
  obtains l where "wal_New (WALDir c) (Some \<lparr>MaxEntries = WALMaxEntries c, MaxBytes = WALMaxBytes c\<rparr>) (envDisk E) = (Inr l, d)"
    "wal (core v) = l" "disk (core v) = d" "cfg (core v) = c" "walJSON (core v) = envCodec E" "\<not> replayMu (core v)"
    "dispatcherManager v \<noteq> None \<longleftrightarrow> ConsumeMode c = ConsumeModeDispatcher" "publishPipeline (core v) \<noteq> None \<longleftrightarrow> PublishPipelineEnabled c"
    "publisher (core v) = Publisher_Publish (redis (core v)) (MaxStreamLen c)"
  using assms
  by (auto simp: service_New_def Let_def split: sum.splits prod.splits option.splits if_splits)

lemma service_New_backlog:
  assumes "service_New c E = (Started v, d)" "wal_inv l (envDisk E)" "resolveWALPath (WALDir c) (envDisk E) = Inr (wal_path l)"
  shows "backlog (core v) = wal_lines l (envDisk E)" "wal_inv (wal (core v)) (disk (core v))" "wal_Depth (wal (core v)) = wal_Depth l"
    "wal_path (wal (core v)) = wal_path l" "content p (disk (core v)) = content p (envDisk E)"
proof -
  from assms(1) obtain l' where n: "wal_New (WALDir c) (Some \<lparr>MaxEntries = WALMaxEntries c, MaxBytes = WALMaxBytes c\<rparr>) (envDisk E) = (Inr l', d)"
    and v: "wal (core v) = l'" "disk (core v) = d" by (rule service_New_started)
  note N = wal_New_Inr [OF n]
  show path: "wal_path (wal (core v)) = wal_path l" using N(3) assms(3) v by simp
  show "content p (disk (core v)) = content p (envDisk E)" for p using N(2) v by simp
  then show lines: "backlog (core v) = wal_lines l (envDisk E)" using path by (simp add: wal_lines_def)
  show "wal_inv (wal (core v)) (disk (core v))" using assms(2) N(1,2) path v by (simp add: wal_inv_def wal_lines_def)
  show "wal_Depth (wal (core v)) = wal_Depth l" using assms(2) N(1) lines v by (simp add: wal_Depth_def wal_inv_def)
qed

lemma publish_queued_line:
  assumes "wal_ready s" "publishInternal ctx req0 s = (po, s1)" "poQueued po"
  obtains req line where "normalizePublishRequest req0 '''' s = ((req, StatusOK, None), s)" "holds_request (walJSON s) line req"
    "backlog s1 = backlog s @ [line]" "wal_inv (wal s1) (disk s1)" "walJSON s1 = walJSON s"
  using assms(2)
proof (cases rule: publishInternal_cases)
  case (queued req code err s2 s3)
  have "wal_ready s2" using assms(1) publishToRedis_wal_ready [OF queued(2)] by simp
  note a = appendWAL_ok [OF this queued(4)]
  note frame = publishToRedis_same(9) [OF queued(2)]
  from a(2) obtain line where "holds_request (walJSON s) line req" "backlog s1 = backlog s @ [line]"
    using queued(5) publishToRedis_backlog [OF queued(2)] frame by auto
  then show thesis
    using that [of req line] queued(1) normalize_ok(2) [OF queued(1)] a(1,5) queued(5) frame by simp
qed (use assms(3) in \<open>simp_all add: failed_def\<close>)

end
