(* ===== verification/Grpc_Api.thy ===== *)
theory Grpc_Api
  imports Status_Api
begin

text \<open>
  \<open>internal/service/grpc.go\<close>: the RPC handlers.  A nil message is \<open>None\<close>; a handler returns a gRPC status (code and message) or
  the response.  The server stream of \<open>Subscribe\<close> is a parameter that says whether the \<open>k\<close>-th send fails; the
  events sent before are part of the result.
\<close>

section \<open>Status codes and messages\<close>

datatype grpc_code = InvalidArgument | PermissionDenied | NotFound | Unavailable | DeadlineExceeded | Internal

type_synonym grpc_status = "grpc_code \<times> string"
type_synonym 'a grpc_result = "grpc_status + 'a"

definition grpcStatusFromHTTPStatus :: "int \<Rightarrow> string \<Rightarrow> grpc_status" where
  "grpcStatusFromHTTPStatus statusCode message =
     (if statusCode = StatusBadRequest then (InvalidArgument, message)
      else if statusCode = StatusForbidden then (PermissionDenied, message)
      else if statusCode = StatusNotFound then (NotFound, message)
      else if statusCode = StatusServiceUnavailable then (Unavailable, message)
      else if statusCode = StatusGatewayTimeout then (DeadlineExceeded, message)
      else (Internal, message))"

record PublishResponse =
  respEntryId :: string
  respQueued :: bool

record PublishBatchRequest =
  batchStream :: string
  batchEvents :: "PublishRequest option list"

record SubscribeRequest =
  subStream :: string
  subConsumerGroup :: string
  subConsumerName :: string
  subBatchSize :: int

record StreamInfoResponse =
  siLength :: int
  siGroups :: int
  siFirstEntryId :: string
  siLastEntryId :: string

record HealthResponse =
  hrHealthy :: bool
  hrRedisStatus :: string

record ReplayDLQResponse =
  rrReplayed :: int
  rrSkipped :: int
  rrEntryIds :: "string list"

abbreviation incrementAckRPCRequest :: "'w sidecar \<Rightarrow> 'w sidecar" where
  "incrementAckRPCRequest \<equiv> on_collector IncAckRPCRequest"

section \<open>Publishing\<close>

definition rpc_Publish :: "ctx \<Rightarrow> PublishRequest option \<Rightarrow> 'w sidecar \<Rightarrow> PublishResponse grpc_result \<times> 'w sidecar" where
  "rpc_Publish ctx req s0 =
     (let s = incrementPublishAttempts s0
      in case req of
           None \<Rightarrow> (Inl (InvalidArgument, ''request is required''), incrementError s)
         | Some r \<Rightarrow>
             (case publishInternal ctx r s of
                (po, s1) \<Rightarrow>
                  (case poErr po of
                     Some err \<Rightarrow> (Inl (grpcStatusFromHTTPStatus (poStatus po) (Error err)), s1)
                   | None \<Rightarrow>
                       if poQueued po then (Inr \<lparr>respEntryId = '''', respQueued = True\<rparr>, s1)
                       else (Inr \<lparr>respEntryId = poEntryID po, respQueued = False\<rparr>, s1))))"

text \<open>The first loop of \<open>PublishBatch\<close>: normalise every event; the first refusal ends the call.\<close>

fun normalize_events ::
  "string \<Rightarrow> PublishRequest option list \<Rightarrow> PublishRequest list \<Rightarrow> 'w sidecar \<Rightarrow> PublishRequest list grpc_result \<times> 'w sidecar" where
  "normalize_events stream [] normalized s = (Inr normalized, s)"
| "normalize_events stream (event # rest) normalized s =
     (case event of
        None \<Rightarrow> (Inl (InvalidArgument, ''batch contains nil event''), incrementError s)
      | Some e \<Rightarrow>
          (let eventStream = (if TrimSpace (Stream e) = '''' then stream else TrimSpace (Stream e))
           in case normalizePublishRequest (e\<lparr>Stream := eventStream\<rparr>) stream s of
                ((publishReq, statusCode, Some err), s1) \<Rightarrow> (Inl (grpcStatusFromHTTPStatus statusCode (Error err)), s1)
              | ((publishReq, statusCode, None), s1) \<Rightarrow> normalize_events stream rest (normalized @ [publishReq]) s1))"

text \<open>The loop that publishes one by one when the batch failed as a whole.\<close>

fun publish_singly :: "ctx \<Rightarrow> PublishRequest list \<Rightarrow> string list \<Rightarrow> 'w sidecar \<Rightarrow> string list grpc_result \<times> 'w sidecar" where
  "publish_singly ctx [] entryIDs s = (Inr entryIDs, s)"
| "publish_singly ctx (req # rest) entryIDs s =
     (case publishInternal ctx req s of
        (po, s1) \<Rightarrow>
          (case poErr po of
             Some err \<Rightarrow> (Inl (grpcStatusFromHTTPStatus (poStatus po) (Error err)), s1)
           | None \<Rightarrow> publish_singly ctx rest (entryIDs @ [if poQueued po then '''' else poEntryID po]) s1))"

definition rpc_PublishBatch :: "ctx \<Rightarrow> PublishBatchRequest option \<Rightarrow> 'w sidecar \<Rightarrow> string list grpc_result \<times> 'w sidecar" where
  "rpc_PublishBatch ctx req s =
     (case req of
        None \<Rightarrow> (Inl (InvalidArgument, ''request is required''), incrementError s)
      | Some r \<Rightarrow>
          if length (batchEvents r) = 0 then (Inl (InvalidArgument, ''events are required''), incrementError s)
          else (case normalize_events (TrimSpace (batchStream r)) (batchEvents r) [] s of
                  (Inl status, s1) \<Rightarrow> (Inl status, s1)
                | (Inr normalized, s1) \<Rightarrow>
                    (let s2 = (incrementPublishAttempts ^^ length normalized) s1
                     in case publishBatchToRedis (publishRedisContext ctx) normalized s2 of
                          ((entryIDs, Some pubErr), s3) \<Rightarrow>
                            if length entryIDs > 0 then (Inl (Unavailable, Error pubErr), incrementError s3)
                            else if shouldSkipWALForPublishError (CtxErr (redis s3) ctx (world s3)) pubErr
                            then (Inl (grpcStatusFromHTTPStatus StatusGatewayTimeout (Error pubErr)), incrementError s3)
                            else publish_singly ctx normalized [] s3
                        | ((entryIDs, None), s3) \<Rightarrow>
                            (let s4 = (incrementPublishSuccess ^^ length normalized) s3;
                                 s5 = (if WALReplayMode (cfg s4) = WALReplayModeSyncOnSuccess
                                       then replayWAL ctx (incrementWALReplaySyncCall s4) else s4)
                             in (Inr entryIDs, s5)))))"

section \<open>Consuming\<close>

definition read_event_proto :: "readEvent \<Rightarrow> Event" where
  "read_event_proto event =
     (let flds = reFields event
      in \<lparr>evStream = reStream event, evEntryId = reEntry event, evEventType = toString (field_value flds ''event_type''),
          evSender = toString (field_value flds ''sender''), evPayload = toString (field_value flds ''payload''),
          evTimestamp = toString (field_value flds ''timestamp'')\<rparr>)"

text \<open>Sending to the server stream until a send fails.\<close>

fun send_all :: "(nat \<Rightarrow> go_error option) \<Rightarrow> nat \<Rightarrow> Event list \<Rightarrow> Event list \<times> grpc_status option" where
  "send_all send k [] = ([], None)"
| "send_all send k (event # rest) =
     (case send k of
        Some sendErr \<Rightarrow> ([], Some (Unavailable, ''failed to stream event: '' @ Error sendErr))
      | None \<Rightarrow> (let (sent, r) = send_all send (Suc k) rest in (event # sent, r)))"

text \<open>What the loop of \<open>subscribeWithDispatcher\<close> meets: the end of the stream's context, an event, or the closed channel (with
  the error of the context at that moment).\<close>

datatype relay_input = StreamDone | Got Event | ChanClosed "go_error option"

fun relay :: "(nat \<Rightarrow> go_error option) \<Rightarrow> nat \<Rightarrow> relay_input list \<Rightarrow> Event list \<times> grpc_status option option" where
  "relay send k [] = ([], None)"
| "relay send k (StreamDone # rest) = ([], Some None)"
| "relay send k (ChanClosed ctxErr # rest) =
     ([], Some (if ctxErr \<noteq> None then None else Some (Unavailable, ''dispatcher stream closed'')))"
| "relay send k (Got event # rest) =
     (case send k of
        Some sendErr \<Rightarrow> ([], Some (Some (Unavailable, ''failed to stream event: '' @ Error sendErr)))
      | None \<Rightarrow> (let (sent, r) = relay send (Suc k) rest in (event # sent, r)))"

text \<open>The start of \<open>subscribeWithDispatcher\<close>, up to the loop.\<close>

definition subscribe_dispatcher :: "SubscribeRequest \<Rightarrow> 'w server \<Rightarrow> dispatcherSubscription grpc_result \<times> 'w server" where
  "subscribe_dispatcher req v =
     (case dispatcherManager v of
        None \<Rightarrow> (Inl (Internal, ''dispatcher mode is enabled but dispatcher manager is not initialized''), on_core incrementError v)
      | Some m \<Rightarrow>
          (case manager_Subscribe (cfg (core v)) \<lparr>rrStream = subStream req, rrConsumerGroup = subConsumerGroup req,
                  rrConsumerName = subConsumerName req, rrCount = subBatchSize req, rrBlockMS = DispatcherBlockMS (cfg (core v))\<rparr> m of
             (Inl err, m1) \<Rightarrow>
               (Inl (grpcStatusFromHTTPStatus StatusBadRequest (Error err)), on_core incrementError (v\<lparr>dispatcherManager := Some m1\<rparr>))
           | (Inr sub, m1) \<Rightarrow> (Inr sub, v\<lparr>dispatcherManager := Some m1\<rparr>)))"

definition subscribe_stateless ::
  "(nat \<Rightarrow> go_error option) \<Rightarrow> SubscribeRequest \<Rightarrow> 'w sidecar \<Rightarrow> (Event list \<times> grpc_status option) \<times> 'w sidecar" where
  "subscribe_stateless send r s =
     (let count = (if subBatchSize r \<le> 0 then 10 else subBatchSize r)
      in case consumeGroupOnce RequestCtx \<lparr>rrStream = subStream r, rrConsumerGroup = subConsumerGroup r,
                rrConsumerName = subConsumerName r, rrCount = count, rrBlockMS = 1000\<rparr> s of
           ((events, statusCode, Some err), s1) \<Rightarrow> (([], Some (grpcStatusFromHTTPStatus statusCode (Error err))), s1)
         | ((events, statusCode, None), s1) \<Rightarrow> (send_all send 0 (map read_event_proto events), s1))"

text \<open>The whole RPC.  In dispatcher mode the outcome is \<open>None\<close> while the loop still waits; when it ends, the deferred
  \<open>Close\<close> removes the subscription.\<close>

definition rpc_Subscribe ::
  "(nat \<Rightarrow> go_error option) \<Rightarrow> relay_input list \<Rightarrow> SubscribeRequest option \<Rightarrow> 'w server \<Rightarrow>
   (Event list \<times> grpc_status option option) \<times> 'w server" where
  "rpc_Subscribe send inputs req v0 =
     (let v = on_core incrementReadRequest v0
      in case req of
           None \<Rightarrow> (([], Some (Some (InvalidArgument, ''request is required''))), on_core incrementError v)
         | Some r \<Rightarrow>
             if ConsumeMode (cfg (core v)) = ConsumeModeDispatcher
             then (case subscribe_dispatcher r v of
                     (Inl status, v1) \<Rightarrow> (([], Some (Some status)), v1)
                   | (Inr sub, v1) \<Rightarrow>
                       (case relay send 0 inputs of
                          (sent, None) \<Rightarrow> ((sent, None), v1)
                        | (sent, Some result) \<Rightarrow>
                            ((sent, Some result), v1\<lparr>dispatcherManager := map_option (subscription_Close (Some sub)) (dispatcherManager v1)\<rparr>)))
             else (case subscribe_stateless send r (core v) of
                     ((sent, result), s1) \<Rightarrow> ((sent, Some result), v\<lparr>core := s1\<rparr>)))"

section \<open>Acknowledging\<close>

definition rpc_Ack ::
  "bool \<Rightarrow> ctx \<Rightarrow> ackRequest option \<Rightarrow> 'w server \<Rightarrow> int grpc_result \<times> 'w server" where
  "rpc_Ack pickDone ctx req v0 =
     (let v = on_core (\<lambda>s. incrementAckRPCRequest (incrementAckRequest s)) v0
      in case req of
           None \<Rightarrow> (Inl (InvalidArgument, ''request is required''), on_core incrementError v)
         | Some r \<Rightarrow>
             (let direct = (\<lambda>u. case ackEntriesInternal ctx r (core u) of
                                  ((acked, statusCode, Some err), s1) \<Rightarrow>
                                    (Inl (grpcStatusFromHTTPStatus statusCode (Error err)), u\<lparr>core := s1\<rparr>)
                                | ((acked, statusCode, None), s1) \<Rightarrow> (Inr (int32_wrap acked), u\<lparr>core := s1\<rparr>))
              in case dispatcherManager v of
                   Some m \<Rightarrow>
                     if ConsumeMode (cfg (core v)) = ConsumeModeDispatcher
                     then (case manager_QueueAck pickDone r m (core v) of
                             (Inr acked, m1, s1) \<Rightarrow> (Inr (int32_wrap acked), v\<lparr>core := s1, dispatcherManager := Some m1\<rparr>)
                           | (Inl err, m1, s1) \<Rightarrow>
                               (let u = v\<lparr>core := s1, dispatcherManager := Some m1\<rparr>
                                in if \<not> errors_Is err ErrDispatcherNotFound
                                   then (Inl (Unavailable, Error err), on_core incrementError u)
                                   else direct u))
                     else direct v
                 | None \<Rightarrow> direct v))"

section \<open>Information\<close>

definition rpc_StreamInfo :: "ctx \<Rightarrow> string option \<Rightarrow> 'w sidecar \<Rightarrow> StreamInfoResponse grpc_result \<times> 'w sidecar" where
  "rpc_StreamInfo ctx req s =
     (let streamName = (case req of None \<Rightarrow> '''' | Some st \<Rightarrow> TrimSpace st)
      in if streamName = '''' then (Inl (InvalidArgument, ''stream is required''), incrementError s)
         else if \<not> IsStreamAllowed (PublishStreams (cfg s)) streamName \<and> \<not> IsStreamAllowed (ConsumeStreams (cfg s)) streamName
         then (Inl (PermissionDenied, ''stream not allowed for this sugar glider''), incrementError s)
         else (let (r, w) = XInfoStreamCmd (redis s) ctx streamName (world s);
                   s1 = s\<lparr>world := w\<rparr>
               in case r of
                    Inl err \<Rightarrow>
                      if errors_Is err RedisNil \<or> isNoSuchStreamErr (Some err)
                      then (Inr \<lparr>siLength = 0, siGroups = 0, siFirstEntryId = '''', siLastEntryId = ''''\<rparr>, s1)
                      else (Inl (Unavailable, ''failed to fetch stream info''), incrementError s1)
                  | Inr info \<Rightarrow>
                      (let (g, w2) = XInfoGroups (redis s1) ctx streamName (world s1);
                           s2 = s1\<lparr>world := w2\<rparr>;
                           answer = (\<lambda>groups. \<lparr>siLength = infoLength info, siGroups = int32_wrap (int (length groups)),
                                       siFirstEntryId = infoFirstEntryID info, siLastEntryId = infoLastEntryID info\<rparr>)
                       in case g of
                            Inl err \<Rightarrow>
                              if \<not> errors_Is err RedisNil \<and> \<not> isNoSuchStreamErr (Some err)
                              then (Inl (Unavailable, ''failed to fetch stream groups''), incrementError s2)
                              else (Inr (answer []), s2)
                          | Inr groups \<Rightarrow> (Inr (answer groups), s2))))"

definition rpc_Health :: "ctx \<Rightarrow> 'w server \<Rightarrow> HealthResponse grpc_result \<times> 'w server" where
  "rpc_Health ctx v =
     (case service_CheckReady ctx v of
        (Some err, v1) \<Rightarrow> (Inr \<lparr>hrHealthy = False, hrRedisStatus = ''down''\<rparr>, v1)
      | (None, v1) \<Rightarrow> (Inr \<lparr>hrHealthy = True, hrRedisStatus = ''ok''\<rparr>, v1))"

definition rpc_ReplayDLQ :: "ctx \<Rightarrow> dlqReplayRequest option \<Rightarrow> 'w sidecar \<Rightarrow> ReplayDLQResponse grpc_result \<times> 'w sidecar" where
  "rpc_ReplayDLQ ctx req s =
     (case req of
        None \<Rightarrow> (Inl (InvalidArgument, ''request is required''), incrementError s)
      | Some r \<Rightarrow>
          (case replayDLQInternal ctx r s of
             ((result, statusCode, Some err), s1) \<Rightarrow> (Inl (grpcStatusFromHTTPStatus statusCode (Error err)), s1)
           | ((result, statusCode, None), s1) \<Rightarrow>
               (Inr \<lparr>rrReplayed = int32_wrap (resReplayed result), rrSkipped = int32_wrap (resSkipped result),
                     rrEntryIds = (case resEntryIDs result of None \<Rightarrow> [] | Some ids \<Rightarrow> ids)\<rparr>, s1)))"

section \<open>Both interfaces publish alike\<close>

lemma publish_status:
  assumes "publishInternal ctx req s = (po, s')"
  shows "poErr po \<noteq> None \<Longrightarrow> poStatus po \<in> {StatusBadRequest, StatusForbidden, StatusGatewayTimeout, StatusServiceUnavailable}"
    "poErr po = None \<Longrightarrow> poQueued po \<Longrightarrow> poStatus po = StatusServiceUnavailable"
    "poErr po = None \<Longrightarrow> \<not> poQueued po \<Longrightarrow> poStatus po = StatusOK"
  using assms by (cases rule: publishInternal_cases; auto simp: failed_def dest: normalize_error(2))+

text \<open>C22. The HTTP and the RPC interface do the same: for the same request they leave the same state; an identifier, a
  queued message and an error of one are an identifier, a queued message and an error of the other, with the same text, the RPC code is the
  image of the HTTP status, and it is never \<open>Internal\<close>.\<close>

theorem publish_http_rpc_agree:
  assumes "reqMethod h = ''POST''" "decode (reqBody h) = Inr r"
    and "publish_handler decode h s = ((code, body), s1)" "rpc_Publish RequestCtx (Some r) s = (res, s2)"
  shows "s1 = s2 \<and>
    (case res of
       Inr resp \<Rightarrow>
         if respQueued resp
         then code = StatusServiceUnavailable \<and> (\<exists>kvs. body = Some kvs \<and> map_of kvs ''queued'' = Some (JBool True))
         else code = StatusOK \<and> body = Some [(''entry_id'', JStr (respEntryId resp))]
     | Inl (c, msg) \<Rightarrow>
         body = Some [(''error'', JStr msg)] \<and> (c, msg) = grpcStatusFromHTTPStatus code msg \<and> c \<noteq> Internal)"
proof -
  obtain po s' where p: "publishInternal RequestCtx r (incrementPublishAttempts s) = (po, s')" by fastforce
  note P = publish_status [OF p]
  show ?thesis
  proof (cases "poErr po")
    case None
    then show ?thesis
      using assms p P(2,3) by (auto simp: publish_handler_def rpc_Publish_def writeJSON_def Let_def split: if_splits)
  next
    case (Some err)
    then have "snd (grpcStatusFromHTTPStatus (poStatus po) (Error err)) = Error err" "fst (grpcStatusFromHTTPStatus (poStatus po) (Error err)) \<noteq> Internal"
      using P(1) by (auto simp: grpcStatusFromHTTPStatus_def)
    then show ?thesis
      using assms p Some by (auto simp: publish_handler_def rpc_Publish_def writeJSON_def Let_def)
  qed
qed

theorem publish_http_rpc_agree_witness:
  "snd (publish_handler (\<lambda>_. Inr (sample_req ''a'')) \<lparr>reqMethod = ''POST'', reqBody = ''''\<rparr> (sample_sidecar True)) =
   snd (rpc_Publish RequestCtx (Some (sample_req ''a'')) (sample_sidecar True))"
proof -
  obtain code body s1 where h: "publish_handler (\<lambda>_. Inr (sample_req ''a'')) \<lparr>reqMethod = ''POST'', reqBody = ''''\<rparr> (sample_sidecar True) = ((code, body), s1)"
    by (metis prod_cases3 surj_pair)
  obtain res s2 where r: "rpc_Publish RequestCtx (Some (sample_req ''a'')) (sample_sidecar True) = (res, s2)" by fastforce
  from publish_http_rpc_agree [OF _ _ h r] h r show ?thesis by simp
qed

section \<open>Batches\<close>

lemma normalize_events_length:
  "normalize_events st evs acc s = (Inr out, s') \<Longrightarrow> length out = length acc + length evs \<and> s' = s"
proof (induction st evs acc s rule: normalize_events.induct)
  case (2 st event rest acc s)
  from "2.prems" obtain e where e: "event = Some e" by (cases event) simp_all
  obtain q code err s1 where n: "normalizePublishRequest (e\<lparr>Stream := if TrimSpace (Stream e) = '''' then st else TrimSpace (Stream e)\<rparr>) st s = ((q, code, err), s1)"
    by (metis prod_cases3 surj_pair)
  with "2.prems" e have err: "err = None" by (cases err) (simp_all add: Let_def)
  have r: "normalize_events st rest (acc @ [q]) s1 = (Inr out, s')" using "2.prems" e n err by (simp add: Let_def)
  have "s1 = s" using normalize_ok(1) n err by blast
  then show ?case using "2.IH" [OF e refl n [symmetric] refl refl err r] by simp
qed simp

lemma publish_singly_length: "publish_singly ctx reqs acc s = (Inr ids, s') \<Longrightarrow> length ids = length acc + length reqs"
  by (induction ctx reqs acc s rule: publish_singly.induct) (auto split: prod.splits option.splits)

lemma publish_each_length: "publish_each ctx reqs acc s = ((ids, None), s') \<Longrightarrow> length ids = length acc + length reqs"
  by (induction ctx reqs acc s rule: publish_each.induct) (auto split: prod.splits sum.splits)

lemma publish_each_direct_length: "publish_each_direct ctx reqs acc s = ((ids, None), s') \<Longrightarrow> length ids = length acc + length reqs"
  by (induction ctx reqs acc s rule: publish_each_direct.induct) (auto split: prod.splits sum.splits)

lemma collect_results_length: "collect_results rs acc s = ((ids, None), s') \<Longrightarrow> length ids = length acc + length rs"
  by (induction rs acc s rule: collect_results.induct) (auto split: sum.splits)

text \<open>What a batch relies on in the pipeline: one result per request.\<close>

definition many_complete :: "'w sidecar \<Rightarrow> bool" where
  "many_complete s \<longleftrightarrow> (\<forall>p ctx reqs wc rs wc'. publishPipeline s = Some p \<and> pipePublishMany p ctx reqs wc = (Inr rs, wc') \<longrightarrow> length rs = length reqs)"

lemma publishBatch_length:
  assumes "many_complete s" "publishBatchToRedis ctx reqs s = ((ids, None), s')"
  shows "length ids = length reqs"
proof (cases "publishPipeline s")
  case None
  then show ?thesis using assms(2) publish_each_length by (fastforce simp: publishBatchToRedis_def split: if_splits)
next
  case (Some p)
  obtain res w c where m: "pipePublishMany p ctx reqs (world s, collector s) = (res, w, c)" by (metis prod_cases3)
  show ?thesis
  proof (cases "length reqs = 1 \<or> reqs = []")
    case True
    then show ?thesis using assms(2) Some publish_each_length by (fastforce simp: publishBatchToRedis_def split: if_splits)
  next
    case False
    show ?thesis
    proof (cases res)
      case (Inl err)
      then show ?thesis
        using assms(2) Some False m publish_each_direct_length by (fastforce simp: publishBatchToRedis_def Let_def split: if_splits)
    next
      case (Inr rs)
      have "length rs = length reqs" using assms(1) Some m Inr unfolding many_complete_def by blast
      then show ?thesis
        using assms(2) Some False m Inr collect_results_length by (fastforce simp: publishBatchToRedis_def Let_def)
    qed
  qed
qed

lemma funpow_on_collector [simp]:
  "publishPipeline ((on_collector f ^^ n) s) = publishPipeline s" "world ((on_collector f ^^ n) s) = world s"
  by (induction n) simp_all

lemma normalize_events_refused: "normalize_events st evs acc s = (Inl status, s') \<Longrightarrow> s' = incrementError s"
proof (induction st evs acc s rule: normalize_events.induct)
  case (2 st event rest acc s)
  show ?case
  proof (cases event)
    case None
    then show ?thesis using "2.prems" by simp
  next
    case (Some e)
    obtain q code err s1 where n: "normalizePublishRequest (e\<lparr>Stream := if TrimSpace (Stream e) = '''' then st else TrimSpace (Stream e)\<rparr>) st s = ((q, code, err), s1)"
      by (metis prod_cases3 surj_pair)
    show ?thesis
    proof (cases err)
      case None
      have "s1 = s" using normalize_ok(1) n None by blast
      then show ?thesis using "2.IH" [OF Some refl n [symmetric] refl refl None] "2.prems" Some n None by (simp add: Let_def)
    next
      case (Some x)
      then show ?thesis using "2.prems" \<open>event = Some e\<close> n normalize_error(1) [of _ _ s q code x s1] by (simp add: Let_def)
    qed
  qed
qed simp

lemma normalize_events_present: "normalize_events st evs acc s = (Inr out, s') \<Longrightarrow> None \<notin> set evs"
  by (induction st evs acc s rule: normalize_events.induct) (auto simp: Let_def split: option.splits prod.splits)

text \<open>C28. A batch is validated as a whole and answered completely: if one event is missing or refused, nothing is
  published and only the error counter moves; a successful answer has one entry per event of the request, empty for
  a message that was queued.\<close>

theorem batch_validated_and_complete:
  assumes "many_complete s" "rpc_PublishBatch ctx (Some r) s = (res, s')"
  shows "(\<forall>status s1. normalize_events (TrimSpace (batchStream r)) (batchEvents r) [] s = (Inl status, s1) \<longrightarrow>
      res = Inl status \<and> s' = incrementError s) \<and>
    (\<forall>ids. res = Inr ids \<longrightarrow> length ids = length (batchEvents r) \<and> batchEvents r \<noteq> [] \<and> None \<notin> set (batchEvents r))"
proof (intro conjI allI impI)
  fix status s1 assume n: "normalize_events (TrimSpace (batchStream r)) (batchEvents r) [] s = (Inl status, s1)"
  then have "batchEvents r \<noteq> []" by auto
  with n have "rpc_PublishBatch ctx (Some r) s = (Inl status, s1)" by (simp add: rpc_PublishBatch_def)
  then show "res = Inl status" "s' = incrementError s" using assms(2) normalize_events_refused [OF n] by simp_all
next
  fix ids assume ids: "res = Inr ids"
  then show "batchEvents r \<noteq> []" using assms(2) by (auto simp: rpc_PublishBatch_def)
  then obtain out s1 where n: "normalize_events (TrimSpace (batchStream r)) (batchEvents r) [] s = (Inr out, s1)"
    using assms(2) ids by (auto simp: rpc_PublishBatch_def split: prod.splits sum.splits)
  note N = normalize_events_length [OF n]
  show "None \<notin> set (batchEvents r)" by (rule normalize_events_present [OF n])
  let ?s2 = "(incrementPublishAttempts ^^ length out) s"
  obtain bids berr s3 where b: "publishBatchToRedis (publishRedisContext ctx) out ?s2 = ((bids, berr), s3)" by (metis surj_pair)
  have mc: "many_complete ?s2" using assms(1) by (simp add: many_complete_def)
  show "length ids = length (batchEvents r)"
  proof (cases berr)
    case None
    then show ?thesis
      using assms(2) ids n N b publishBatch_length [OF mc] \<open>batchEvents r \<noteq> []\<close> by (auto simp: rpc_PublishBatch_def Let_def)
  next
    case (Some e)
    then show ?thesis
      using assms(2) ids n N b publish_singly_length \<open>batchEvents r \<noteq> []\<close>
      by (fastforce simp: rpc_PublishBatch_def Let_def split: if_splits)
  qed
qed

theorem batch_validated_and_complete_witness:
  "\<exists>res s'. rpc_PublishBatch RequestCtx (Some \<lparr>batchStream = ''s'', batchEvents = [None]\<rparr>) (sample_sidecar False) = (res, s') \<and>
     res = Inl (InvalidArgument, ''batch contains nil event'') \<and> s' = incrementError (sample_sidecar False)"
proof -
  obtain res s' where r: "rpc_PublishBatch RequestCtx (Some \<lparr>batchStream = ''s'', batchEvents = [None]\<rparr>) (sample_sidecar False) = (res, s')" by fastforce
  have "many_complete (sample_sidecar False)" by (simp add: many_complete_def)
  from batch_validated_and_complete [OF this r] r show ?thesis by simp
qed

text \<open>Remark. A batch whose first message failed in the pipeline is published again as a whole: with no identifier before
  the failure, the handler falls back to publishing every message of the batch singly, those that
  the pipeline delivered after the first included.\<close>

theorem batch_republishes_delivered:
  assumes "normalize_events (TrimSpace (batchStream r)) (batchEvents r) [] s = (Inr normalized, s)" "2 \<le> length normalized"
    and "publishPipeline s = Some p" "s2 = (incrementPublishAttempts ^^ length normalized) s"
    and "pipePublishMany p (publishRedisContext ctx) normalized (world s, collector s2) = (Inr (Inl err # rest), w, c)"
    and "\<not> shouldSkipWALForPublishError (CtxErr (redis s2) ctx w) err"
  shows "rpc_PublishBatch ctx (Some r) s =
    publish_singly ctx normalized [] (incrementPublishPipelineError 1 (s2\<lparr>world := w, collector := c\<rparr>))"
proof -
  have ev: "batchEvents r \<noteq> []" using assms(1,2) normalize_events_length by fastforce
  have "publishBatchToRedis (publishRedisContext ctx) normalized s2 =
      (([], Some err), incrementPublishPipelineError 1 (s2\<lparr>world := w, collector := c\<rparr>))"
    using assms(2,3,5) by (auto simp: publishBatchToRedis_def assms(4) Let_def)
  then show ?thesis
    unfolding rpc_PublishBatch_def using assms(1,4,6) ev by (simp add: Let_def)
qed

definition half_pipeline :: "mem_world publishPipelineClient" where
  "half_pipeline = \<lparr>pipePublish = (\<lambda>ctx req (w, c). (Inr ''1-0'', w, c)),
     pipePublishMany = (\<lambda>ctx reqs (w, c). (Inr [Inl (ErrMsg ''i/o timeout''), Inr ''1-0''], w, c)), pipeQueueLength = (\<lambda>w. 0)\<rparr>"

lemma sample_normalize_events:
  assumes "s = (sample_sidecar False)\<lparr>publishPipeline := Some p\<rparr>"
  shows "normalize_events (TrimSpace ''s'') [Some (sample_req ''a''), Some (sample_req ''b'')] [] s = (Inr [sample_req ''a'', sample_req ''b''], s)"
proof -
  have st: "TrimSpace ''s'' = ''s''" "Stream (sample_req x) = ''s''" for x
    by (simp_all add: sample_req_def TrimSpace_visible ascii_visible_def)
  have n: "normalizePublishRequest (sample_req ''a'') d s = ((sample_req ''a'', StatusOK, None), s)"
    "normalizePublishRequest (sample_req ''b'') d s = ((sample_req ''b'', StatusOK, None), s)" for d
    by (rule normalize_id;
      simp add: assms publishable_def sample_req_def sample_cfg_def IsStreamAllowed_iff TrimSpace_visible ascii_visible_def)+
  have same: "(sample_req x)\<lparr>Stream := ''s''\<rparr> = sample_req x" for x by (simp add: sample_req_def)
  show ?thesis by (simp add: st n same Let_def)
qed

theorem batch_republishes_delivered_witness:
  "\<exists>s3. rpc_PublishBatch RequestCtx (Some \<lparr>batchStream = ''s'', batchEvents = [Some (sample_req ''a''), Some (sample_req ''b'')]\<rparr>)
     ((sample_sidecar False)\<lparr>publishPipeline := Some half_pipeline\<rparr>) = publish_singly RequestCtx [sample_req ''a'', sample_req ''b''] [] s3"
proof -
  let ?s = "(sample_sidecar False)\<lparr>publishPipeline := Some half_pipeline\<rparr>"
  have n: "normalize_events (TrimSpace (batchStream \<lparr>batchStream = ''s'', batchEvents = [Some (sample_req ''a''), Some (sample_req ''b'')]\<rparr>))
      (batchEvents \<lparr>batchStream = ''s'', batchEvents = [Some (sample_req ''a''), Some (sample_req ''b'')]\<rparr>) [] ?s =
      (Inr [sample_req ''a'', sample_req ''b''], ?s)"
    using sample_normalize_events [OF refl, of half_pipeline] by simp
  from batch_republishes_delivered [OF n _ _ refl, of half_pipeline RequestCtx "ErrMsg ''i/o timeout''" "[Inr ''1-0'']"]
  show ?thesis by (auto simp: half_pipeline_def shouldSkipWALForPublishError_def)
qed

section \<open>The two ways of acknowledging\<close>

text \<open>C27. An acknowledgement takes exactly one way: in dispatcher mode, with a dispatcher for the stream and group, the identifiers are
  queued there and no Redis command is sent, while a full or stopped queue is reported as unavailable and not
  acknowledged behind the dispatcher's back; without a dispatcher, or in stateless mode, the answer is that of \<open>XACK\<close>.\<close>

theorem rpc_Ack_takes_one_way:
  assumes "rpc_Ack pickDone ctx (Some r) v = (res, v')" "dispatcherManager v = Some m"
    and "TrimSpace (arStream r) \<noteq> ''''" "TrimSpace (arConsumerGroup r) \<noteq> ''''" "arEntryIDs r \<noteq> []"
    and "IsStreamAllowed (ConsumeStreams (cfg (core v))) (TrimSpace (arStream r))"
    and "s = incrementAckRPCRequest (incrementAckRequest (core v))"
  shows "case map_of (mDispatchers m) (dispatcherKey (TrimSpace (arStream r)) (TrimSpace (arConsumerGroup r))) of
      Some p \<Rightarrow>
        ConsumeMode (cfg (core v)) = ConsumeModeDispatcher \<longrightarrow>
        world (core v') = world (core v) \<and>
        (case queueAck pickDone (arEntryIDs r) (mObjs m ! p) s of
           (Inr n, d, s1) \<Rightarrow> res = Inr (int32_wrap n) \<and> v' = v\<lparr>core := s1, dispatcherManager := Some (m\<lparr>mObjs := (mObjs m)[p := d]\<rparr>)\<rparr>
         | (Inl err, d, s1) \<Rightarrow> res = Inl (Unavailable, Error err) \<and> d = mObjs m ! p \<and> core v' = incrementError s)
    | None \<Rightarrow>
        (case ackEntriesInternal ctx r s of
           ((n, code, None), s1) \<Rightarrow> res = Inr (int32_wrap n) \<and> core v' = s1
         | ((n, code, Some err), s1) \<Rightarrow> res = Inl (grpcStatusFromHTTPStatus code (Error err)) \<and> core v' = s1)"
proof (cases "map_of (mDispatchers m) (dispatcherKey (TrimSpace (arStream r)) (TrimSpace (arConsumerGroup r)))")
  case None
  have q: "manager_QueueAck pickDone r m s = (Inl ErrDispatcherNotFound, m, s)"
    using assms(3-7) None by (simp add: manager_QueueAck_def Let_def)
  have v: "(on_core (\<lambda>s. incrementAckRPCRequest (incrementAckRequest s)) v)\<lparr>core := s, dispatcherManager := Some m\<rparr> =
      on_core (\<lambda>s. incrementAckRPCRequest (incrementAckRequest s)) v"
    using assms(2,7) by (cases v) (simp add: on_core_def)
  obtain n code err s1 where a: "ackEntriesInternal ctx r s = ((n, code, err), s1)" by (metis prod_cases3 surj_pair)
  show ?thesis
    using assms(1,2) q a None unfolding rpc_Ack_def Let_def
    by (cases err) (auto simp: on_core_def assms(7) split: if_splits)
next
  case (Some p)
  obtain ra d s1 where q: "queueAck pickDone (arEntryIDs r) (mObjs m ! p) s = (ra, d, s1)" by (metis prod_cases3)
  have mq: "manager_QueueAck pickDone r m s = (ra, m\<lparr>mObjs := (mObjs m)[p := d]\<rparr>, s1)"
    using assms(3-7) Some q by (simp add: manager_QueueAck_def Let_def)
  from q show ?thesis
  proof (cases rule: queueAck_cases)
    case (refused e)
    have e: "\<not> errors_Is e ErrDispatcherNotFound"
      using q refused(1) by (auto simp: queueAck_def Let_def split: if_splits)
    show ?thesis
      using assms(1,2) mq q refused e Some unfolding rpc_Ack_def Let_def by (auto simp: on_core_def assms(7))
  next
    case queued
    show ?thesis
      using assms(1,2) mq q queued Some unfolding rpc_Ack_def Let_def by (auto simp: on_core_def assms(7))
  qed
qed

theorem rpc_Ack_takes_one_way_witness:
  "\<exists>v'. rpc_Ack False RequestCtx (Some \<lparr>arStream = ''s'', arConsumerGroup = ''g'', arEntryIDs = [''1-1'', '' 1-2 '']\<rparr>)
     \<lparr>core = (sample_sidecar False)\<lparr>cfg := sample_cfg\<lparr>ConsumeMode := ConsumeModeDispatcher\<rparr>\<rparr>, dispatcherManager = Some sample_subscribed\<rparr> =
     (Inr 2, v') \<and> world (core v') = mem_empty"
proof -
  let ?c = "sample_cfg\<lparr>ConsumeMode := ConsumeModeDispatcher\<rparr>"
  let ?v = "\<lparr>core = (sample_sidecar False)\<lparr>cfg := ?c\<rparr>, dispatcherManager = Some sample_subscribed\<rparr>"
  let ?r = "\<lparr>arStream = ''s'', arConsumerGroup = ''g'', arEntryIDs = [''1-1'', '' 1-2 '']\<rparr>"
  obtain res v' where a: "rpc_Ack False RequestCtx (Some ?r) ?v = (res, v')" by fastforce
  have t: "TrimSpace ''s'' = ''s''" "TrimSpace ''g'' = ''g''" by (simp_all add: TrimSpace_visible ascii_visible_def)
  have d: "\<not> dDone sample_dispatcher" "dAckQueue sample_dispatcher = []" "dAckQueueSize sample_dispatcher = 1024"
    by (simp_all add: sample_dispatcher_def subscribe_def disp_start_def newStreamDispatcher_def sample_cfg_def Let_def)
  have al: "IsStreamAllowed (ConsumeStreams ?c) ''s''" by (simp add: sample_cfg_def IsStreamAllowed_iff)
  have w: "int32_wrap 2 = 2" by (simp add: int32_wrap_id)
  have "res = Inr 2" "world (core v') = world (core ?v)"
    using rpc_Ack_takes_one_way [OF a _ _ _ _ _ refl, of sample_subscribed] al by (simp_all add: t d w sample_Subscribe dispatcherKey_def queueAck_def sample_clean Let_def)
  with a show ?thesis by (simp add: mem_empty_def)
qed

end
