(* ===== verification/Delivery.thy ===== *)
theory Delivery
  imports Grpc_Api
begin

text \<open>
  What every handler of the service does to the write-ahead log and to Redis.  What Redis has accepted is the interface
  \<open>redis_history\<close>: the set of \<open>XADD\<close> commands it acknowledged, which no command takes back.  In this interface each
  handler is shown to leave the log alone (\<open>soft\<close>) or to respect it (\<open>keeps\<close>: a line stays or its request is published).
\<close>

section \<open>What Redis remembers\<close>

definition published :: "XAddArgs set \<Rightarrow> PublishRequest \<Rightarrow> bool" where
  "published added req \<longleftrightarrow> (\<exists>now n. BuildXAddArgs now req n \<in> added)"

lemma published_mono: "published X req \<Longrightarrow> X \<subseteq> Y \<Longrightarrow> published Y req"
  unfolding published_def by blast

text \<open>The pipeline as the sidecar sees it: an identifier is the answer of Redis to the request it belongs to.\<close>

definition pipeline_records :: "('w \<Rightarrow> XAddArgs set) \<Rightarrow> 'w publishPipelineClient \<Rightarrow> bool" where
  "pipeline_records H p \<longleftrightarrow>
     (\<forall>ctx req w c r w' c'. pipePublish p ctx req (w, c) = (r, w', c') \<longrightarrow>
        H w \<subseteq> H w' \<and> (\<forall>eid. r = Inr eid \<longrightarrow> published (H w') req)) \<and>
     (\<forall>ctx reqs w c r w' c'. pipePublishMany p ctx reqs (w, c) = (r, w', c') \<longrightarrow>
        H w \<subseteq> H w' \<and> (\<forall>rs. r = Inr rs \<longrightarrow> length rs = length reqs \<and>
          (\<forall>i<length rs. \<not> isl (rs ! i) \<longrightarrow> published (H w') (reqs ! i))))"

lemma pipeline_recordsD:
  assumes "pipeline_records H p"
  shows "pipePublish p ctx req (w, c) = (r, w', c') \<Longrightarrow> H w \<subseteq> H w'"
    "pipePublish p ctx req (w, c) = (Inr eid, w', c') \<Longrightarrow> published (H w') req"
    "pipePublishMany p ctx reqs (w, c) = (rr, w', c') \<Longrightarrow> H w \<subseteq> H w'"
    "pipePublishMany p ctx reqs (w, c) = (Inr rs, w', c') \<Longrightarrow> length rs = length reqs \<and>
       (\<forall>i<length rs. \<not> isl (rs ! i) \<longrightarrow> published (H w') (reqs ! i))"
proof -
  note one = assms [unfolded pipeline_records_def, THEN conjunct1, rule_format]
  note many = assms [unfolded pipeline_records_def, THEN conjunct2, rule_format]
  show "pipePublish p ctx req (w, c) = (r, w', c') \<Longrightarrow> H w \<subseteq> H w'" using one by simp
  show "pipePublish p ctx req (w, c) = (Inr eid, w', c') \<Longrightarrow> published (H w') req" using one by simp
  show "pipePublishMany p ctx reqs (w, c) = (rr, w', c') \<Longrightarrow> H w \<subseteq> H w'" using many by simp
  show "pipePublishMany p ctx reqs (w, c) = (Inr rs, w', c') \<Longrightarrow> length rs = length reqs \<and>
       (\<forall>i<length rs. \<not> isl (rs ! i) \<longrightarrow> published (H w') (reqs ! i))"
    using many by simp
qed

text \<open>Changes that do not touch the log: the world grows, counters and the cache of groups change.\<close>

definition soft :: "('w \<Rightarrow> XAddArgs set) \<Rightarrow> 'w sidecar \<Rightarrow> 'w sidecar \<Rightarrow> bool" where
  "soft H s s' \<longleftrightarrow> H (world s) \<subseteq> H (world s') \<and>
     s' = s\<lparr>world := world s', collector := collector s', consumerGroupsEnsured := consumerGroupsEnsured s'\<rparr>"

lemma softD:
  assumes "soft H s s'"
  shows "H (world s) \<subseteq> H (world s')" "cfg s' = cfg s" "redis s' = redis s" "publisher s' = publisher s"
    "publishPipeline s' = publishPipeline s" "wal s' = wal s" "replayMu s' = replayMu s" "startedAt s' = startedAt s"
    "walJSON s' = walJSON s" "promClient s' = promClient s" "disk s' = disk s"
  using assms by (cases s; cases s'; simp add: soft_def)+

lemma soft_refl [simp, intro]: "soft H s s"
  by (simp add: soft_def)

lemma soft_trans [trans]: "soft H s t \<Longrightarrow> soft H t u \<Longrightarrow> soft H s u"
  by (cases s; cases t; cases u) (auto simp: soft_def)

lemma soft_update [simp]:
  "soft H s (on_collector f t) \<longleftrightarrow> soft H s t" "soft H s (t\<lparr>collector := c\<rparr>) \<longleftrightarrow> soft H s t"
  "soft H s (t\<lparr>consumerGroupsEnsured := g\<rparr>) \<longleftrightarrow> soft H s t"
  "soft H (on_collector f s) t \<longleftrightarrow> soft H s t"
  by (cases s; cases t; simp add: soft_def on_collector_def)+

lemma soft_world: "soft H s t \<Longrightarrow> H (world t) \<subseteq> H w \<Longrightarrow> soft H s (t\<lparr>world := w\<rparr>)"
  by (cases s; cases t) (auto simp: soft_def)

lemma soft_counted [simp]: "soft H s ((on_collector f ^^ n) t) \<longleftrightarrow> soft H s t"
  by (induction n) simp_all

lemma soft_of_frame: "publish_frame s s' \<Longrightarrow> H (world s) \<subseteq> H (world s') \<Longrightarrow> soft H s s'"
  by (cases s; cases s') (simp add: publish_frame_def soft_def)

text \<open>A sidecar whose publisher and pipeline talk to the given Redis, as \<open>service.New\<close> wires them.\<close>

definition connected :: "'w redis \<Rightarrow> ('w \<Rightarrow> XAddArgs set) \<Rightarrow> 'w sidecar \<Rightarrow> bool" where
  "connected R H s \<longleftrightarrow> redis s = R \<and> publisher s = Publisher_Publish R (MaxStreamLen (cfg s)) \<and>
     (\<forall>p. publishPipeline s = Some p \<longrightarrow> pipeline_records H p)"

lemma connected_soft: "soft H s s' \<Longrightarrow> connected R H s' \<longleftrightarrow> connected R H s"
  by (simp add: connected_def softD(2-5))

lemma connected_on_collector [simp]: "connected R H (on_collector f s) \<longleftrightarrow> connected R H s"
  by (simp add: connected_def)

section \<open>Changes that respect the log\<close>

text \<open>The log is sound when its invariant and its limits hold; an append needs the file to be examined and written in full.\<close>

definition log_ok :: "'w sidecar \<Rightarrow> bool" where
  "log_ok s \<longleftrightarrow> codec_ok (walJSON s) \<and> wal_inv (wal s) (disk s) \<and> wal_within_limits (wal s) (disk s)"

definition io_ok :: "'w sidecar \<Rightarrow> bool" where
  "io_ok s \<longleftrightarrow> fault (disk s) OpStat (wal_path (wal s)) = None \<and> write_cut (disk s) (wal_path (wal s)) = None"

definition handed_over :: "XAddArgs set \<Rightarrow> wal_codec \<Rightarrow> string list \<Rightarrow> string \<Rightarrow> bool" where
  "handed_over added J lines x \<longleftrightarrow> x \<in> set lines \<or> (\<exists>e. Unmarshal J x = Inr e \<and> published added (eRequest e))"

text \<open>A line of a sound log stays in it or is published, and the log stays sound.\<close>

definition log_kept :: "('w \<Rightarrow> XAddArgs set) \<Rightarrow> 'w sidecar \<Rightarrow> 'w sidecar \<Rightarrow> bool" where
  "log_kept H s s' \<longleftrightarrow> log_ok s' \<and> maxEntries (wal s') = maxEntries (wal s) \<and> maxBytes (wal s') = maxBytes (wal s) \<and>
     (\<forall>x\<in>set (backlog s). handed_over (H (world s')) (walJSON s) (backlog s') x)"

definition keeps :: "bool \<Rightarrow> ('w \<Rightarrow> XAddArgs set) \<Rightarrow> 'w sidecar \<Rightarrow> 'w sidecar \<Rightarrow> bool" where
  "keeps io H s s' \<longleftrightarrow> H (world s) \<subseteq> H (world s') \<and>
     s' = s\<lparr>world := world s', collector := collector s', consumerGroupsEnsured := consumerGroupsEnsured s', wal := wal s', disk := disk s'\<rparr> \<and>
     wal_path (wal s') = wal_path (wal s) \<and> fault (disk s') = fault (disk s) \<and> write_cut (disk s') = write_cut (disk s) \<and>
     (log_ok s \<and> (io \<longrightarrow> io_ok s) \<longrightarrow> log_kept H s s')"

lemma keepsD:
  assumes "keeps io H s s'"
  shows "H (world s) \<subseteq> H (world s')" "cfg s' = cfg s" "redis s' = redis s" "publisher s' = publisher s"
    "publishPipeline s' = publishPipeline s" "replayMu s' = replayMu s" "walJSON s' = walJSON s"
    "io_ok s' \<longleftrightarrow> io_ok s" "log_ok s \<Longrightarrow> io \<longrightarrow> io_ok s \<Longrightarrow> log_kept H s s'"
  using assms by (cases s; cases s'; simp add: keeps_def io_ok_def)+

lemma log_kept_trans:
  assumes "log_kept H s t" "log_kept H t u" "H (world t) \<subseteq> H (world u)" "walJSON t = walJSON s"
  shows "log_kept H s u"
  using assms published_mono unfolding log_kept_def handed_over_def by metis

lemma keeps_trans [trans]:
  assumes "keeps io H s t" "keeps io H t u"
  shows "keeps io H s u"
proof -
  have "log_kept H s u" if "log_ok s" "io \<longrightarrow> io_ok s"
  proof -
    have st: "log_kept H s t" using keepsD(9) [OF assms(1)] that by simp
    then have "log_ok t" by (simp add: log_kept_def)
    then have "log_kept H t u" using keepsD(8) [OF assms(1)] keepsD(9) [OF assms(2)] that by simp
    with st show ?thesis using log_kept_trans keepsD(1) [OF assms(2)] keepsD(7) [OF assms(1)] by blast
  qed
  then show ?thesis using assms by (cases s; cases t; cases u) (auto simp: keeps_def)
qed

lemma keeps_weaken: "keeps False H s t \<Longrightarrow> keeps io H s t"
  by (auto simp: keeps_def)

lemma keeps_soft: "soft H s s' \<Longrightarrow> keeps io H s s'"
  by (cases s; cases s') (auto simp: soft_def keeps_def log_kept_def log_ok_def handed_over_def)

lemma keeps_on_collector [simp]: "keeps io H s (on_collector f t) \<longleftrightarrow> keeps io H s t"
  by (cases s; cases t) (auto simp: on_collector_def keeps_def log_kept_def log_ok_def)

lemma keeps_on_collector_left [simp]: "keeps io H (on_collector f s) t \<longleftrightarrow> keeps io H s t"
  by (cases s; cases t) (auto simp: on_collector_def keeps_def log_kept_def log_ok_def io_ok_def)

lemma connected_keeps: "keeps io H s s' \<Longrightarrow> connected R H s' \<longleftrightarrow> connected R H s"
  by (simp add: connected_def keepsD(2-5))

text \<open>A request is secured when Redis has accepted it or a line of the log holds it.\<close>

definition secured :: "('w \<Rightarrow> XAddArgs set) \<Rightarrow> 'w sidecar \<Rightarrow> PublishRequest \<Rightarrow> bool" where
  "secured H s req \<longleftrightarrow> published (H (world s)) req \<or> (\<exists>x\<in>set (backlog s). holds_request (walJSON s) x req)"

lemma secured_log_kept:
  assumes "log_kept H s s'" "H (world s) \<subseteq> H (world s')" "walJSON s' = walJSON s" "codec_roundtrip (walJSON s) req" "secured H s req"
  shows "secured H s' req"
proof -
  from assms(5) consider "published (H (world s)) req" | x where "x \<in> set (backlog s)" "holds_request (walJSON s) x req"
    unfolding secured_def by blast
  then show ?thesis
  proof cases
    case 1
    then show ?thesis using published_mono assms(2) unfolding secured_def by blast
  next
    case 2
    then obtain e where e: "Unmarshal (walJSON s) x = Inr e" "eRequest e = req" using assms(4) unfolding codec_roundtrip_def by blast
    have "handed_over (H (world s')) (walJSON s) (backlog s') x" using assms(1) 2(1) by (simp add: log_kept_def)
    then show ?thesis using e 2(2) assms(3) unfolding handed_over_def secured_def by auto
  qed
qed

lemma secured_keeps:
  assumes "keeps io H s s'" "log_ok s" "io \<longrightarrow> io_ok s" "codec_roundtrip (walJSON s) req" "secured H s req"
  shows "secured H s' req"
  by (rule secured_log_kept [OF keepsD(9) [OF assms(1-3)] keepsD(1,7) [OF assms(1)] assms(4,5)])

lemma secured_on_collector [simp]: "secured H (on_collector f s) req \<longleftrightarrow> secured H s req"
  by (simp add: secured_def)

lemma OpenCreate_faults: "os_OpenCreate p fs = (e, fs') \<Longrightarrow> fault fs' = fault fs \<and> write_cut fs' = write_cut fs"
  by (auto simp: os_OpenCreate_def split: option.splits if_splits)

lemma Append_faults: "wal_Append J now reason req l fs = (e, l', fs') \<Longrightarrow> fault fs' = fault fs \<and> write_cut fs' = write_cut fs \<and> wal_path l' = wal_path l"
  by (fastforce simp: wal_Append_def os_AppendWrite_def Let_def dest: OpenCreate_faults split: if_splits sum.splits option.splits prod.splits)

lemma Replay_faults: "wal_Replay J publish n l fs w = (r, l', fs', w') \<Longrightarrow> fault fs' = fault fs \<and> write_cut fs' = write_cut fs \<and> wal_path l' = wal_path l"
  by (fastforce simp: wal_Replay_def wal_rewrite_def os_WriteFile_def os_Rename_def Let_def dest: OpenCreate_faults split: if_splits option.splits prod.splits)

lemma New_faults: "wal_New dir opts fs = (r, fs') \<Longrightarrow> fault fs' = fault fs \<and> write_cut fs' = write_cut fs"
  by (fastforce simp: wal_New_def countFileLines_def Let_def dest: OpenCreate_faults split: if_splits sum.splits option.splits prod.splits)

locale redis_history =
  fixes R :: "'w redis"
    and H :: "'w \<Rightarrow> XAddArgs set"
  assumes XAdd_recorded: "XAdd R ctx a w = (Inr eid, w') \<Longrightarrow> a \<in> H w'"
    and XAdd_grows: "XAdd R ctx a w = (r, w') \<Longrightarrow> H w \<subseteq> H w'"
    and Ping_grows: "Ping R ctx w = (e, w') \<Longrightarrow> H w \<subseteq> H w'"
    and XAck_grows: "XAck R ctx st g ids w = (n, w') \<Longrightarrow> H w \<subseteq> H w'"
    and XDel_grows: "XDel R ctx st i w = (n, w') \<Longrightarrow> H w \<subseteq> H w'"
    and XRange_grows: "XRange R ctx st a1 b1 w = (x, w') \<Longrightarrow> H w \<subseteq> H w'"
    and XRangeN_grows: "XRangeN R ctx st a1 b1 k w = (x, w') \<Longrightarrow> H w \<subseteq> H w'"
    and XReadGroup_grows: "XReadGroup R ctx args w = (y, w') \<Longrightarrow> H w \<subseteq> H w'"
    and XGroupCreate_grows: "XGroupCreateMkStream R ctx st g start w = (e, w') \<Longrightarrow> H w \<subseteq> H w'"
    and XInfoGroups_grows: "XInfoGroups R ctx st w = (z, w') \<Longrightarrow> H w \<subseteq> H w'"
    and XInfoStream_grows: "XInfoStreamCmd R ctx st w = (u, w') \<Longrightarrow> H w \<subseteq> H w'"
    and XPending_grows: "XPendingExtCmd R ctx pargs w = (v, w') \<Longrightarrow> H w \<subseteq> H w'"
    and Now_grows: "Now R w = (t, w') \<Longrightarrow> H w \<subseteq> H w'"
    and Clock_grows: "Clock R w = (k, w') \<Longrightarrow> H w \<subseteq> H w'"
begin

lemma Publisher_records:
  assumes "Publisher_Publish R n ctx req w = (r, w')"
  shows "H w \<subseteq> H w'" "r = Inr eid \<Longrightarrow> published (H w') req"
proof -
  obtain now w1 where n: "Now R w = (now, w1)" by fastforce
  then have x: "XAdd R ctx (BuildXAddArgs now req n) w1 = (r, w')" using assms by (simp add: Publisher_Publish_def)
  show "H w \<subseteq> H w'" using Now_grows [OF n] XAdd_grows [OF x] by blast
  show "published (H w') req" if "r = Inr eid" using XAdd_recorded x that unfolding published_def by blast
qed

section \<open>Handlers that do not touch the log\<close>

lemma ensure_soft: "ensureConsumerGroup ctx a g s = (e, s') \<Longrightarrow> redis s = R \<Longrightarrow> soft H s s'"
  using XGroupCreate_grows
  by (fastforce simp: ensureConsumerGroup_def Let_def rememberConsumerGroup_def intro: soft_world split: if_splits option.splits prod.splits)

lemma readOnce_soft: "readOnce ctx req s = (r, s') \<Longrightarrow> redis s = R \<Longrightarrow> soft H s s'"
  using XReadGroup_grows by (fastforce simp: readOnce_def intro: soft_world split: prod.splits)

lemma read_with_retry_soft:
  assumes "read_with_retry ctx req s = (r, s')" "redis s = R"
  shows "soft H s s'"
proof -
  obtain r1 s1 where 1: "readOnce ctx req s = (r1, s1)" by fastforce
  note k1 = readOnce_soft [OF 1 assms(2)]
  obtain e s2 where 2: "ensureConsumerGroup ctx (rrStream req) (rrConsumerGroup req)
      (forgetEnsuredConsumerGroup (rrStream req) (rrConsumerGroup req) s1) = (e, s2)" by fastforce
  have "soft H s (forgetEnsuredConsumerGroup (rrStream req) (rrConsumerGroup req) s1)"
    using k1 by (simp add: forgetEnsuredConsumerGroup_def)
  moreover have "redis (forgetEnsuredConsumerGroup (rrStream req) (rrConsumerGroup req) s1) = R"
    using softD(3) [OF k1] assms(2) by (simp add: forgetEnsuredConsumerGroup_def)
  ultimately have k2: "soft H s s2" using ensure_soft [OF 2] soft_trans by blast
  obtain r3 s3 where 3: "readOnce ctx req s2 = (r3, s3)" by fastforce
  have k3: "soft H s s3" using readOnce_soft [OF 3] softD(3) [OF k2] assms(2) k2 soft_trans by metis
  show ?thesis
    using assms(1) 1 2 3 k1 k2 k3 by (auto simp: read_with_retry_def split: sum.splits if_splits option.splits)
qed

lemma consume_soft:
  assumes "consumeGroupOnce ctx req s = (r, s')" "redis s = R"
  shows "soft H s s'"
proof -
  define q where "q = clamp_read (trim_read req)"
  obtain e s1 where 1: "ensureConsumerGroup ctx (rrStream q) (rrConsumerGroup q) s = (e, s1)" by fastforce
  note k1 = ensure_soft [OF 1 assms(2)]
  obtain x s2 where 2: "read_with_retry ctx q s1 = (x, s2)" by fastforce
  have k2: "soft H s s2" using read_with_retry_soft [OF 2] softD(3) [OF k1] assms(2) k1 soft_trans by metis
  show ?thesis
    using assms(1) 1 2 k1 k2
    by (auto simp: consumeGroupOnce_def Let_def q_def [symmetric] split: if_splits option.splits sum.splits)
qed

lemma ack_soft: "ackEntriesInternal ctx req s = (r, s') \<Longrightarrow> redis s = R \<Longrightarrow> soft H s s'"
  using XAck_grows by (fastforce simp: ackEntriesInternal_def Let_def intro: soft_world split: if_splits sum.splits prod.splits)

lemma replay_one_soft:
  assumes "replay_one ctx req m s = (r, s')" "redis s = R"
  shows "soft H s s'"
proof -
  obtain now w1 where n: "Now R (world s) = (now, w1)" by fastforce
  obtain x w2 where a: "XAdd R ctx \<lparr>xaStream = replay_target (drTargetStream req) m, xaMaxLen = MaxStreamLen (cfg s), xaApprox = True,
      xaValues = ValueMap (replay_values (drDLQStream req) m now)\<rparr> w1 = (x, w2)" by fastforce
  obtain y w3 where d: "XDel R ctx (drDLQStream req) (msgID m) w2 = (y, w3)" by fastforce
  have "H (world s) \<subseteq> H w2" using Now_grows [OF n] XAdd_grows [OF a] by blast
  moreover have "H w2 \<subseteq> H w3" by (rule XDel_grows [OF d])
  ultimately have "soft H s (s\<lparr>world := w2\<rparr>)" "soft H s (s\<lparr>world := w3\<rparr>)" by (auto intro: soft_world)
  then show ?thesis
    using assms n a d by (auto simp: replay_one_def Let_def split: if_splits sum.splits)
qed

lemma replay_messages_soft: "replay_messages ctx req msgs res s = (r, s') \<Longrightarrow> redis s = R \<Longrightarrow> soft H s s'"
proof (induction ctx req msgs res s rule: replay_messages.induct)
  case (2 ctx req m rest res s)
  obtain x s1 where 1: "replay_one ctx req m s = (x, s1)" by fastforce
  note k = replay_one_soft [OF 1 "2.prems"(2)]
  have R1: "redis s1 = R" using softD(3) [OF k] "2.prems"(2) by simp
  show ?case
    using "2.prems" 1 k R1 "2.IH" [OF 1 [symmetric]] soft_trans [OF k] by (auto split: replay_step.splits)
qed simp

lemma replayDLQ_soft:
  assumes "replayDLQInternal ctx req s = (r, s')" "redis s = R"
  shows "soft H s s'"
proof -
  define q where "q = normalize_replay (req\<lparr>drDLQStream := TrimSpace (drDLQStream req), drTargetStream := TrimSpace (drTargetStream req),
    drStart := TrimSpace (drStart req), drEnd := TrimSpace (drEnd req)\<rparr>)"
  obtain x w where 1: "XRangeN R ctx (drDLQStream q) (drStart q) (drEnd q) (drCount q) (world s) = (x, w)" by fastforce
  have k: "soft H s (s\<lparr>world := w\<rparr>)" using XRangeN_grows [OF 1] by (auto intro: soft_world)
  have "soft H s s2" if "replay_messages ctx q m (no_replay\<lparr>resEntryIDs := Some []\<rparr>) (s\<lparr>world := w\<rparr>) = (y, s2)" for m y s2
    using replay_messages_soft [OF that] assms(2) k soft_trans by fastforce
  then show ?thesis
    using assms 1 k by (fastforce simp: replayDLQInternal_def Let_def q_def [symmetric] split: if_splits sum.splits prod.splits option.splits)
qed

lemma move_soft:
  assumes "movePendingEntryToDLQ ctx st g p dlq s = (r, s')" "redis s = R"
  shows "soft H s s'"
proof -
  obtain x w1 where 1: "XRange R ctx st (pendID p) (pendID p) (world s) = (x, w1)" by fastforce
  obtain now w2 where 2: "Now R w1 = (now, w2)" by fastforce
  have grown: "H (world s) \<subseteq> H w1" "H w1 \<subseteq> H w2" by (rule XRange_grows [OF 1], rule Now_grows [OF 2])
  show ?thesis
  proof (cases x)
    case (Inl e)
    then show ?thesis using assms 1 grown by (auto simp: movePendingEntryToDLQ_def intro: soft_world)
  next
    case (Inr msgs)
    show ?thesis
    proof (cases msgs)
      case Nil
      then show ?thesis using assms 1 Inr grown by (auto simp: movePendingEntryToDLQ_def intro: soft_world)
    next
      case (Cons m rest)
      obtain y w3 where 3: "XAdd R ctx \<lparr>xaStream = dlq, xaMaxLen = MaxStreamLen (cfg s), xaApprox = True,
        xaValues = ValueMap (dlq_values st g m p now)\<rparr> w2 = (y, w3)" by fastforce
      obtain z w4 where 4: "XAck R ctx st g [msgID m] w3 = (z, w4)" by fastforce
      have "H (world s) \<subseteq> H w3" "H (world s) \<subseteq> H w4" using grown XAdd_grows [OF 3] XAck_grows [OF 4] by blast+
      then have "soft H s (s\<lparr>world := w3\<rparr>)" "soft H s (s\<lparr>world := w4\<rparr>)" by (auto intro: soft_world)
      then show ?thesis using assms 1 2 3 4 Inr Cons by (auto simp: movePendingEntryToDLQ_def split: sum.splits)
    qed
  qed
qed

lemma scan_entries_soft: "redis s = R \<Longrightarrow> soft H s (scan_entries ctx st g pol ps s)"
proof (induction ctx st g pol ps s rule: scan_entries.induct)
  case (2 ctx st g pol p rest s)
  obtain x err s1 where 1: "movePendingEntryToDLQ ctx st g p (DLQStream pol) s = ((x, err), s1)" by (metis prod.collapse)
  note k = move_soft [OF 1 "2.prems"]
  have R1: "redis s1 = R" using softD(3) [OF k] "2.prems" by simp
  show ?case
    using 1 "2.IH" "2.prems" R1 soft_trans [OF k] by (auto split: option.splits)
qed simp

lemma scan_group_soft:
  assumes "scan_group ctx st g pol start s = Some s'"
  shows "redis s = R \<longrightarrow> soft H s s'"
proof (rule scan_group.raw_induct [OF _ assms, where P = "\<lambda>ctx st g pol start s s'. redis s = R \<longrightarrow> soft H s s'"], goal_cases)
  case (1 scan ctx st g pol start s s')
  show ?case
  proof
    assume R: "redis s = R"
    obtain x s1 where p: "pending_page ctx st g start s = (x, s1)" by fastforce
    have k1: "soft H s s1"
      using p R XPending_grows by (fastforce simp: pending_page_def intro: soft_world split: prod.splits)
    have k2: "soft H s (scan_entries ctx st g pol ps s1)" for ps
      using scan_entries_soft softD(3) [OF k1] R k1 soft_trans by metis
    then have R2: "redis (scan_entries ctx st g pol ps s1) = R" for ps using softD(3) R by metis
    show "soft H s s'"
    proof (cases x)
      case (Inl e)
      with 1(2) p k1 show ?thesis by (auto split: if_splits)
    next
      case (Inr ps)
      show ?thesis
      proof (cases "ps = [] \<or> int (length ps) < DLQScanBatch (cfg (scan_entries ctx st g pol ps s1))")
        case True
        with 1(2) p Inr k1 k2 [of ps] show ?thesis by (cases ps) (auto simp: Let_def)
      next
        case False
        then obtain q qs where ps: "ps = q # qs" by (cases ps) auto
        have "scan ctx st g pol (''('' @ pendID (last ps)) (scan_entries ctx st g pol ps s1) = Some s'"
          using 1(2) False unfolding p Inr ps Let_def prod.case sum.case list.case by (simp only: if_False de_Morgan_disj)
        from 1(1) [OF this] R2 [of ps] have "soft H (scan_entries ctx st g pol ps s1) s'" by simp
        then show ?thesis by (rule soft_trans [OF k2])
      qed
    qed
  qed
qed

lemma scan_groups_soft: "scan_groups ctx st pol gs s = Some s' \<Longrightarrow> redis s = R \<Longrightarrow> soft H s s'"
proof (induction gs arbitrary: s)
  case (Cons g gs)
  then obtain s1 where 1: "scan_group ctx st g pol ''-'' s = Some s1" "scan_groups ctx st pol gs s1 = Some s'"
    by (auto split: option.splits)
  then have k: "soft H s s1" using scan_group_soft Cons.prems(2) by blast
  then show ?case using Cons.IH [OF 1(2)] softD(3) [OF k] Cons.prems(2) soft_trans by metis
qed simp

lemma scan_streams_soft: "scan_streams ctx sts s = Some s' \<Longrightarrow> redis s = R \<Longrightarrow> soft H s s'"
proof (induction sts arbitrary: s)
  case (Cons st sts)
  obtain r w where x: "XInfoGroups R ctx st (world s) = (r, w)" by fastforce
  have k: "soft H s (s\<lparr>world := w\<rparr>)" using XInfoGroups_grows [OF x] by (auto intro: soft_world)
  show ?case
  proof (cases r)
    case (Inl e)
    with x Cons.prems Cons.IH [of "s\<lparr>world := w\<rparr>"] Cons.IH [of "incrementError (s\<lparr>world := w\<rparr>)"] k soft_trans
    show ?thesis by (fastforce simp: Let_def split: if_splits)
  next
    case (Inr gs)
    with x Cons.prems obtain s2 where 2: "scan_groups ctx st (ResolveDLQPolicy (cfg s) st) gs (s\<lparr>world := w\<rparr>) = Some s2"
      "scan_streams ctx sts s2 = Some s'" by (auto simp: Let_def split: option.splits)
    have "soft H (s\<lparr>world := w\<rparr>) s2" using scan_groups_soft [OF 2(1)] Cons.prems(2) by simp
    then have k2: "soft H s s2" using k soft_trans by blast
    then show ?thesis using Cons.IH [OF 2(2)] softD(3) [OF k2] Cons.prems(2) soft_trans by metis
  qed
qed simp

lemma scan_soft: "scanAndMoveToDLQ ctx s = Some s' \<Longrightarrow> redis s = R \<Longrightarrow> soft H s s'"
  using scan_streams_soft by (auto simp: scanAndMoveToDLQ_def Let_def split: if_splits)

lemma info_soft:
  assumes "rpc_StreamInfo ctx req s = (r, s')" "redis s = R"
  shows "soft H s s'"
proof -
  define st where "st = (case req of None \<Rightarrow> '''' | Some st \<Rightarrow> TrimSpace st)"
  obtain x w where 1: "XInfoStreamCmd R ctx st (world s) = (x, w)" by fastforce
  obtain g w2 where 2: "XInfoGroups R ctx st w = (g, w2)" by fastforce
  have "H (world s) \<subseteq> H w" "H w \<subseteq> H w2" by (rule XInfoStream_grows [OF 1], rule XInfoGroups_grows [OF 2])
  then have "soft H s (s\<lparr>world := w\<rparr>)" "soft H s (s\<lparr>world := w2\<rparr>)" by (auto intro: soft_world)
  then show ?thesis
    using assms 1 2 by (auto simp: rpc_StreamInfo_def Let_def st_def [symmetric] split: if_splits sum.splits)
qed

section \<open>Publishing\<close>

lemma call_publisher_soft:
  assumes "call_publisher ctx req s = (r, s')" "connected R H s"
  shows "soft H s s'" "r = Inr eid \<Longrightarrow> published (H (world s')) req"
proof -
  obtain w where p: "Publisher_Publish R (MaxStreamLen (cfg s)) ctx req (world s) = (r, w)" "s' = s\<lparr>world := w\<rparr>"
    using assms by (auto simp: call_publisher_def connected_def split: prod.splits)
  show "soft H s s'" using Publisher_records(1) [OF p(1)] p(2) by (auto intro: soft_world)
  show "published (H (world s')) req" if "r = Inr eid" using Publisher_records(2) [OF p(1) that] p(2) by simp
qed

lemma call_pipeline_soft:
  assumes "call_pipeline p ctx req s = (r, s')" "pipeline_records H p"
  shows "soft H s s'" "r = Inr eid \<Longrightarrow> published (H (world s')) req"
proof -
  obtain w c where p: "pipePublish p ctx req (world s, collector s) = (r, w, c)" "s' = s\<lparr>world := w, collector := c\<rparr>"
    using assms(1) by (auto simp: call_pipeline_def split: prod.splits)
  have k: "H (world s) \<subseteq> H w \<and> (\<forall>eid. r = Inr eid \<longrightarrow> published (H w) req)"
    using pipeline_recordsD(1,2) [OF assms(2)] p(1) by blast
  show "soft H s s'" using k p(2) by (auto intro: soft_world)
  show "published (H (world s')) req" if "r = Inr eid" using k p(2) that by simp
qed

lemma via_pipeline_soft:
  assumes "publish_via_pipeline p n ctx req s = (r, s')" "connected R H s" "pipeline_records H p"
  shows "soft H s s'" "r = Inr eid \<Longrightarrow> published (H (world s')) req"
proof -
  obtain x s1 where 1: "call_publisher ctx req (incrementPublishPipelineAdaptiveDirect s) = (x, s1)" by fastforce
  have k1: "soft H s s1" "x = Inr i \<Longrightarrow> published (H (world s1)) req" for i
    using call_publisher_soft [OF 1] assms(2) by simp_all
  obtain y s2 where 2: "call_pipeline p ctx req s = (y, s2)" by fastforce
  have k2: "soft H s s2" "y = Inr i \<Longrightarrow> published (H (world s2)) req" for i
    using call_pipeline_soft [OF 2 assms(3)] by simp_all
  obtain z s3 where 3: "call_publisher ctx req (incrementPublishPipelineFallback s2) = (z, s3)" by fastforce
  have c2: "connected R H (incrementPublishPipelineFallback s2)" using connected_soft [OF k2(1)] assms(2) by simp
  have k3: "soft H s s3" "z = Inr i \<Longrightarrow> published (H (world s3)) req" for i
    using call_publisher_soft [OF 3 c2] soft_trans [OF k2(1)] by simp_all
  show "soft H s s'" "r = Inr eid \<Longrightarrow> published (H (world s')) req"
    using assms(1) 1 2 3 k1 k2 k3 by (auto simp: publish_via_pipeline_def split: if_splits sum.splits)
qed

lemma addAdaptiveActive_soft: "addAdaptiveActive d s = (n, s') \<Longrightarrow> soft H s s' \<and> world s' = world s"
  by (auto simp: addAdaptiveActive_def split: prod.splits)

lemma publish_soft:
  assumes "publishToRedis ctx req s = (r, s')" "connected R H s"
  shows "soft H s s'" "r = Inr eid \<Longrightarrow> published (H (world s')) req"
proof -
  have "soft H s s' \<and> (r = Inr eid \<longrightarrow> published (H (world s')) req)"
  proof (cases "publishPipeline s")
    case None
    then show ?thesis using assms call_publisher_soft [of ctx req s r s'] by (simp add: publishToRedis_def)
  next
    case (Some p)
    then have p: "pipeline_records H p" using assms(2) by (simp add: connected_def)
    show ?thesis
    proof (cases "PublishPipelineAdaptiveEnabled (cfg s)")
      case False
      then show ?thesis
        using assms(1) Some via_pipeline_soft [OF _ assms(2) p, of 0 ctx req r s'] by (simp add: publishToRedis_def)
    next
      case True
      obtain n s1 where 1: "addAdaptiveActive 1 s = (n, s1)" by fastforce
      note k1 = conjunct1 [OF addAdaptiveActive_soft [OF 1]]
      obtain x s2 where 2: "publish_via_pipeline p n ctx req s1 = (x, s2)" by fastforce
      have c1: "connected R H s1" using connected_soft [OF k1] assms(2) by simp
      obtain m s3 where 3: "addAdaptiveActive (- 1) s2 = (m, s3)" by fastforce
      have k3: "soft H s2 s3" "world s3 = world s2" using addAdaptiveActive_soft [OF 3] by simp_all
      have "r = x" "s' = s3" using assms(1) Some True 1 2 3 by (simp_all add: publishToRedis_def)
      then show ?thesis
        using via_pipeline_soft [OF 2 c1 p] k1 k3 soft_trans by metis
    qed
  qed
  then show "soft H s s'" "r = Inr eid \<Longrightarrow> published (H (world s')) req" by simp_all
qed

lemma publish_each_soft:
  "publish_each ctx reqs ids s = ((out, err), s') \<Longrightarrow> connected R H s \<Longrightarrow>
     soft H s s' \<and> (err = None \<longrightarrow> (\<forall>req\<in>set reqs. published (H (world s')) req))"
proof (induction ctx reqs ids s rule: publish_each.induct)
  case (2 ctx req reqs ids s)
  obtain r s1 where 1: "publishToRedis ctx req s = (r, s1)" by fastforce
  note k = publish_soft [OF 1 "2.prems"(2)]
  show ?case
  proof (cases r)
    case (Inl e)
    then show ?thesis using "2.prems" 1 k by auto
  next
    case (Inr eid)
    have c1: "connected R H s1" using connected_soft [OF k(1)] "2.prems"(2) by simp
    have rest: "publish_each ctx reqs (ids @ [eid]) s1 = ((out, err), s')" using "2.prems"(1) 1 Inr by simp
    from "2.IH" [OF 1 [symmetric] Inr rest c1] show ?thesis
      using k(1) k(2) [OF Inr] soft_trans published_mono [OF _ softD(1)] by auto
  qed
qed simp

lemma publish_each_direct_soft:
  "publish_each_direct ctx reqs ids s = ((out, err), s') \<Longrightarrow> connected R H s \<Longrightarrow>
     soft H s s' \<and> (err = None \<longrightarrow> (\<forall>req\<in>set reqs. published (H (world s')) req))"
proof (induction ctx reqs ids s rule: publish_each_direct.induct)
  case (2 ctx req reqs ids s)
  obtain r s1 where 1: "call_publisher ctx req s = (r, s1)" by fastforce
  note k = call_publisher_soft [OF 1 "2.prems"(2)]
  show ?case
  proof (cases r)
    case (Inl e)
    then show ?thesis using "2.prems" 1 k by auto
  next
    case (Inr eid)
    have c1: "connected R H s1" using connected_soft [OF k(1)] "2.prems"(2) by simp
    have rest: "publish_each_direct ctx reqs (ids @ [eid]) s1 = ((out, err), s')" using "2.prems"(1) 1 Inr by simp
    from "2.IH" [OF 1 [symmetric] Inr rest c1] show ?thesis
      using k(1) k(2) [OF Inr] soft_trans published_mono [OF _ softD(1)] by auto
  qed
qed simp

lemma collect_results_soft:
  "collect_results rs ids s = ((out, err), s') \<Longrightarrow> soft H s s' \<and> world s' = world s \<and> (err = None \<longrightarrow> (\<forall>r\<in>set rs. \<not> isl r))"
  by (induction rs ids s rule: collect_results.induct) (auto split: sum.splits)

lemma batch_soft:
  assumes "publishBatchToRedis ctx reqs s = ((ids, err), s')" "connected R H s"
  shows "soft H s s'" "err = None \<Longrightarrow> \<forall>req\<in>set reqs. published (H (world s')) req"
proof -
  have "soft H s s' \<and> (err = None \<longrightarrow> (\<forall>req\<in>set reqs. published (H (world s')) req))"
  proof (cases "publishPipeline s = None \<or> length reqs \<le> 1")
    case True
    then have "reqs = [] \<and> ids = [] \<and> s' = s \<or> publish_each ctx reqs [] s = ((ids, err), s')"
      using assms(1) by (cases reqs) (auto simp: publishBatchToRedis_def simp del: publish_each.simps split: option.splits if_splits)
    then show ?thesis using publish_each_soft [OF _ assms(2)] by auto
  next
    case False
    then obtain p where p: "publishPipeline s = Some p" and many: "reqs \<noteq> []" "length reqs \<noteq> 1" by fastforce
    obtain res w c where m: "pipePublishMany p ctx reqs (world s, collector s) = (res, w, c)" by (metis prod_cases3)
    let ?s1 = "s\<lparr>world := w, collector := c\<rparr>"
    have rec: "pipeline_records H p" using assms(2) p by (simp add: connected_def)
    have k: "H (world s) \<subseteq> H w" "res = Inr rs \<Longrightarrow> length rs = length reqs \<and> (\<forall>i<length rs. \<not> isl (rs ! i) \<longrightarrow> published (H w) (reqs ! i))" for rs
      by (rule pipeline_recordsD(3) [OF rec m], rule pipeline_recordsD(4) [OF rec], use m in simp)
    have k1: "soft H s ?s1" using k(1) by (auto intro: soft_world)
    show ?thesis
    proof (cases res)
      case (Inr rs)
      then have out: "collect_results rs [] ?s1 = ((ids, err), s')" using assms(1) p many m by (simp add: publishBatchToRedis_def Let_def)
      have "published (H w) req" if "err = None" "req \<in> set reqs" for req
        using collect_results_soft [OF out] k(2) [OF Inr] that by (metis in_set_conv_nth)
      then show ?thesis using collect_results_soft [OF out] soft_trans [OF k1] by simp
    next
      case (Inl e)
      have c1: "connected R H (incrementPublishPipelineFallback ?s1)" using connected_soft [OF k1] assms(2) by simp
      show ?thesis
        using assms(1) p many m Inl k1 publish_each_direct_soft [OF _ c1] soft_trans [OF k1]
        by (auto simp: publishBatchToRedis_def Let_def split: if_splits)
    qed
  qed
  then show "soft H s s'" "err = None \<Longrightarrow> \<forall>req\<in>set reqs. published (H (world s')) req" by simp_all
qed

section \<open>Appending and replaying\<close>

lemma append_keeps:
  assumes "appendWAL reason req s = (err, s')" "redis s = R"
  shows "keeps True H s s'" "err = None \<Longrightarrow> log_ok s \<Longrightarrow> secured H s' req"
proof -
  obtain now w where n: "Now R (world s) = (now, w)" by fastforce
  obtain l d where a: "wal_Append (walJSON s) now reason req (wal s) (disk s) = (err, l, d)"
      and s': "s' = s\<lparr>wal := l, disk := d, world := w\<rparr>"
    using assms n by (auto simp: appendWAL_def Let_def split: prod.splits)
  have H: "H (world s) \<subseteq> H w" by (rule Now_grows [OF n])
  have "log_kept H s s'" if ok: "log_ok s" "io_ok s"
  proof -
    have inv: "codec_ok (walJSON s)" "wal_inv (wal s) (disk s)" "wal_within_limits (wal s) (disk s)"
      and io: "fault (disk s) OpStat (wal_path (wal s)) = None" "write_cut (disk s) (wal_path (wal s)) = None"
      using ok by (simp_all add: log_ok_def io_ok_def)
    note k = wal_Append_keeps [OF inv a io]
    have "set (wal_lines (wal s) (disk s)) \<subseteq> set (wal_lines l d)"
    proof (cases err)
      case None
      then show ?thesis using wal_Append_inv(2) [OF inv(1,2), of now reason req l d] a by auto
    next
      case (Some e)
      then show ?thesis using wal_Append_failure [of "walJSON s" now reason req "wal s" "disk s" e l d] a io(2) by (simp add: wal_lines_def)
    qed
    then show ?thesis using k inv(1) s' by (auto simp: log_kept_def log_ok_def handed_over_def)
  qed
  then show "keeps True H s s'" using Append_faults [OF a] H s' by (cases s) (auto simp: keeps_def)
  show "secured H s' req" if "err = None" "log_ok s"
  proof -
    have "\<exists>p. Marshal (walJSON s) \<lparr>eTime = now, eReason = reason, eRequest = req\<rparr> = Inr p \<and> wal_lines l d = wal_lines (wal s) (disk s) @ [p]"
      using wal_Append_inv(2) [of "walJSON s" "wal s" "disk s"] a that by (simp add: log_ok_def)
    then show ?thesis unfolding secured_def holds_request_def s' by auto
  qed
qed

lemma replay_publish_records:
  assumes "connected R H s" "replay_publish ctx s req w = (e, w')"
  shows "H w \<subseteq> H w'" "e = None \<Longrightarrow> published (H w') req"
  using assms Publisher_records [of "MaxStreamLen (cfg s)" ctx req w]
  by (fastforce simp: replay_publish_def connected_def split: sum.splits prod.splits)+

lemma replay_spec_hands_over:
  assumes "connected R H s" "replay_spec J (replay_publish ctx s) k ls n w = (n', rest, w')"
  shows "H w \<subseteq> H w' \<and> (\<forall>x\<in>set ls. handed_over (H w') J rest x)"
  using assms(2)
proof (induction ls arbitrary: n w rest)
  case Nil
  then show ?case by simp
next
  case (Cons l ls)
  show ?case
  proof (cases "n \<ge> k")
    case True
    then show ?thesis using Cons.prems by (auto simp: handed_over_def)
  next
    case False
    show ?thesis
    proof (cases "Unmarshal J l")
      case (Inl e)
      obtain m r v where m: "replay_spec J (replay_publish ctx s) k ls n w = (m, r, v)" by (metis prod_cases3)
      with Cons.prems False Inl have "rest = l # r" "w' = v" "n' = m" by auto
      then show ?thesis using Cons.IH [of n w r] m by (auto simp: handed_over_def)
    next
      case (Inr e)
      obtain err w1 where p: "replay_publish ctx s (eRequest e) w = (err, w1)" by fastforce
      note k = replay_publish_records [OF assms(1) p]
      show ?thesis
      proof (cases err)
        case (Some x)
        then show ?thesis using Cons.prems False Inr p k by (auto simp: handed_over_def)
      next
        case None
        then have "replay_spec J (replay_publish ctx s) k ls (n + 1) w1 = (n', rest, w')" using Cons.prems False Inr p by simp
        from Cons.IH [OF this] k None show ?thesis using published_mono Inr unfolding handed_over_def by auto
      qed
    qed
  qed
qed

lemma Replay_grows:
  assumes "connected R H s" "wal_Replay J (replay_publish ctx s) k l fs w = (r, l', fs', w')"
  shows "H w \<subseteq> H w'"
proof -
  have loop: "H w \<subseteq> H v" if "replay_loop J (replay_publish ctx s) k tokens 0 [] True w = (n, rem, v)" for tokens n rem v
  proof -
    obtain m rest u where sp: "replay_spec J (replay_publish ctx s) k (nonblank tokens) 0 w = (m, rest, u)" by (metis prod_cases3)
    then have "v = u" using replay_loop_spec [of J "replay_publish ctx s" k tokens 0 "[]" w] that by simp
    then show ?thesis using replay_spec_hands_over [OF assms(1) sp] by simp
  qed
  show ?thesis
    using assms(2) loop by (fastforce simp: wal_Replay_def split: if_splits prod.splits option.splits)
qed

lemma Replay_hands_over:
  assumes "connected R H s" "wal_inv l fs" "wal_Replay J (replay_publish ctx s) k l fs w = ((n, err), l', fs', w')"
    and "x \<in> set (wal_lines l fs)"
  shows "handed_over (H w') J (wal_lines l' fs') x"
proof (cases "err = None \<and> 0 < k")
  case True
  then have "wal_Replay J (replay_publish ctx s) k l fs w = ((n, None), l', fs', w')" using assms(3) by simp
  from wal_Replay_inv [OF _ assms(2) this] True
  have "replay_spec J (replay_publish ctx s) k (wal_lines l fs) 0 w = (n, wal_lines l' fs', w')" by auto
  from replay_spec_hands_over [OF assms(1) this] assms(4) show ?thesis by blast
next
  case False
  have "l' = l \<and> content (wal_path l) fs' = content (wal_path l) fs"
  proof (cases err)
    case None
    then show ?thesis using False assms(3) by (auto simp: wal_Replay_def split: if_splits)
  next
    case (Some e)
    with assms(3) have "wal_Replay J (replay_publish ctx s) k l fs w = ((n, Some e), l', fs', w')" by simp
    from wal_Replay_Some [OF this] show ?thesis by simp
  qed
  then show ?thesis using assms(4) by (simp add: wal_lines_def handed_over_def)
qed

lemma replay_keeps:
  assumes "connected R H s"
  shows "keeps io H s (replayWAL ctx s)"
proof (cases "WALReplayBatch (cfg s) = 0 \<or> replayMu s")
  case True
  then have "replayWAL ctx s = s" by (auto simp: replayWAL_def)
  then show ?thesis by (simp add: keeps_soft)
next
  case False
  obtain n err l d w where r: "wal_Replay (walJSON s) (replay_publish ctx s) (WALReplayBatch (cfg s)) (wal s) (disk s) (world s) = ((n, err), l, d, w)"
    by (metis prod_cases4 prod.collapse)
  let ?t = "s\<lparr>wal := l, disk := d, world := w\<rparr>"
  have "log_kept H s ?t" if ok: "log_ok s"
  proof -
    have inv: "wal_inv (wal s) (disk s)" "wal_within_limits (wal s) (disk s)" using ok by (simp_all add: log_ok_def)
    have "handed_over (H w) (walJSON s) (wal_lines l d) x" if "x \<in> set (backlog s)" for x
      by (rule Replay_hands_over [OF assms inv(1) r that])
    then show ?thesis using wal_Replay_keeps [OF inv r] ok by (simp add: log_kept_def log_ok_def)
  qed
  then have "keeps io H s ?t" using Replay_grows [OF assms r] Replay_faults [OF r] by (cases s) (auto simp: keeps_def)
  moreover have "\<exists>f. replayWAL ctx s = on_collector f ?t \<or> replayWAL ctx s = ?t"
    using False r by (auto simp: replayWAL_def Let_def split: option.splits)
  ultimately show ?thesis by (metis keeps_on_collector)
qed

section \<open>The publish operations\<close>

lemma publishInternal_keeps:
  assumes "publishInternal ctx req0 s = (po, s')" "connected R H s"
  shows "keeps True H s s'"
    "poErr po = None \<Longrightarrow> log_ok s \<Longrightarrow> secured H s' (fst (fst (normalizePublishRequest req0 '''' s)))"
proof -
  have "keeps True H s s' \<and> (poErr po = None \<and> log_ok s \<longrightarrow> secured H s' (fst (fst (normalizePublishRequest req0 '''' s))))"
    using assms(1)
  proof (cases rule: publishInternal_cases)
    case (rejected req code err)
    then show ?thesis using normalize_error(1) [OF rejected(1)] by (simp add: keeps_soft failed_def)
  next
    case (published req code eid s2)
    note k = publish_soft [OF published(2) assms(2)]
    have c2: "connected R H s2" using connected_soft [OF k(1)] assms(2) by simp
    have k2: "keeps True H s2 s'"
      using published(4) c2 replay_keeps [of "incrementWALReplaySyncCall (incrementPublishSuccess s2)" True ctx] by (simp add: keeps_soft)
    have "published (H (world s')) req" by (rule published_mono [OF k(2) keepsD(1) [OF k2]]) simp
    then show ?thesis using keeps_trans [OF keeps_soft [OF k(1)] k2] published(1) by (simp add: secured_def)
  next
    case (abandoned req code err s2)
    then show ?thesis using publish_soft(1) [OF abandoned(2) assms(2)] by (simp add: keeps_soft failed_def)
  next
    case (refused req code err s2 appendErr s3)
    note k = publish_soft(1) [OF refused(2) assms(2)]
    have "keeps True H s2 s3" using append_keeps(1) [OF refused(4)] softD(3) [OF k] assms(2) by (simp add: connected_def)
    then show ?thesis using keeps_trans [OF keeps_soft [OF k]] refused(5,6) by (simp add: failed_def)
  next
    case (queued req code err s2 s3)
    note k = publish_soft(1) [OF queued(2) assms(2)]
    have R2: "redis s2 = R" using softD(3) [OF k] assms(2) by (simp add: connected_def)
    have "log_ok s2 \<longleftrightarrow> log_ok s" using softD [OF k] by (simp add: log_ok_def)
    then show ?thesis
      using append_keeps [OF queued(4) R2] keeps_trans [OF keeps_soft [OF k]] queued(1,5,6) by simp
  qed
  then show "keeps True H s s'"
    "poErr po = None \<Longrightarrow> log_ok s \<Longrightarrow> secured H s' (fst (fst (normalizePublishRequest req0 '''' s)))" by simp_all
qed

end

end
