(* ===== verification/Service_Run.thy ===== *)
theory Service_Run
  imports Delivery
begin

text \<open>
  \<open>Run\<close> of \<open>internal/service/service.go\<close> and \<open>cmd/sidecar\<close>: opening the listeners, the routes of the HTTP server, the life of
  the process, and the service that runs between: requests, background replay and dead-letter scan as the steps of one
  relation.
\<close>

section \<open>Routes\<close>

text \<open>Decoding of bodies, the texts written by the Prometheus handler, formatting of durations and the answers of the
  router for other paths are given from outside.\<close>

record http_env =
  decodePublish :: "string \<Rightarrow> PublishRequest go_result"
  decodeRead :: "string \<Rightarrow> readRequest go_result"
  decodeAck :: "string \<Rightarrow> ackRequest go_result"
  decodeReplay :: "string \<Rightarrow> dlqReplayRequest go_result"
  durationString :: "int \<Rightarrow> string"
  promPage :: "collector \<Rightarrow> response"
  muxOther :: "string \<Rightarrow> http_request \<Rightarrow> response"

definition with_core :: "('w sidecar \<Rightarrow> 'a \<times> 'w sidecar) \<Rightarrow> 'w server \<Rightarrow> 'a \<times> 'w server" where
  "with_core f v = (let (r, s) = f (core v) in (r, v\<lparr>core := s\<rparr>))"

definition serve_http :: "http_env \<Rightarrow> string \<Rightarrow> http_request \<Rightarrow> 'w server \<Rightarrow> response \<times> 'w server" where
  "serve_http e path r v =
     (if path = ''/healthz'' then healthz (durationString e) v
      else if path = ''/readyz'' then readyz v
      else if path = ''/metrics'' then (let v1 = metrics_refresh v in (promPage e (collector (core v1)), v1))
      else if path = ''/v1/publish'' then with_core (publish_handler (decodePublish e) r) v
      else if path = ''/v1/read'' then with_core (readFromStream (decodeRead e) r) v
      else if path = ''/v1/ack'' then with_core (ackEntries (decodeAck e) r) v
      else if path = ''/v1/dlq/replay'' then with_core (replayDLQHTTP (decodeReplay e) r) v
      else if path = ''/v1/config'' then (currentConfig v, v)
      else (muxOther e path r, v))"

section \<open>Listeners\<close>

text \<open>The sockets of the process: open listeners, and the paths removed before listening.  \<open>listen\<close> says what
  \<open>net.Listen\<close> answers; \<open>RunCtxDone\<close> and \<open>RunServeErr\<close> are the two cases of the final select.  The deferred
  closes run on every return after the listener was opened.\<close>

record sockets =
  skOpen :: "(string \<times> string) list"
  skRemoved :: "string list"

datatype run_end = RunCtxDone | RunServeErr go_error

datatype run_result = RunOk | RunConfigError config_error | RunError go_error

definition ErrServerClosed :: go_error where "ErrServerClosed = ErrMsg ''http: Server closed''"

definition remove_socket :: "string \<Rightarrow> string \<Rightarrow> sockets \<Rightarrow> sockets" where
  "remove_socket network address k = (if network = ''unix'' then k\<lparr>skRemoved := skRemoved k @ [address]\<rparr> else k)"

definition open_socket :: "string \<times> string \<Rightarrow> sockets \<Rightarrow> sockets" where
  "open_socket a k = k\<lparr>skOpen := a # skOpen k\<rparr>"

definition close_socket :: "string \<times> string \<Rightarrow> sockets \<Rightarrow> sockets" where
  "close_socket a k = k\<lparr>skOpen := remove1 a (skOpen k)\<rparr>"

text \<open>The result, whether the servers and the background loops were started, and the sockets at the end.\<close>

definition service_Run ::
  "Config \<Rightarrow> (string \<Rightarrow> string \<Rightarrow> go_error option) \<Rightarrow> run_end \<Rightarrow> sockets \<Rightarrow> run_result \<times> bool \<times> sockets" where
  "service_Run c listen fin k =
     (case ParseListenAddress (ListenAddr c) of
        Inl err \<Rightarrow> (RunConfigError err, False, k)
      | Inr (httpNetwork, httpAddress) \<Rightarrow>
          (case ParseListenAddress (GRPCListenAddr c) of
             Inl err \<Rightarrow> (RunConfigError err, False, k)
           | Inr (grpcNetwork, grpcAddress) \<Rightarrow>
               (let k1 = remove_socket grpcNetwork grpcAddress (remove_socket httpNetwork httpAddress k)
                in case listen httpNetwork httpAddress of
                     Some err \<Rightarrow> (RunError err, False, k1)
                   | None \<Rightarrow>
                       (let k2 = open_socket (httpNetwork, httpAddress) k1
                        in case listen grpcNetwork grpcAddress of
                             Some err \<Rightarrow> (RunError err, False, close_socket (httpNetwork, httpAddress) k2)
                           | None \<Rightarrow>
                               (let k3 = open_socket (grpcNetwork, grpcAddress) k2;
                                    closed = close_socket (httpNetwork, httpAddress) (close_socket (grpcNetwork, grpcAddress) k3)
                                in case fin of
                                     RunCtxDone \<Rightarrow> (RunOk, True, closed)
                                   | RunServeErr err \<Rightarrow> (if errors_Is err ErrServerClosed then RunOk else RunError err, True, closed))))))"

lemma service_Run_sockets:
  assumes "service_Run c listen fin k = (r, started, k')"
  shows "skOpen k' = skOpen k"
  using assms
  by (auto simp: service_Run_def open_socket_def close_socket_def remove_socket_def Let_def
      split: sum.splits option.splits run_end.splits if_splits)

section \<open>The process\<close>

text \<open>\<open>main\<close>: the exit status, the server left behind, and whether the deferred \<open>Close\<close> ran.  \<open>os.Exit\<close> ends the process without running
  deferred calls.  \<open>serving\<close> is what the service did between its start and the end of \<open>Run\<close>.\<close>

record 'w process =
  exitStatus :: int
  closedCleanly :: bool
  lastServer :: "'w server option"

definition main ::
  "(string \<Rightarrow> string) \<Rightarrow> string list \<Rightarrow> ('w, 'o, 'r) environment \<Rightarrow> (string \<Rightarrow> string \<Rightarrow> go_error option) \<Rightarrow> run_end \<Rightarrow>
   ('w server \<Rightarrow> 'w server) \<Rightarrow> ('w \<Rightarrow> 'w) \<Rightarrow> ('w \<Rightarrow> 'w) \<Rightarrow> sockets \<Rightarrow> 'w process" where
  "main env args E listen fin serving pipelineClose redisClose k =
     (case Load env of
        Inl err \<Rightarrow> \<lparr>exitStatus = 1, closedCleanly = True, lastServer = None\<rparr>
      | Inr c \<Rightarrow>
          (case service_New c E of
             (Failed err, d) \<Rightarrow> \<lparr>exitStatus = 1, closedCleanly = True, lastServer = None\<rparr>
           | (Panicked, d) \<Rightarrow> \<lparr>exitStatus = 2, closedCleanly = True, lastServer = None\<rparr>
           | (Started v, d) \<Rightarrow>
               if length args > 1 \<and> args ! 1 = ''healthcheck''
               then (case service_CheckReady BackgroundCtx v of
                       (Some err, v1) \<Rightarrow> \<lparr>exitStatus = 1, closedCleanly = False, lastServer = Some v1\<rparr>
                     | (None, v1) \<Rightarrow> \<lparr>exitStatus = 0, closedCleanly = True, lastServer = Some (service_Close pipelineClose redisClose v1)\<rparr>)
               else (case service_Run c listen fin k of
                       (result, started, k1) \<Rightarrow>
                         (let v1 = (if started then serving v else v)
                          in if result = RunOk
                             then \<lparr>exitStatus = 0, closedCleanly = True, lastServer = Some (service_Close pipelineClose redisClose v1)\<rparr>
                             else \<lparr>exitStatus = 1, closedCleanly = False, lastServer = Some v1\<rparr>))))"

text \<open>The process closes the service exactly when it leaves with status zero: a server that fails while running ends the
  process without draining the pipeline or flushing acknowledgements.\<close>

lemma main_closes_iff:
  "main env args E listen fin serving pc rc k = p \<Longrightarrow> lastServer p \<noteq> None \<Longrightarrow> closedCleanly p \<longleftrightarrow> exitStatus p = 0"
  by (auto simp: main_def Let_def split: sum.splits prod.splits outcome.splits option.splits if_splits)

section \<open>The running service\<close>

text \<open>The requests a response accepts, in normalised form: those answered with an identifier or as queued.\<close>

definition normalized :: "PublishRequest \<Rightarrow> 'w sidecar \<Rightarrow> PublishRequest" where
  "normalized req0 s = fst (fst (normalizePublishRequest req0 '''' s))"

lemma normalized_cfg: "cfg s = cfg t \<Longrightarrow> normalized req s = normalized req t"
  by (auto simp: normalized_def normalizePublishRequest_def Let_def split: option.splits)

definition says_queued :: "response \<Rightarrow> bool" where
  "says_queued resp = (case snd resp of None \<Rightarrow> False | Some kvs \<Rightarrow> map_of kvs ''queued'' = Some (JBool True))"

definition accepted_http :: "http_env \<Rightarrow> string \<Rightarrow> http_request \<Rightarrow> response \<Rightarrow> 'w sidecar \<Rightarrow> PublishRequest set" where
  "accepted_http e path r resp s =
     (case decodePublish e (reqBody r) of
        Inr req0 \<Rightarrow> if path = ''/v1/publish'' \<and> (fst resp = StatusOK \<or> says_queued resp) then {normalized req0 s} else {}
      | Inl _ \<Rightarrow> {})"

definition accepted_rpc :: "PublishRequest option \<Rightarrow> PublishResponse grpc_result \<Rightarrow> 'w sidecar \<Rightarrow> PublishRequest set" where
  "accepted_rpc req res s = (case (req, res) of (Some req0, Inr _) \<Rightarrow> {normalized req0 s} | _ \<Rightarrow> {})"

definition accepted_batch :: "PublishBatchRequest option \<Rightarrow> string list grpc_result \<Rightarrow> 'w sidecar \<Rightarrow> PublishRequest set" where
  "accepted_batch req res s =
     (case (req, res) of
        (Some r, Inr _) \<Rightarrow>
          (case normalize_events (TrimSpace (batchStream r)) (batchEvents r) [] s of (Inr reqs, _) \<Rightarrow> set reqs | (Inl _, _) \<Rightarrow> {})
      | _ \<Rightarrow> {})"

text \<open>
  The steps.  A handler runs as one step; \<open>serve_others\<close> stands for all that other goroutines (dispatchers, pipeline) and other
  clients of Redis do in between, \<open>serve_busy\<close> for a replay that holds its lock, \<open>serve_disk\<close> for faults of the file system
  that come and go.  Appending needs a file that can be examined and written in full.  The second component collects the
  accepted requests.
\<close>

type_synonym 'w service = "'w server \<times> PublishRequest set"

inductive serve_step :: "('w \<Rightarrow> XAddArgs set) \<Rightarrow> 'w service \<Rightarrow> 'w service \<Rightarrow> bool" for H where
  serve_request: "serve_http e path r v = (resp, v') \<Longrightarrow> path = ''/v1/publish'' \<longrightarrow> io_ok (core v) \<Longrightarrow>
    serve_step H (v, A) (v', A \<union> accepted_http e path r resp (core v))"
| serve_publish: "with_core (rpc_Publish ctx req) v = (res, v') \<Longrightarrow> io_ok (core v) \<Longrightarrow> serve_step H (v, A) (v', A \<union> accepted_rpc req res (core v))"
| serve_batch: "with_core (rpc_PublishBatch ctx breq) v = (bres, v') \<Longrightarrow> io_ok (core v) \<Longrightarrow>
    serve_step H (v, A) (v', A \<union> accepted_batch breq bres (core v))"
| serve_subscribe: "rpc_Subscribe send inputs sreq v = (sres, v') \<Longrightarrow> serve_step H (v, A) (v', A)"
| serve_ack: "rpc_Ack pick ctx areq v = (ares, v') \<Longrightarrow> serve_step H (v, A) (v', A)"
| serve_info: "with_core (rpc_StreamInfo ctx ireq) v = (ires, v') \<Longrightarrow> serve_step H (v, A) (v', A)"
| serve_health: "rpc_Health ctx v = (hres, v') \<Longrightarrow> serve_step H (v, A) (v', A)"
| serve_dlq: "with_core (rpc_ReplayDLQ ctx dreq) v = (dres, v') \<Longrightarrow> serve_step H (v, A) (v', A)"
| serve_replay: "replay_loop_enabled (core v) \<Longrightarrow> serve_step H (v, A) (v\<lparr>core := replayWAL ctx (core v)\<rparr>, A)"
| serve_scan: "scanAndMoveToDLQ ctx (core v) = Some s' \<Longrightarrow> serve_step H (v, A) (v\<lparr>core := s'\<rparr>, A)"
| serve_others: "soft H (core v) s' \<Longrightarrow> serve_step H (v, A) (\<lparr>core = s', dispatcherManager = m\<rparr>, A)"
| serve_busy: "serve_step H (v, A) (v\<lparr>core := (core v)\<lparr>replayMu := b\<rparr>\<rparr>, A)"
| serve_disk: "files fs' = files (disk (core v)) \<Longrightarrow> serve_step H (v, A) (v\<lparr>core := (core v)\<lparr>disk := fs'\<rparr>\<rparr>, A)"

lemma normalized_on_collector [simp]: "normalized req (on_collector f s) = normalized req s"
  by (auto simp: normalized_def normalizePublishRequest_def Let_def split: option.splits)

lemma with_core_result: "with_core f v = (r, v') \<Longrightarrow> f (core v) = (r, core v')"
  by (auto simp: with_core_def split: prod.splits)

lemma on_core_core [simp]: "core (on_core f v) = f (core v)"
  by (simp add: on_core_def)

text \<open>What holds of the running service, for a request that may have been accepted.\<close>

definition service_inv ::
  "'w redis \<Rightarrow> ('w \<Rightarrow> XAddArgs set) \<Rightarrow> Config \<Rightarrow> wal_codec \<Rightarrow> int \<Rightarrow> int \<Rightarrow> PublishRequest \<Rightarrow> 'w service \<Rightarrow> bool" where
  "service_inv R H c J me mb req = (\<lambda>(v, A).
     connected R H (core v) \<and> log_ok (core v) \<and> cfg (core v) = c \<and> walJSON (core v) = J \<and>
     maxEntries (wal (core v)) = me \<and> maxBytes (wal (core v)) = mb \<and> (req \<in> A \<longrightarrow> secured H (core v) req))"

section \<open>Batches\<close>

lemma normalize_default_publishable:
  assumes "normalizePublishRequest req0 d s = ((req, code, None), s')" "config_valid (cfg s)" "TrimSpace d = d"
  shows "publishable (cfg s) req" "TrimSpace (Stream req) = Stream req"
proof -
  have item: "csv_item (PublishStreams (cfg s) ! 0)" if "length (PublishStreams (cfg s)) = 1"
    using that assms(2) nth_mem [of 0 "PublishStreams (cfg s)"] unfolding config_valid_def by auto
  show "publishable (cfg s) req" "TrimSpace (Stream req) = Stream req"
    using assms(1,3) item
    by (auto simp: normalizePublishRequest_def publishable_def csv_item_def TrimSpace_idem Let_def split: if_splits option.splits)
qed

lemma normalize_events_publishable:
  "normalize_events st evs acc s = (Inr out, s') \<Longrightarrow> config_valid (cfg s) \<Longrightarrow> TrimSpace st = st \<Longrightarrow>
     \<forall>q\<in>set acc. publishable (cfg s) q \<and> TrimSpace (Stream q) = Stream q \<Longrightarrow>
     \<forall>q\<in>set out. publishable (cfg s) q \<and> TrimSpace (Stream q) = Stream q"
proof (induction st evs acc s rule: normalize_events.induct)
  case (2 st event rest acc s)
  from "2.prems" obtain e where e: "event = Some e" by (cases event) simp_all
  obtain q code err s1 where n: "normalizePublishRequest (e\<lparr>Stream := if TrimSpace (Stream e) = '''' then st else TrimSpace (Stream e)\<rparr>) st s = ((q, code, err), s1)"
    by (metis prod_cases3 surj_pair)
  with "2.prems"(1) e have err: "err = None" by (cases err) (simp_all add: Let_def)
  have r: "normalize_events st rest (acc @ [q]) s1 = (Inr out, s')" using "2.prems"(1) e n err by (simp add: Let_def)
  have s1: "s1 = s" using normalize_ok(1) n err by blast
  have "publishable (cfg s) q \<and> TrimSpace (Stream q) = Stream q"
    using normalize_default_publishable [OF n [unfolded err] "2.prems"(2,3)] by simp
  with "2.prems"(4) have "\<forall>q\<in>set (acc @ [q]). publishable (cfg s1) q \<and> TrimSpace (Stream q) = Stream q" unfolding s1 by simp
  moreover have "config_valid (cfg s1)" using "2.prems"(2) s1 by simp
  ultimately show ?case using "2.IH" [OF e refl n [symmetric] refl refl err r _ "2.prems"(3)] unfolding s1 by blast
qed simp

context redis_history
begin

lemma publish_singly_keeps:
  "publish_singly ctx reqs ids s = (res, s') \<Longrightarrow> connected R H s \<Longrightarrow>
     \<forall>q\<in>set reqs. publishable (cfg s) q \<and> TrimSpace (Stream q) = Stream q \<Longrightarrow>
     keeps True H s s' \<and> (\<forall>req\<in>set reqs. \<not> isl res \<and> log_ok s \<and> io_ok s \<and> codec_roundtrip (walJSON s) req \<longrightarrow> secured H s' req)"
proof (induction ctx reqs ids s rule: publish_singly.induct)
  case (1 ctx ids s)
  then show ?case by (simp add: keeps_soft)
next
  case (2 ctx req rest ids s)
  obtain po s1 where p: "publishInternal ctx req s = (po, s1)" by fastforce
  note k = publishInternal_keeps [OF p "2.prems"(2)]
  have id: "fst (fst (normalizePublishRequest req '''' s)) = req" using normalize_id [of s req] "2.prems"(3) by simp
  show ?case
  proof (cases "poErr po")
    case (Some err)
    then show ?thesis using "2.prems"(1) p k(1) by auto
  next
    case None
    then have r: "publish_singly ctx rest (ids @ [if poQueued po then '''' else poEntryID po]) s1 = (res, s')"
      using "2.prems"(1) p by simp
    have c1: "connected R H s1" "cfg s1 = cfg s" using connected_keeps [OF k(1)] keepsD(2) [OF k(1)] "2.prems"(2) by simp_all
    have kr: "keeps True H s1 s'" and rest: "\<forall>q\<in>set rest. \<not> isl res \<and> log_ok s1 \<and> io_ok s1 \<and> codec_roundtrip (walJSON s1) q \<longrightarrow> secured H s' q"
      using "2.IH" [OF p [symmetric] None r c1(1)] "2.prems"(3) c1(2) by auto
    have ok1: "log_ok s1 \<and> io_ok s1" if "log_ok s" "io_ok s"
      using keepsD(8,9) [OF k(1)] that by (simp add: log_kept_def)
    have "secured H s' req" if "log_ok s" "io_ok s" "codec_roundtrip (walJSON s) req"
      using secured_keeps [OF kr] ok1 that k(2) [OF None] id keepsD(7) [OF k(1)] by simp
    then show ?thesis using keeps_trans [OF k(1) kr] rest ok1 keepsD(7) [OF k(1)] by auto
  qed
qed

text \<open>The three ways a batch runs: refused without touching the log, published as a whole, or published one by one.\<close>

lemma batch_run:
  assumes "rpc_PublishBatch ctx breq s = (res, s')" "connected R H s" "config_valid (cfg s)"
  obtains (refused) "isl res" "soft H s s'"
  | (whole) reqs where "accepted_batch breq res s = set reqs" "keeps True H s s'" "\<forall>q\<in>set reqs. published (H (world s')) q"
  | (singly) reqs s3 where "accepted_batch breq res s = (if isl res then {} else set reqs)" "soft H s s3"
      "\<forall>q\<in>set reqs. publishable (cfg s3) q \<and> TrimSpace (Stream q) = Stream q" "publish_singly ctx reqs [] s3 = (res, s')"
proof (cases "\<exists>r reqs s1. breq = Some r \<and> batchEvents r \<noteq> [] \<and> normalize_events (TrimSpace (batchStream r)) (batchEvents r) [] s = (Inr reqs, s1)")
  case False
  then have "s' = incrementError s \<and> isl res"
    using assms(1) by (auto simp: rpc_PublishBatch_def dest: normalize_events_refused split: option.splits if_splits prod.splits sum.splits)
  then show thesis by (intro refused) simp_all
next
  case True
  then obtain r reqs s1 where r: "breq = Some r" "batchEvents r \<noteq> []"
    and n: "normalize_events (TrimSpace (batchStream r)) (batchEvents r) [] s = (Inr reqs, s1)" by blast
  have s1: "s1 = s" using normalize_events_length n by blast
  define s2 where "s2 = (incrementPublishAttempts ^^ length reqs) s"
  have k2: "soft H s s2" by (simp add: s2_def)
  obtain ids err s3 where b: "publishBatchToRedis (publishRedisContext ctx) reqs s2 = ((ids, err), s3)" by (metis prod.collapse)
  have c2: "connected R H s2" using connected_soft [OF k2] assms(2) by simp
  note bs = batch_soft [OF b c2]
  have k3: "soft H s s3" using bs(1) k2 soft_trans by blast
  note res = assms(1) [unfolded rpc_PublishBatch_def r option.case n s1 s2_def [symmetric] Let_def b prod.case sum.case, simplified r(2) length_0_conv if_False]
  have acc: "accepted_batch breq res s = (if isl res then {} else set reqs)" using n by (auto simp: accepted_batch_def r split: sum.splits)
  show thesis
  proof (cases err)
    case None
    define s4 where "s4 = (incrementPublishSuccess ^^ length reqs) s3"
    have k4: "soft H s s4" "world s4 = world s3" using k3 by (simp_all add: s4_def)
    have c4: "connected R H (incrementWALReplaySyncCall s4)" using connected_soft [OF k4(1)] assms(2) by simp
    have s': "s' = s4 \<or> s' = replayWAL ctx (incrementWALReplaySyncCall s4)" "\<not> isl res" using res None by (auto simp: s4_def split: if_splits)
    then have k: "keeps True H s4 s'" using replay_keeps [OF c4] by (auto simp: keeps_soft)
    have "\<forall>q\<in>set reqs. published (H (world s')) q" using bs(2) [OF None] keepsD(1) [OF k] published_mono k4(2) by metis
    then show thesis using whole [OF _ keeps_trans [OF keeps_soft [OF k4(1)] k]] acc s'(2) by simp
  next
    case (Some e)
    have "isl res \<and> s' = incrementError s3 \<or> publish_singly ctx reqs [] s3 = (res, s')" using res Some by (auto split: if_splits)
    moreover have "\<forall>q\<in>set reqs. publishable (cfg s3) q \<and> TrimSpace (Stream q) = Stream q"
      using normalize_events_publishable [OF n assms(3) TrimSpace_idem] softD(2) [OF k3] by simp
    ultimately show thesis using refused singly [OF acc k3] k3 by auto
  qed
qed

lemma batch_keeps:
  assumes "rpc_PublishBatch ctx breq s = (res, s')" "connected R H s" "config_valid (cfg s)"
  shows "keeps True H s s' \<and>
    (\<forall>req\<in>accepted_batch breq res s. log_ok s \<and> io_ok s \<and> codec_roundtrip (walJSON s) req \<longrightarrow> secured H s' req)"
  using assms
proof (cases rule: batch_run)
  case refused
  then show ?thesis by (auto simp: keeps_soft accepted_batch_def split: option.splits sum.splits)
next
  case (whole reqs)
  then show ?thesis by (auto simp: secured_def)
next
  case (singly reqs s3)
  have "connected R H s3" using connected_soft [OF singly(2)] assms(2) by simp
  from publish_singly_keeps [OF singly(4) this singly(3)] show ?thesis
    using keeps_trans [OF keeps_soft [OF singly(2)]] singly(1) softD [OF singly(2)] by (auto simp: log_ok_def io_ok_def)
qed

section \<open>Every handler respects the log\<close>

lemma read_handler_soft: "readFromStream decode r s = (resp, s') \<Longrightarrow> redis s = R \<Longrightarrow> soft H s s'"
  using consume_soft [of RequestCtx _ "incrementReadRequest s"]
  by (fastforce simp: readFromStream_def Let_def split: if_splits sum.splits prod.splits option.splits)

lemma ack_handler_soft: "ackEntries decode r s = (resp, s') \<Longrightarrow> redis s = R \<Longrightarrow> soft H s s'"
  using ack_soft [of RequestCtx _ "incrementAckRequest s"]
  by (fastforce simp: ackEntries_def Let_def split: if_splits sum.splits prod.splits option.splits)

lemma dlq_handler_soft: "replayDLQHTTP decode r s = (resp, s') \<Longrightarrow> redis s = R \<Longrightarrow> soft H s s'"
  using replayDLQ_soft [of RequestCtx _ s]
  by (fastforce simp: replayDLQHTTP_def split: if_splits sum.splits prod.splits option.splits)

lemma rpc_dlq_soft: "rpc_ReplayDLQ ctx req s = (res, s') \<Longrightarrow> redis s = R \<Longrightarrow> soft H s s'"
  using replayDLQ_soft [of ctx _ s] by (fastforce simp: rpc_ReplayDLQ_def split: prod.splits option.splits)

lemma since_soft: "time_since t s = (d, s') \<Longrightarrow> redis s = R \<Longrightarrow> soft H s s'"
  using Clock_grows by (fastforce simp: time_since_def time_now_def Let_def intro: soft_world split: prod.splits)

lemma healthz_soft: "healthz f v = (resp, v') \<Longrightarrow> redis (core v) = R \<Longrightarrow> soft H (core v) (core v')"
  using since_soft [of "startedAt (core v)" "core v"] by (fastforce simp: healthz_def Let_def split: prod.splits)

lemma readyz_soft:
  assumes "readyz v = (resp, v')" "redis (core v) = R"
  shows "soft H (core v) (core v')"
proof -
  obtain err w where p: "Ping R (WithTimeout BackgroundCtx (Milliseconds (ReadinessTimeout (cfg (core v))))) (world (core v)) = (err, w)"
    by fastforce
  then have "core v' = (core v)\<lparr>world := w\<rparr>"
    using assms by (auto simp: readyz_def readinessSnapshot_def health_CheckReady_def Let_def split: option.splits)
  then show ?thesis using Ping_grows [OF p] by (auto intro: soft_world)
qed

lemma metrics_soft:
  assumes "redis (core v) = R"
  shows "soft H (core v) (core (metrics_refresh v))"
proof -
  let ?s = "on_collector (SetWALDepth (wal_Depth (wal (core v)))) (core v)"
  obtain t s2 where t: "time_since (startedAt ?s) ?s = (t, s2)" by fastforce
  have "soft H (core v) s2" using since_soft [OF t] assms by simp
  then show ?thesis using t by (simp add: metrics_refresh_def Let_def)
qed

lemma rpc_health_soft: "rpc_Health ctx v = (res, v') \<Longrightarrow> redis (core v) = R \<Longrightarrow> soft H (core v) (core v')"
  using Ping_grows
  by (fastforce simp: rpc_Health_def service_CheckReady_def Let_def intro: soft_world split: prod.splits option.splits)

lemma queueAck_soft: "queueAck pick ids d s = (r, d', s') \<Longrightarrow> soft H s s'"
  by (auto simp: queueAck_def Let_def split: if_splits)

lemma manager_QueueAck_soft: "manager_QueueAck pick req m s = (r, m', s') \<Longrightarrow> soft H s s'"
  by (fastforce simp: manager_QueueAck_def Let_def dest: queueAck_soft split: if_splits option.splits prod.splits)

lemma rpc_ack_soft:
  assumes "rpc_Ack pick ctx req v = (res, v')" "redis (core v) = R"
  shows "soft H (core v) (core v')"
proof (cases req)
  case None
  then show ?thesis using assms(1) by (auto simp: rpc_Ack_def Let_def)
next
  case (Some r)
  define s where "s = incrementAckRPCRequest (incrementAckRequest (core v))"
  have s: "soft H (core v) s" "redis s = R" using assms(2) by (simp_all add: s_def)
  have direct: "soft H (core v) t'" if "ackEntriesInternal ctx r t = (x, t')" "soft H (core v) t" for t t' x
    using ack_soft [OF that(1)] softD(3) [OF that(2)] assms(2) soft_trans [OF that(2)] by simp
  show ?thesis
  proof (cases "\<exists>m. dispatcherManager v = Some m \<and> ConsumeMode (cfg s) = ConsumeModeDispatcher")
    case False
    obtain x t where a: "ackEntriesInternal ctx r s = (x, t)" by fastforce
    have "core v' = t"
      using assms(1) False a by (auto simp: rpc_Ack_def Some s_def on_core_def Let_def split: option.splits prod.splits)
    then show ?thesis using direct [OF a s(1)] by simp
  next
    case True
    then obtain m where m: "dispatcherManager v = Some m" "ConsumeMode (cfg s) = ConsumeModeDispatcher" by blast
    obtain q m1 s1 where q: "manager_QueueAck pick r m s = (q, m1, s1)" by (metis prod_cases3)
    have k1: "soft H (core v) s1" using manager_QueueAck_soft [OF q] s(1) soft_trans by blast
    obtain x t where a: "ackEntriesInternal ctx r s1 = (x, t)" by fastforce
    have "core v' \<in> {s1, incrementError s1, t}"
      using assms(1) m q a
      by (auto simp: rpc_Ack_def Some s_def [symmetric] on_core_def Let_def split: option.splits prod.splits sum.splits if_splits)
    then show ?thesis using k1 direct [OF a k1] by auto
  qed
qed

lemma rpc_subscribe_soft:
  assumes "rpc_Subscribe send inputs req v = (res, v')" "redis (core v) = R"
  shows "soft H (core v) (core v')"
proof (cases req)
  case None
  then show ?thesis using assms(1) by (auto simp: rpc_Subscribe_def Let_def)
next
  case (Some r)
  define u where "u = on_core incrementReadRequest v"
  have u: "soft H (core v) (core u)" "redis (core u) = R" using assms(2) by (simp_all add: u_def)
  show ?thesis
  proof (cases "ConsumeMode (cfg (core u)) = ConsumeModeDispatcher")
    case True
    obtain x u1 where d: "subscribe_dispatcher r u = (x, u1)" by fastforce
    have "core u1 = core u \<or> core u1 = incrementError (core u)"
      using d by (auto simp: subscribe_dispatcher_def split: option.splits sum.splits prod.splits)
    moreover have "core v' = core u1"
      using assms(1) True d by (auto simp: rpc_Subscribe_def Some u_def [symmetric] Let_def split: sum.splits option.splits prod.splits)
    ultimately show ?thesis using u(1) by auto
  next
    case False
    obtain x s1 where c: "subscribe_stateless send r (core u) = (x, s1)" by fastforce
    have "soft H (core u) s1"
      using c consume_soft [OF _ u(2)] by (fastforce simp: subscribe_stateless_def Let_def split: prod.splits option.splits)
    moreover have "core v' = s1"
      using assms(1) False c by (auto simp: rpc_Subscribe_def Some u_def [symmetric] Let_def split: prod.splits)
    ultimately show ?thesis using u(1) soft_trans by blast
  qed
qed

lemma publish_handler_keeps:
  assumes "publish_handler decode r s = (resp, s')" "connected R H s"
  shows "keeps True H s s'"
    "decode (reqBody r) = Inr req0 \<Longrightarrow> fst resp = StatusOK \<or> says_queued resp \<Longrightarrow> log_ok s \<Longrightarrow> secured H s' (normalized req0 s)"
proof -
  define t where "t = incrementPublishAttempts s"
  have c: "connected R H t" using assms(2) by (simp add: t_def)
  have "keeps True H s s' \<and> (\<forall>req0. decode (reqBody r) = Inr req0 \<and> (fst resp = StatusOK \<or> says_queued resp) \<and> log_ok s \<longrightarrow>
    secured H s' (normalized req0 s))"
  proof (cases "reqMethod r = ''POST'' \<and> \<not> isl (decode (reqBody r))")
    case False
    then have "(s' = t \<or> s' = incrementError t) \<and> fst resp \<noteq> StatusOK \<and> (says_queued resp \<longrightarrow> isl (decode (reqBody r)))"
      using assms(1) by (auto simp: publish_handler_def Let_def t_def [symmetric] writeJSON_def says_queued_def split: sum.splits if_splits)
    then show ?thesis by (auto simp: t_def keeps_soft)
  next
    case True
    then obtain req0 where d: "reqMethod r = ''POST''" "decode (reqBody r) = Inr req0" by (cases "decode (reqBody r)") auto
    obtain po s1 where p: "publishInternal RequestCtx req0 t = (po, s1)" by fastforce
    note k = publishInternal_keeps [OF p c]
    have "s' = s1" using assms(1) d p by (auto simp: publish_handler_def Let_def t_def [symmetric] split: option.splits if_splits)
    moreover have "poErr po = None" if "fst resp = StatusOK \<or> says_queued resp"
      using assms(1) d p that publish_status(1) [OF p]
      by (cases "poErr po") (auto simp: publish_handler_def Let_def t_def [symmetric] writeJSON_def says_queued_def)
    moreover have "log_ok t \<longleftrightarrow> log_ok s" by (simp add: t_def log_ok_def)
    moreover have "fst (fst (normalizePublishRequest req0 '''' t)) = normalized req0 s"
      using normalized_on_collector [of req0 IncPublishAttempts s] by (simp add: normalized_def t_def)
    ultimately show ?thesis using k d by (auto simp: t_def)
  qed
  then show "keeps True H s s'"
    "decode (reqBody r) = Inr req0 \<Longrightarrow> fst resp = StatusOK \<or> says_queued resp \<Longrightarrow> log_ok s \<Longrightarrow> secured H s' (normalized req0 s)"
    by blast+
qed

lemma rpc_publish_keeps:
  assumes "rpc_Publish ctx req s = (res, s')" "connected R H s"
  shows "keeps True H s s'" "q \<in> accepted_rpc req res s \<Longrightarrow> log_ok s \<Longrightarrow> secured H s' q"
proof -
  define t where "t = incrementPublishAttempts s"
  have c: "connected R H t" using assms(2) by (simp add: t_def)
  have "keeps True H s s' \<and> (\<forall>q\<in>accepted_rpc req res s. log_ok s \<longrightarrow> secured H s' q)"
  proof (cases req)
    case None
    then show ?thesis using assms(1) by (auto simp: rpc_Publish_def accepted_rpc_def keeps_soft)
  next
    case (Some req0)
    obtain po s1 where p: "publishInternal ctx req0 t = (po, s1)" by fastforce
    note k = publishInternal_keeps [OF p c]
    have "s' = s1 \<and> (isl res \<longleftrightarrow> poErr po \<noteq> None)"
      using assms(1) p Some by (auto simp: rpc_Publish_def Let_def t_def [symmetric] split: option.splits if_splits)
    moreover have "log_ok t \<longleftrightarrow> log_ok s" by (simp add: t_def log_ok_def)
    moreover have "fst (fst (normalizePublishRequest req0 '''' t)) = normalized req0 s"
      using normalized_on_collector [of req0 IncPublishAttempts s] by (simp add: normalized_def t_def)
    ultimately show ?thesis using k Some by (auto simp: t_def accepted_rpc_def split: sum.splits)
  qed
  then show "keeps True H s s'" "q \<in> accepted_rpc req res s \<Longrightarrow> log_ok s \<Longrightarrow> secured H s' q" by blast+
qed

lemma http_keeps:
  assumes "serve_http e path r v = (resp, v')" "connected R H (core v)"
  shows "keeps (path = ''/v1/publish'') H (core v) (core v')"
    "q \<in> accepted_http e path r resp (core v) \<Longrightarrow> log_ok (core v) \<Longrightarrow> secured H (core v') q"
proof -
  have R: "redis (core v) = R" using assms(2) by (simp add: connected_def)
  show "keeps (path = ''/v1/publish'') H (core v) (core v')"
  proof (cases "path = ''/v1/publish''")
    case True
    then have "publish_handler (decodePublish e) r (core v) = (resp, core v')"
      using assms(1) with_core_result by (simp add: serve_http_def)
    from publish_handler_keeps(1) [OF this assms(2)] True show ?thesis by simp
  next
    case False
    have "soft H (core v) (core v')"
      using assms(1) False R
      by (auto simp: serve_http_def Let_def dest!: with_core_result split: if_splits
          intro: read_handler_soft ack_handler_soft dlq_handler_soft healthz_soft readyz_soft metrics_soft)
    then show ?thesis by (rule keeps_soft)
  qed
  assume q: "q \<in> accepted_http e path r resp (core v)" "log_ok (core v)"
  then obtain req0 where d: "decodePublish e (reqBody r) = Inr req0" "path = ''/v1/publish''" "fst resp = StatusOK \<or> says_queued resp"
      "q = normalized req0 (core v)"
    by (auto simp: accepted_http_def split: sum.splits if_splits)
  then have "publish_handler (decodePublish e) r (core v) = (resp, core v')"
    using assms(1) with_core_result by (simp add: serve_http_def)
  from publish_handler_keeps(2) [OF this assms(2) d(1,3) q(2)] d(4) show "secured H (core v') q" by simp
qed

section \<open>Invariant of the running service\<close>

lemma keeps_inv:
  assumes "service_inv R H c J me mb req (v, A)" "keeps io H (core v) (core v')" "io \<longrightarrow> io_ok (core v)" "codec_roundtrip J req"
    and "req \<in> B \<Longrightarrow> secured H (core v') req"
  shows "service_inv R H c J me mb req (v', A \<union> B)"
proof -
  have s: "connected R H (core v)" "log_ok (core v)" "cfg (core v) = c" "walJSON (core v) = J" "maxEntries (wal (core v)) = me"
    "maxBytes (wal (core v)) = mb" "req \<in> A \<Longrightarrow> secured H (core v) req"
    using assms(1) by (simp_all add: service_inv_def)
  have kept: "log_kept H (core v) (core v')" by (rule keepsD(9) [OF assms(2) s(2) assms(3)])
  have "secured H (core v') req" if "req \<in> A"
    by (rule secured_keeps [OF assms(2) s(2) assms(3)]) (use assms(4) s(4) s(7) [OF that] in simp_all)
  with assms(5) have sec: "req \<in> A \<union> B \<longrightarrow> secured H (core v') req" by blast
  show ?thesis
    using s kept sec keepsD(2,7) [OF assms(2)] connected_keeps [OF assms(2)] by (simp add: service_inv_def log_kept_def)
qed

lemma soft_inv:
  assumes "service_inv R H c J me mb req (v, A)" "soft H (core v) (core v')" "codec_roundtrip J req"
  shows "service_inv R H c J me mb req (v', A)"
  using keeps_inv [OF assms(1) keeps_soft [OF assms(2), of False], of "{}"] assms(3) by simp

lemma serve_step_inv:
  assumes "serve_step H (v, A) (v', A')" "service_inv R H c J me mb req (v, A)" "config_valid c" "codec_roundtrip J req"
  shows "service_inv R H c J me mb req (v', A')"
proof -
  have c: "connected R H (core v)" and R: "redis (core v) = R" and ok: "log_ok (core v)" and cfg: "config_valid (cfg (core v))"
    and J: "walJSON (core v) = J"
    using assms(2,3) by (simp_all add: service_inv_def connected_def)
  note soft = soft_inv [OF assms(2) _ assms(4)] and keep = keeps_inv [OF assms(2) _ _ assms(4)]
  from assms(1) show ?thesis
  proof cases
    case (serve_request e path r resp)
    show ?thesis unfolding serve_request
      by (rule keep [OF http_keeps(1) [OF serve_request(2) c]]) (use serve_request(3) http_keeps(2) [OF serve_request(2) c _ ok] in auto)
  next
    case (serve_publish ctx rq res)
    note p = with_core_result [OF serve_publish(2)]
    show ?thesis unfolding serve_publish
      by (rule keep [OF rpc_publish_keeps(1) [OF p c]]) (use serve_publish(3) rpc_publish_keeps(2) [OF p c _ ok] in auto)
  next
    case (serve_batch ctx breq bres)
    note p = batch_keeps [OF with_core_result [OF serve_batch(2)] c cfg]
    show ?thesis unfolding serve_batch
      by (rule keep [OF conjunct1 [OF p]]) (use serve_batch(3) p ok assms(4) J in auto)
  next
    case (serve_subscribe send inputs sreq sres)
    then show ?thesis using soft [OF rpc_subscribe_soft [OF _ R]] by blast
  next
    case (serve_ack pick ctx areq ares)
    then show ?thesis using soft [OF rpc_ack_soft [OF _ R]] by blast
  next
    case (serve_info ctx ireq ires)
    from soft [OF info_soft [OF with_core_result [OF serve_info(2)] R]] show ?thesis unfolding serve_info .
  next
    case (serve_health ctx hres)
    then show ?thesis using soft [OF rpc_health_soft [OF _ R]] by blast
  next
    case (serve_dlq ctx dreq dres)
    from soft [OF rpc_dlq_soft [OF with_core_result [OF serve_dlq(2)] R]] show ?thesis unfolding serve_dlq .
  next
    case (serve_replay ctx)
    have "keeps False H (core v) (core v')" using replay_keeps [OF c] serve_replay by simp
    from keep [OF this, of "{}"] show ?thesis using serve_replay by simp
  next
    case (serve_scan ctx s')
    then show ?thesis using soft [of "v\<lparr>core := s'\<rparr>"] scan_soft [OF _ R] by simp
  next
    case (serve_others s' m)
    then show ?thesis using soft [of "\<lparr>core = s', dispatcherManager = m\<rparr>"] by simp
  next
    case (serve_busy b)
    then show ?thesis using assms(2) by (auto simp: service_inv_def connected_def log_ok_def secured_def)
  next
    case (serve_disk fs')
    then have "content p fs' = content p (disk (core v))" for p by (simp add: content_def)
    then show ?thesis
      using serve_disk assms(2)
      by (auto simp: service_inv_def connected_def log_ok_def secured_def wal_inv_def wal_lines_def wal_within_limits_def)
  qed
qed

end

interpretation service_machine: transition_system
  "\<lambda>x. snd x = {} \<and> service_inv R H c J me mb req x" "serve_step H"
  "\<lambda>x. redis_history R H \<and> config_valid c \<and> codec_roundtrip J req \<longrightarrow> service_inv R H c J me mb req x"
  for R :: "'w redis" and H c J me mb req
  by unfold_locales (auto intro: redis_history.serve_step_inv)

section \<open>Histories\<close>

text \<open>Every Redis has a history: instrumented to record the commands it acknowledges, and otherwise unchanged, it satisfies the
  interface.\<close>

definition record_with :: "('w \<Rightarrow> 'r \<times> 'w) \<Rightarrow> ('r \<Rightarrow> XAddArgs set) \<Rightarrow> 'w \<times> XAddArgs set \<Rightarrow> 'r \<times> 'w \<times> XAddArgs set" where
  "record_with f added x = (let (r, w) = f (fst x) in (r, w, snd x \<union> added r))"

definition acknowledged :: "(XAddArgs \<times> string go_result) list \<Rightarrow> XAddArgs set" where
  "acknowledged rs = fst ` set (filter (\<lambda>(a, r). \<not> isl r) rs)"

definition recording :: "'w redis \<Rightarrow> ('w \<times> XAddArgs set) redis" where
  "recording R =
     \<lparr>Ping = (\<lambda>c. record_with (Ping R c) (\<lambda>_. {})),
      XAdd = (\<lambda>c a. record_with (XAdd R c a) (\<lambda>r. acknowledged [(a, r)])),
      XAck = (\<lambda>c st g ids. record_with (XAck R c st g ids) (\<lambda>_. {})),
      XDel = (\<lambda>c st i. record_with (XDel R c st i) (\<lambda>_. {})),
      XRange = (\<lambda>c st a b. record_with (XRange R c st a b) (\<lambda>_. {})),
      XRangeN = (\<lambda>c st a b n. record_with (XRangeN R c st a b n) (\<lambda>_. {})),
      XReadGroup = (\<lambda>c a. record_with (XReadGroup R c a) (\<lambda>_. {})),
      XGroupCreateMkStream = (\<lambda>c st g b. record_with (XGroupCreateMkStream R c st g b) (\<lambda>_. {})),
      XInfoGroups = (\<lambda>c st. record_with (XInfoGroups R c st) (\<lambda>_. {})),
      XInfoStreamCmd = (\<lambda>c st. record_with (XInfoStreamCmd R c st) (\<lambda>_. {})),
      XPendingExtCmd = (\<lambda>c a. record_with (XPendingExtCmd R c a) (\<lambda>_. {})),
      ExecXAdds = (\<lambda>c as. record_with (ExecXAdds R c as) (\<lambda>(e, rs). acknowledged (zip as rs))),
      ExecXAcks = (\<lambda>c as. record_with (ExecXAcks R c as) (\<lambda>_. {})),
      Now = record_with (Now R) (\<lambda>_. {}), Clock = record_with (Clock R) (\<lambda>_. {}),
      CtxErr = (\<lambda>c x. CtxErr R c (fst x))\<rparr>"

interpretation recorded: redis_history "recording R" snd for R :: "'w redis"
  by unfold_locales (auto simp: recording_def record_with_def acknowledged_def split: prod.splits)

text \<open>The memory instance keeps its own record.\<close>

definition mem_history :: "mem_world \<Rightarrow> XAddArgs set" where
  "mem_history w = set (memAdded w)"

interpretation mem: redis_history mem_redis mem_history
  by unfold_locales (auto simp: mem_history_def mem_defs Let_def split: if_splits)

end
