(* ===== verification/Pipeline_Delivery.thy ===== *)
theory Pipeline_Delivery
  imports Service_Run
begin

text \<open>
  The publish pipeline as a provider of what the service relies on: an identifier that a caller gets from the pipeline means that Redis
  has accepted the caller's own request.  Shown for the pipeline's goroutine under every interleaving, and for the client that
  runs a call alone, which discharges the contract \<open>pipeline_records\<close> of the running service.
\<close>

section \<open>Waiting for a batch\<close>

text \<open>The waiting loop of \<open>PublishMany\<close>: for each job in turn one \<open>select\<close>, in the state the pipeline has by then.\<close>

inductive many_end :: "'w redis \<Rightarrow> ctx \<Rightarrow> nat list \<Rightarrow> 'w pipe list \<Rightarrow> string go_result list go_result \<Rightarrow> bool" for R ctx where
  many_end_nil: "many_end R ctx [] [] (Inr [])"
| many_end_result: "pResults s i = Some r \<Longrightarrow> many_end R ctx is ss (Inr rs) \<Longrightarrow> many_end R ctx (i # is) (s # ss) (Inr (r # rs))"
| many_end_later: "pResults s i = Some r \<Longrightarrow> many_end R ctx is ss (Inl e) \<Longrightarrow> many_end R ctx (i # is) (s # ss) (Inl e)"
| many_end_ctx: "CtxErr R ctx (pWorld s) = Some e \<Longrightarrow> many_end R ctx (i # is) (s # ss) (Inl e)"
| many_end_stopped: "pDone s \<Longrightarrow> pResults s i = None \<Longrightarrow> many_end R ctx (i # is) (s # ss) (Inl ErrPublishPipelineStopped)"

lemma many_end_results: "many_end R ctx is ss (Inr rs) \<Longrightarrow> list_all2 (\<lambda>(i, s) r. pResults s i = Some r) (zip is ss) rs \<and> length ss = length is"
  by (induction "is" ss "Inr rs :: string go_result list go_result" arbitrary: rs rule: many_end.induct) auto

section \<open>Pipelined commands in the history\<close>

text \<open>Every identifier stored for a job was answered to that job's own request.\<close>

definition results_own :: "('w \<Rightarrow> XAddArgs set) \<Rightarrow> 'w pipe \<Rightarrow> bool" where
  "results_own H s \<longleftrightarrow>
     (\<forall>i eid. pResults s i = Some (Inr eid) \<longrightarrow> (\<exists>job\<in>set (pFlushed s). jobID job = i \<and> published (H (pWorld s)) (jobReq job)))"

text \<open>A step during which Redis forgets none of the commands it acknowledged.\<close>

definition hist_step :: "'w redis \<Rightarrow> publishPipelineConfig \<Rightarrow> ('w \<Rightarrow> XAddArgs set) \<Rightarrow> 'w pipe \<Rightarrow> 'w pipe \<Rightarrow> bool" where
  "hist_step R cf H s t \<longleftrightarrow> pipe_step R cf s t \<and> H (pWorld s) \<subseteq> H (pWorld t)"

text \<open>\<open>Exec\<close> answers each command on its own; an identifier means that this command was accepted.\<close>

locale redis_exec = redis_history +
  assumes Exec_grows: "ExecXAdds R ctx as w = (x, w') \<Longrightarrow> H w \<subseteq> H w'"
    and Exec_recorded: "ExecXAdds R ctx as w = ((e, rs), w') \<Longrightarrow> i < length as \<Longrightarrow> i < length rs \<Longrightarrow> rs ! i = Inr eid \<Longrightarrow> as ! i \<in> H w'"
begin

lemma build_batch_requests:
  "build_batch R n jobs w = (res, live, w') \<Longrightarrow> H w \<subseteq> H w' \<and> (\<forall>x\<in>set res. isl (snd x)) \<and>
     (\<forall>(j, a)\<in>set live. j \<in> set jobs \<and> (\<exists>now. a = BuildXAddArgs now (jobReq j) n))"
proof (induction jobs arbitrary: w res live w')
  case (Cons job jobs)
  show ?case
  proof (cases "CtxErr R (jobCtx job) w")
    case None
    obtain now w1 where n: "Now R w = (now, w1)" by fastforce
    obtain res1 live1 w2 where b: "build_batch R n jobs w1 = (res1, live1, w2)" by (metis prod_cases3)
    have "res = res1" "live = (job, BuildXAddArgs now (jobReq job) n) # live1" "w' = w2" using Cons.prems None n b by simp_all
    then show ?thesis using Cons.IH [OF b] Now_grows [OF n] by auto
  next
    case (Some e)
    obtain res1 live1 w2 where b: "build_batch R n jobs w = (res1, live1, w2)" by (metis prod_cases3)
    have "res = (jobID job, Inl e) # res1" "live = live1" "w' = w2" using Cons.prems Some b by simp_all
    then show ?thesis using Cons.IH [OF b] by auto
  qed
qed simp

lemma flushBatch_records:
  assumes "exec_complete R" "flushBatch R n batch (w, c) = (res, w', c')"
  shows "H w \<subseteq> H w'" "(i, Inr eid) \<in> set res \<Longrightarrow> \<exists>j\<in>set batch. jobID j = i \<and> published (H w') (jobReq j)"
proof -
  have "H w \<subseteq> H w' \<and> (\<forall>i eid. (i, Inr eid) \<in> set res \<longrightarrow> (\<exists>j\<in>set batch. jobID j = i \<and> published (H w') (jobReq j)))"
  proof (cases "batch = []")
    case True
    then show ?thesis using assms(2) by (auto simp: flushBatch_def)
  next
    case False
    obtain expired live w1 where b: "build_batch R n batch w = (expired, live, w1)" by (metis prod_cases3)
    note B = build_batch_requests [OF b]
    have no_id: "(i, Inr eid) \<notin> set expired" for i eid using B by force
    obtain e cmds w2 where x: "ExecXAdds R flushCtx (map snd live) w1 = ((e, cmds), w2)" by (metis prod_cases3 surj_pair)
    have len: "length (map fst live) = length cmds" using assms(1) x unfolding exec_complete_def by fastforce
    have H2: "H w \<subseteq> H w2" using B Exec_grows [OF x] by blast
    have own: "\<exists>j\<in>set batch. jobID j = i \<and> published (H w2) (jobReq j)" if i: "(i, Inr eid) \<in> set (zip (map jobID (map fst live)) cmds)" for i eid
    proof -
      from i obtain k where k: "k < length live" "k < length cmds" "i = jobID (fst (live ! k))" "cmds ! k = Inr eid" by (auto simp: set_zip)
      have "snd (live ! k) \<in> H w2" using Exec_recorded [OF x _ k(2,4)] k(1) by simp
      moreover have "live ! k \<in> set live" using k(1) by simp
      then have "fst (live ! k) \<in> set batch \<and> (\<exists>now. snd (live ! k) = BuildXAddArgs now (jobReq (fst (live ! k))) n)"
        using B by (auto simp: split_beta)
      ultimately show ?thesis using k(3) unfolding published_def by metis
    qed
    have "w' = (if live = [] then w1 else w2) \<and>
        (\<forall>i eid. (i, Inr eid) \<in> set res \<longrightarrow> live \<noteq> [] \<and> (i, Inr eid) \<in> set (zip (map jobID (map fst live)) cmds))"
      using assms(2) False b x no_id deliver_results [OF len]
      by (auto simp: flushBatch_def Let_def split_def split: if_splits option.splits)
    then have "H w \<subseteq> H w'" "\<And>i eid. (i, Inr eid) \<in> set res \<Longrightarrow> w' = w2 \<and> (i, Inr eid) \<in> set (zip (map jobID (map fst live)) cmds)"
      using B H2 by auto
    then show ?thesis using own by blast
  qed
  then show "H w \<subseteq> H w'" "(i, Inr eid) \<in> set res \<Longrightarrow> \<exists>j\<in>set batch. jobID j = i \<and> published (H w') (jobReq j)" by blast+
qed

lemma flush_grows: "exec_complete R \<Longrightarrow> H (pWorld s) \<subseteq> H (pWorld (flush R cf s))"
  by (auto simp: flush_def split: prod.split dest: flushBatch_records(1))

lemma run_step_grows: "exec_complete R \<Longrightarrow> run_step R cf s t \<Longrightarrow> H (pWorld s) \<subseteq> H (pWorld t)"
  using flush_grows [of s cf] by (auto elim!: run_stepE simp: take_job_def)

lemma flush_results_own:
  assumes "exec_complete R" "results_own H s"
  shows "results_own H (flush R cf s)"
proof -
  obtain res w c where f: "flushBatch R (pcMaxStreamLen cf) (pBuffer s) (pWorld s, pCollector s) = (res, w, c)" by (metis prod_cases3)
  note F = flushBatch_records [OF assms(1) f]
  have "\<exists>j\<in>set (pFlushed s) \<union> set (pBuffer s). jobID j = i \<and> published (H w) (jobReq j)"
    if "(pResults s ++ map_of res) i = Some (Inr eid)" for i eid
    using that
  proof (cases "map_of res i")
    case None
    with that show ?thesis using assms(2) published_mono [OF _ F(1)] by (force simp: results_own_def map_add_def)
  next
    case (Some r)
    with that have "(i, Inr eid) \<in> set res" by (auto dest: map_of_SomeD)
    with F(2) show ?thesis by blast
  qed
  moreover have "flush R cf s = (if pBuffer s = [] then s else s\<lparr>pBuffer := [], pBufferBytes := 0, pFlushed := pFlushed s @ pBuffer s,
                  pResults := pResults s ++ map_of res, pWorld := w, pCollector := c\<rparr>)" using f by (simp add: flush_def)
  ultimately show ?thesis using assms(2) by (cases "pBuffer s = []") (simp_all add: results_own_def del: map_add_Some_iff)
qed

lemma run_step_own:
  assumes "exec_complete R" "run_step R cf s t" "results_own H s"
  shows "results_own H t"
  using assms(2) flush_results_own [OF assms(1,3), of cf] assms(3) by cases (auto simp: results_own_def take_job_def)

lemma hist_step_own:
  assumes "exec_complete R" "hist_step R cf H s t" "results_own H s"
  shows "results_own H t"
proof -
  from assms(2) have "pipe_step R cf s t" and grows: "H (pWorld s) \<subseteq> H (pWorld t)" by (simp_all add: hist_step_def)
  then show ?thesis
  proof cases
    case goroutine
    then show ?thesis using run_step_own assms by blast
  next
    case (caller ctx req r)
    then show ?thesis using assms(3) by cases (auto simp: results_own_def enqueue_def)
  next
    case close
    then show ?thesis using assms(3) by (simp add: results_own_def pipeline_Close_def)
  next
    case (others w)
    then show ?thesis using assms(3) grows published_mono [OF _ grows] by (fastforce simp: results_own_def)
  qed
qed

end

lemma record_with_exec:
  assumes "record_with f (\<lambda>(e, rs). acknowledged (zip as rs)) x = ((e, rs), y)"
  shows "snd x \<subseteq> snd y" "i < length as \<Longrightarrow> i < length rs \<Longrightarrow> rs ! i = Inr eid \<Longrightarrow> as ! i \<in> snd y"
proof -
  have y: "snd y = snd x \<union> acknowledged (zip as rs)" using assms by (auto simp: record_with_def split: prod.splits)
  then show "snd x \<subseteq> snd y" by blast
  assume i: "i < length as" "i < length rs" "rs ! i = Inr eid"
  then have "(as ! i, Inr eid) \<in> set (zip as rs)" by (auto simp: set_zip)
  then show "as ! i \<in> snd y" unfolding y acknowledged_def by force
qed

interpretation recorded_exec: redis_exec "recording R" snd for R :: "'w redis"
  by unfold_locales (auto simp: recording_def split: prod.splits dest: record_with_exec)

lemma mem_exec_added: "mem_ExecXAdds ctx as w = ((e, rs), w') \<Longrightarrow>
    set (memAdded w) \<subseteq> set (memAdded w') \<and> (\<forall>i<length as. \<forall>eid. rs ! i = Inr eid \<longrightarrow> as ! i \<in> set (memAdded w'))"
proof (induction as arbitrary: w e rs w')
  case (Cons a as)
  obtain r w1 where a: "mem_XAdd ctx a w = (r, w1)" by fastforce
  obtain e1 rs1 w2 where b: "mem_ExecXAdds ctx as w1 = ((e1, rs1), w2)" by (metis prod_cases3 surj_pair)
  have "set (memAdded w) \<subseteq> set (memAdded w1)" "r = Inr eid \<Longrightarrow> a \<in> set (memAdded w1)" for eid
    using a by (auto simp: mem_XAdd_def Let_def split: if_splits)
  with Cons.IH [OF b] Cons.prems a b show ?case by (auto simp: nth_Cons split: nat.splits)
qed simp

interpretation mem_exec: redis_exec mem_redis mem_history
  by unfold_locales (auto simp: mem_history_def dest: mem_exec_added)

section \<open>Whose identifier\<close>

lemma enqueued_steps: "(pipe_step R cf)\<^sup>*\<^sup>* s t \<Longrightarrow> set (pEnqueued s) \<subseteq> set (pEnqueued t)"
proof (induction rule: rtranclp_induct)
  case (step t u)
  from step(2) have "set (pEnqueued t) \<subseteq> set (pEnqueued u)"
  proof cases
    case goroutine
    then show ?thesis by (auto elim!: run_stepE simp: take_job_def flush_def split: prod.splits)
  next
    case caller
    then show ?thesis by cases (auto simp: enqueue_def)
  qed (simp_all add: pipeline_Close_def)
  with step show ?case by blast
qed simp

lemma hist_steps: "(hist_step R cf H)\<^sup>*\<^sup>* s t \<Longrightarrow> (pipe_step R cf)\<^sup>*\<^sup>* s t"
  by (rule rtranclp_mono [THEN predicate2D, of "hist_step R cf H"]) (auto simp: hist_step_def)

interpretation hist_machine: transition_system "\<lambda>s. \<exists>w c. s = newPublishPipeline w c" "hist_step R cf H"
    "\<lambda>s. redis_exec R H \<and> exec_complete R \<longrightarrow> results_own H s \<and> pipe_inv cf s" for R :: "'w redis" and cf H
proof unfold_locales
  fix s t
  assume "redis_exec R H \<and> exec_complete R \<longrightarrow> results_own H s \<and> pipe_inv cf s" "hist_step R cf H s t"
  then show "redis_exec R H \<and> exec_complete R \<longrightarrow> results_own H t \<and> pipe_inv cf t"
    using redis_exec.hist_step_own pipe_step_inv by (metis hist_step_def)
next
  fix s :: "'w pipe" assume "\<exists>w c. s = newPublishPipeline w c"
  then show "redis_exec R H \<and> exec_complete R \<longrightarrow> results_own H s \<and> pipe_inv cf s"
    using new_pipe_inv by (auto simp: results_own_def newPublishPipeline_def)
qed

text \<open>The job of a caller stays the only one with its number.\<close>

lemma own_job:
  assumes "pipe_inv cf t" "j \<in> set (pEnqueued t)" "j' \<in> set (pEnqueued t)" "jobID j = jobID j'"
  shows "j = j'"
proof -
  have "distinct (map jobID (pEnqueued t))" using pipe_invD(4) [OF assms(1)] by simp
  then show ?thesis using assms(2-4) by (simp add: distinct_map inj_on_def)
qed

lemma own_result_published:
  assumes "redis_exec R H" "exec_complete R" "(hist_step R cf H)\<^sup>*\<^sup>* (newPublishPipeline w c) s"
    and "(hist_step R cf H)\<^sup>*\<^sup>* s t" "job \<in> set (pEnqueued s)" "pResults t (jobID job) = Some (Inr eid)"
  shows "published (H (pWorld t)) (jobReq job)"
proof -
  have inv: "results_own H t" "pipe_inv cf t"
    using hist_machine.reachable_inv [of "newPublishPipeline w c" R cf H t] assms(1-4) by (auto intro: rtranclp_trans)
  obtain j where j: "j \<in> set (pFlushed t)" "jobID j = jobID job" "published (H (pWorld t)) (jobReq j)"
    using inv(1) assms(6) unfolding results_own_def by blast
  have "job \<in> set (pEnqueued t)" using enqueued_steps [OF hist_steps [OF assms(4)]] assms(5) by blast
  moreover have "j \<in> set (pEnqueued t)" using j(1) pipe_invD(1) [OF inv(2)] by simp
  ultimately show ?thesis using own_job [OF inv(2)] j by blast
qed

lemma begin_hist:
  assumes "publish_begin R cf ctx req s (Inr i) t"
  shows "hist_step R cf H s t" "\<exists>job\<in>set (pEnqueued t). jobID job = i \<and> jobReq job = req"
proof -
  from assms have t: "t = enqueue ctx req s" "i = pNext s" by (auto elim: begin_acceptedE)
  show "hist_step R cf H s t" using pipe_step.caller [OF assms] by (simp add: hist_step_def t enqueue_def)
  show "\<exists>job\<in>set (pEnqueued t). jobID job = i \<and> jobReq job = req" by (auto simp: t enqueue_def new_job_def)
qed

text \<open>C10. An identifier returned by the pipeline is an answer to the caller's own request: whatever other callers, the goroutine,
  \<open>Close\<close> and other clients of Redis do between the acceptance of the job and the answer, when \<open>Publish\<close> returns an
  identifier, Redis has acknowledged an \<open>XADD\<close> built from the request that was passed in.\<close>

theorem pipeline_identifier_published:
  assumes "redis_exec R H" "exec_complete R" "(hist_step R cf H)\<^sup>*\<^sup>* (newPublishPipeline w c) s"
    and "publish_begin R cf ctx req s (Inr i) s1" "(hist_step R cf H)\<^sup>*\<^sup>* s1 t" "publish_end R ctx i t (Inr eid)"
  shows "published (H (pWorld t)) req"
proof -
  have "pResults t i = Some (Inr eid)" using assms(6) by (auto elim: publish_endE)
  moreover have "(hist_step R cf H)\<^sup>*\<^sup>* (newPublishPipeline w c) s1"
    using assms(3) begin_hist(1) [OF assms(4)] by (rule rtranclp.rtrancl_into_rtrancl)
  ultimately show ?thesis using own_result_published [OF assms(1,2) _ assms(5)] begin_hist(2) [OF assms(4)] by blast
qed

lemma many_begin_jobs:
  "many_begin R cf ctx reqs s r t \<Longrightarrow> (hist_step R cf H)\<^sup>*\<^sup>* s t \<and>
     (\<forall>is. r = Inr is \<longrightarrow> list_all2 (\<lambda>i req. \<exists>job\<in>set (pEnqueued t). jobID job = i \<and> jobReq job = req) is reqs)"
proof (induction rule: many_begin.induct)
  case (many_error req s e s' reqs)
  then have "s' = s" by cases simp_all
  then show ?case by simp
next
  case (many_stop req s i s1 reqs e s')
  then show ?case using begin_hist(1) [OF many_stop(1), of H] by (auto intro: converse_rtranclp_into_rtranclp)
next
  case (many_cons req s i s1 reqs "is" s')
  have "set (pEnqueued s1) \<subseteq> set (pEnqueued s')" using enqueued_steps [OF hist_steps [OF many_cons.IH [THEN conjunct1]]] .
  then have "\<exists>job\<in>set (pEnqueued s'). jobID job = i \<and> jobReq job = req" using begin_hist(2) [OF many_cons(1)] by blast
  then show ?case
    using many_cons.IH begin_hist(1) [OF many_cons(1), of H] by (auto intro: converse_rtranclp_into_rtranclp)
qed simp

text \<open>Likewise for \<open>PublishMany\<close>, at the moment each result is received.\<close>

lemma pipeline_identifiers_published:
  assumes "redis_exec R H" "exec_complete R" "(hist_step R cf H)\<^sup>*\<^sup>* (newPublishPipeline w c) s"
    and "many_begin R cf ctx reqs s (Inr is) s1" "\<forall>t\<in>set ts. (hist_step R cf H)\<^sup>*\<^sup>* s1 t" "many_end R ctx is ts (Inr rs)"
  shows "length rs = length reqs \<and> (\<forall>k<length rs. \<forall>eid. rs ! k = Inr eid \<longrightarrow> published (H (pWorld (ts ! k))) (reqs ! k))"
proof -
  note jobs = many_begin_jobs [OF assms(4), of H, THEN conjunct2, rule_format, OF refl]
  have s1: "(hist_step R cf H)\<^sup>*\<^sup>* (newPublishPipeline w c) s1"
    using assms(3) many_begin_jobs [OF assms(4), of H] by (auto intro: rtranclp_trans)
  note ends = many_end_results [OF assms(6)]
  have len: "length rs = length is" "length reqs = length is" "length ts = length is"
    using ends list_all2_lengthD [OF jobs] by (auto dest: list_all2_lengthD)
  have "published (H (pWorld (ts ! k))) (reqs ! k)" if k: "k < length rs" "rs ! k = Inr eid" for k eid
  proof -
    have "pResults (ts ! k) (is ! k) = Some (Inr eid)" using ends k len by (auto simp: list_all2_conv_all_nth)
    moreover obtain job where "job \<in> set (pEnqueued s1)" "jobID job = is ! k" "jobReq job = reqs ! k"
      using jobs k(1) len by (auto simp: list_all2_conv_all_nth)
    ultimately show ?thesis using own_result_published [OF assms(1,2) s1 _, of "ts ! k" job eid] assms(5) k(1) len by auto
  qed
  then show ?thesis using len by simp
qed

section \<open>The contract of the running service\<close>

text \<open>The jobs of a call that runs alone, in the state before its flush.\<close>

lemma fold_enqueue:
  "pQueue (fold (enqueue ctx) reqs s) = pQueue s @
     map (\<lambda>(i, req). \<lparr>jobID = i, jobCtx = ctx, jobReq = req, estimatedBytes = estimatePublishRequestBytes req\<rparr>) (enumerate (pNext s) reqs)"
  "pBuffer (fold (enqueue ctx) reqs s) = pBuffer s" "pWorld (fold (enqueue ctx) reqs s) = pWorld s"
  "pResults (fold (enqueue ctx) reqs s) = pResults s"
  by (induction reqs arbitrary: s) (simp_all add: enqueue_def new_job_def)

lemma fold_take:
  "pQueue s = js @ q \<Longrightarrow> pBuffer (fold (\<lambda>j t. take_job j (tl (pQueue t)) t) js s) = pBuffer s @ js \<and>
     pWorld (fold (\<lambda>j t. take_job j (tl (pQueue t)) t) js s) = pWorld s \<and> pResults (fold (\<lambda>j t. take_job j (tl (pQueue t)) t) js s) = pResults s"
  by (induction js arbitrary: s) (simp_all add: take_job_def)

context redis_exec
begin

lemma solo_state_records:
  assumes "exec_complete R" "solo_state R cf ctx reqs (w, c) = s"
  shows "H w \<subseteq> H (pWorld s)" "i < length reqs \<Longrightarrow> job_result s i = Inr eid \<Longrightarrow> published (H (pWorld s)) (reqs ! i)"
proof -
  let ?js = "map (\<lambda>(i, req). \<lparr>jobID = i, jobCtx = ctx, jobReq = req, estimatedBytes = estimatePublishRequestBytes req\<rparr>) (enumerate 0 reqs)"
  let ?q = "fold (enqueue ctx) reqs (newPublishPipeline w c)"
  let ?b = "fold (\<lambda>j t. take_job j (tl (pQueue t)) t) (pQueue ?q) ?q"
  have q: "pQueue ?q = ?js" "pBuffer ?q = []" "pWorld ?q = w" "pResults ?q = Map.empty"
    by (simp_all add: fold_enqueue) (simp_all add: newPublishPipeline_def)
  have b: "pBuffer ?b = ?js" "pWorld ?b = w" "pResults ?b = Map.empty" using fold_take [of ?q "pQueue ?q" "[]"] q by simp_all
  obtain res w' c' where f: "flushBatch R (pcMaxStreamLen cf) ?js (w, pCollector ?b) = (res, w', c')" by (rule prod_cases3)
  note F = flushBatch_records [OF assms(1) f]
  have ne: "enumerate 0 reqs = [] \<longleftrightarrow> reqs = []" by (metis length_0_conv length_enumerate)
  have s: "s = flush R cf ?b" using assms(2) by (simp add: solo_state_def Let_def)
  have w': "H w \<subseteq> H w'" "reqs \<noteq> [] \<Longrightarrow> pWorld s = w' \<and> pResults s = map_of res" "reqs = [] \<Longrightarrow> pWorld s = w"
    using f b F(1) ne unfolding s by (simp_all add: flush_def)
  then show "H w \<subseteq> H (pWorld s)" by (cases "reqs = []") auto
  assume i: "i < length reqs" "job_result s i = Inr eid"
  then have "reqs \<noteq> []" by auto
  then have "pWorld s = w'" "(i, Inr eid) \<in> set res"
    using w'(2) i(2) by (auto simp: job_result_def split: option.splits dest: map_of_SomeD)
  moreover from F(2) [OF this(2)] obtain j where "j \<in> set ?js" "jobID j = i" "published (H w') (jobReq j)" by blast
  moreover from this(1,2) have "jobReq j = reqs ! i" by (auto simp: in_set_enumerate_eq)
  ultimately show "published (H (pWorld s)) (reqs ! i)" by simp
qed

lemma solo_pipeline_records:
  assumes "exec_complete R"
  shows "pipeline_records H (solo_pipeline R cf)"
  unfolding pipeline_records_def
proof (intro conjI allI impI)
  fix ctx req w c r w' c'
  assume "pipePublish (solo_pipeline R cf) ctx req (w, c) = (r, w', c')"
  then have r: "r = job_result (solo_state R cf ctx [req] (w, c)) 0" "w' = pWorld (solo_state R cf ctx [req] (w, c))"
    by (simp_all add: solo_pipeline_def Let_def)
  note S = solo_state_records [OF assms refl, where cf = cf and ctx = ctx and reqs = "[req]" and w = w and c = c]
  show "H w \<subseteq> H w'" using S(1) r(2) by simp
  show "published (H w') req" if "r = Inr eid" for eid using S(2) [of 0 eid] r that by simp
next
  fix ctx reqs w c r w' c'
  assume "pipePublishMany (solo_pipeline R cf) ctx reqs (w, c) = (r, w', c')"
  then have r: "r = Inr (map (job_result (solo_state R cf ctx reqs (w, c))) [0..<length reqs])" "w' = pWorld (solo_state R cf ctx reqs (w, c))"
    by (simp_all add: solo_pipeline_def Let_def)
  note S = solo_state_records [OF assms refl, where cf = cf and ctx = ctx and reqs = reqs and w = w and c = c]
  show "H w \<subseteq> H w'" using S(1) r(2) by simp
  fix rs i
  assume rs: "r = Inr rs"
  show "length rs = length reqs" using r(1) rs by simp
  show "published (H w') (reqs ! i)" if "i < length rs" "\<not> isl (rs ! i)" for i
    using S(2) [of i "projr (rs ! i)"] r rs that by simp
qed

end

text \<open>In memory, a caller whose job the ticker flushes gets its identifier.\<close>

theorem pipeline_identifier_published_witness:
  "\<exists>t eid. (hist_step mem_redis sample_pipe_cfg mem_history)\<^sup>*\<^sup>* sample_pipe t \<and> publish_end mem_redis RequestCtx 0 t (Inr eid) \<and>
     published (mem_history (pWorld t)) (sample_req ''a'')"
proof -
  let ?step = "hist_step mem_redis sample_pipe_cfg mem_history"
  let ?s1 = "enqueue RequestCtx (sample_req ''a'') sample_pipe"
  let ?j = "new_job RequestCtx (sample_req ''a'') sample_pipe"
  let ?s2 = "(take_job ?j [] ?s1)\<lparr>pPc := Draining False\<rparr>"
  let ?s3 = "(if flush_due sample_pipe_cfg ?s2 then flush mem_redis sample_pipe_cfg ?s2 else ?s2)\<lparr>pPc := AtSelect\<rparr>"
  let ?t = "flush mem_redis sample_pipe_cfg ?s3"
  have start: "pQueue ?s1 = [?j]" "pPc ?s1 = AtSelect" "pNext sample_pipe = 0" "pWorld ?s1 = mem_empty" "pCollector ?s1 = IncPublishPipelineEnqueued sample_collector"
    "pBuffer ?s1 = []" "pResults ?s1 = Map.empty" "pFlushed ?s1 = []"
    by (simp_all add: enqueue_def sample_pipe_def newPublishPipeline_def)
  have b: "publish_begin mem_redis sample_pipe_cfg RequestCtx (sample_req ''a'') sample_pipe (Inr 0) ?s1"
    using begin_queued [of sample_pipe sample_pipe_cfg mem_redis RequestCtx "sample_req ''a''"] start(3)
    by (simp add: sample_pipe_def newPublishPipeline_def sample_pipe_cfg_def)
  have goroutine: "?step s t" if "run_step mem_redis sample_pipe_cfg s t" for s t
    using that mem_exec.run_step_grows [OF mem_exec_complete that] by (simp add: hist_step_def pipe_step.goroutine)
  have "?step ?s1 ?s2" by (rule goroutine, rule run_step.receive) (use start in simp_all)
  moreover have "?step ?s2 ?s3" by (rule goroutine, rule run_step.drained) (simp_all add: take_job_def)
  moreover have "?step ?s3 ?t" by (rule goroutine, rule run_step.tick) (simp_all add: sample_pipe_cfg_def)
  ultimately have run: "?step\<^sup>*\<^sup>* ?s1 ?t" by (meson converse_rtranclp_into_rtranclp r_into_rtranclp)
  have id: "jobID ?j = 0" by (simp add: new_job_def start(3))
  have buf: "pBuffer ?s2 = [?j]" "pWorld ?s2 = mem_empty" "pResults ?s2 = Map.empty" using start by (simp_all add: take_job_def)
  have fl: "\<exists>eid. pResults (flush mem_redis sample_pipe_cfg s) 0 = Some (Inr eid) \<and> pBuffer (flush mem_redis sample_pipe_cfg s) = []"
    if "pBuffer s = [?j]" "pWorld s = mem_empty" for s
    using that id by (auto simp: flush_def flushBatch_def mem_XAdd_def mem_empty_def Let_def split: prod.splits)
  have "\<exists>eid. pResults ?t 0 = Some (Inr eid)"
  proof (cases "flush_due sample_pipe_cfg ?s2")
    case True
    then show ?thesis using fl [of ?s2] buf by (auto simp: flush_def [of _ _ "_\<lparr>pPc := _\<rparr>"])
  next
    case False
    then show ?thesis using fl [of ?s3] buf by auto
  qed
  then obtain eid where e: "publish_end mem_redis RequestCtx 0 ?t (Inr eid)" by (auto intro: end_result)
  have init: "?step\<^sup>*\<^sup>* (newPublishPipeline mem_empty sample_collector) sample_pipe" by (simp add: sample_pipe_def)
  have "?step\<^sup>*\<^sup>* sample_pipe ?t" using begin_hist(1) [OF b] run by (rule converse_rtranclp_into_rtranclp)
  with pipeline_identifier_published [OF mem_exec.redis_exec_axioms mem_exec_complete init b run e] e show ?thesis by blast
qed

end
