(* ===== verification/Smoke_Clients.thy ===== *)
theory Smoke_Clients
  imports Pipeline_Delivery
begin

text \<open>
  The acceptance tests that ship with the sidecar: \<open>cmd/grpc-smoke\<close>, \<open>scripts/grpc_batch_smoke\<close> and \<open>scripts/grpc_slow_subscriber\<close>.  They are
  programs that talk to a running sidecar through the generated gRPC client, which is the parameter \<open>rpc_client\<close>: its operations
  act on the state of what is behind the connection.  A server stream is what its successive calls of \<open>Recv\<close> return: events, and then the
  error that ends it; every subscription has a deadline, so there is one.  Cancelling contexts, sleeping and progress output have no
  effect here.  \<open>served\<close> is the client connected to the model of the sidecar, with which is shown what a passed test means.
\<close>

section \<open>Clients\<close>

record 'v rpc_client =
  cliDial :: "string \<Rightarrow> 'v \<Rightarrow> go_error option \<times> 'v"
  cliHealth :: "ctx \<Rightarrow> 'v \<Rightarrow> HealthResponse go_result \<times> 'v"
  cliPublish :: "ctx \<Rightarrow> PublishRequest \<Rightarrow> 'v \<Rightarrow> PublishResponse go_result \<times> 'v"
  cliPublishBatch :: "ctx \<Rightarrow> PublishBatchRequest \<Rightarrow> 'v \<Rightarrow> string list go_result \<times> 'v"
  cliSubscribe :: "ctx \<Rightarrow> SubscribeRequest \<Rightarrow> 'v \<Rightarrow> (Event list \<times> go_error) go_result \<times> 'v"
  cliAck :: "ctx \<Rightarrow> ackRequest \<Rightarrow> 'v \<Rightarrow> int go_result \<times> 'v"

definition EOF :: go_error where "EOF = ErrMsg ''EOF''"

text \<open>How a test ends: \<open>exitf\<close> and \<open>fail\<close> print a message and leave with status one.\<close>

datatype test_exit = Pass string | Fail string

section \<open>The smoke test\<close>

record options =
  oAddr :: string
  oStream :: string
  oGroup :: string
  oConsumer :: string
  oAttempts :: int
  oBatchSize :: int

text \<open>\<open>flagParse\<close> overrides the defaults by the command line.\<close>

definition parseFlags :: "(options \<Rightarrow> options) \<Rightarrow> int \<Rightarrow> options" where
  "parseFlags flagParse now =
     (let opts = flagParse \<lparr>oAddr = ''localhost:50051'', oStream = ''platform-events'', oGroup = ''sugar-glider-grpc-smoke'',
                            oConsumer = ''grpc-smoke-'' @ FormatInt now, oAttempts = 12, oBatchSize = 25\<rparr>
      in if TrimSpace (oConsumer opts) = '''' then opts\<lparr>oConsumer := ''grpc-smoke-'' @ FormatInt now\<rparr> else opts)"

text \<open>The receiving loop of one attempt: the identifier of the first matching event, empty at the end of the stream.\<close>

fun smoke_recv :: "string \<Rightarrow> string \<Rightarrow> Event list \<Rightarrow> go_error \<Rightarrow> string go_result" where
  "smoke_recv entryID smokeID [] recvErr = (if errors_Is recvErr EOF then Inr '''' else Inl recvErr)"
| "smoke_recv entryID smokeID (ev # evs) recvErr =
     (if evEntryId ev = entryID \<or> Contains (evPayload ev) smokeID then Inr (evEntryId ev) else smoke_recv entryID smokeID evs recvErr)"

definition smoke_subscription :: "options \<Rightarrow> SubscribeRequest" where
  "smoke_subscription opts = \<lparr>subStream = oStream opts, subConsumerGroup = oGroup opts, subConsumerName = oConsumer opts, subBatchSize = int32_wrap (oBatchSize opts)\<rparr>"

text \<open>The loop over the attempts, with the number of those that remain.\<close>

fun smoke_attempts :: "'v rpc_client \<Rightarrow> options \<Rightarrow> string \<Rightarrow> string \<Rightarrow> int \<Rightarrow> nat \<Rightarrow> 'v \<Rightarrow> (string + string) \<times> 'v" where
  "smoke_attempts C opts entryID smokeID attempt 0 v = (Inr '''', v)"
| "smoke_attempts C opts entryID smokeID attempt (Suc n) v =
     (case cliSubscribe C (WithTimeout BackgroundCtx 8000) (smoke_subscription opts) v of
        (Inl subErr, v1) \<Rightarrow> (Inl (''subscribe RPC failed on attempt '' @ FormatInt attempt @ '': '' @ Error subErr), v1)
      | (Inr (evs, recvErr), v1) \<Rightarrow>
          (case smoke_recv entryID smokeID evs recvErr of
             Inl err \<Rightarrow> (Inl (''stream receive failed on attempt '' @ FormatInt attempt @ '': '' @ Error err), v1)
           | Inr matchedID \<Rightarrow>
               if matchedID \<noteq> '''' then (Inr matchedID, v1) else smoke_attempts C opts entryID smokeID (attempt + 1) n v1))"

definition smoke_request :: "options \<Rightarrow> string \<Rightarrow> PublishRequest" where
  "smoke_request opts payload =
     \<lparr>Stream = oStream opts, EventType = ''smoke.test.grpc'', Sender = ''sugar-glider-grpc-smoke'', Recipient = '''', Priority = ''normal'',
      Payload = payload, TTLSec = 0\<rparr>"

text \<open>\<open>main\<close>: \<open>nano\<close> is the time of the smoke identifier, \<open>marshal\<close> encodes the payload with that identifier.\<close>

definition grpc_smoke :: "'v rpc_client \<Rightarrow> (string \<Rightarrow> string go_result) \<Rightarrow> options \<Rightarrow> int \<Rightarrow> 'v \<Rightarrow> test_exit \<times> 'v" where
  "grpc_smoke C marshal opts nano v =
     (if oAttempts opts \<le> 0 then (Fail ''attempts must be > 0'', v)
      else if oBatchSize opts \<le> 0 then (Fail ''batch-size must be > 0'', v)
      else case cliDial C (oAddr opts) v of
        (Some err, v1) \<Rightarrow> (Fail (''dial '' @ oAddr opts @ '' failed: '' @ Error err), v1)
      | (None, v1) \<Rightarrow>
          (case cliHealth C (WithTimeout BackgroundCtx 5000) v1 of
             (Inl err, v2) \<Rightarrow> (Fail (''health RPC failed: '' @ Error err), v2)
           | (Inr health, v2) \<Rightarrow>
               if \<not> hrHealthy health then (Fail (''sugar glider reported unhealthy redis_status='' @ hrRedisStatus health), v2)
               else (let smokeID = ''grpc-smoke-'' @ FormatInt nano
                     in case marshal smokeID of
                          Inl err \<Rightarrow> (Fail (''payload marshal failed: '' @ Error err), v2)
                        | Inr payload \<Rightarrow>
                            (case cliPublish C (WithTimeout BackgroundCtx 5000) (smoke_request opts payload) v2 of
                               (Inl err, v3) \<Rightarrow> (Fail (''publish RPC failed: '' @ Error err), v3)
                             | (Inr pubResp, v3) \<Rightarrow>
                                 (let entryID = TrimSpace (respEntryId pubResp)
                                  in if entryID = ''''
                                     then (Fail ''publish returned empty entry_id (publish likely queued due Redis outage)'', v3)
                                     else (case smoke_attempts C opts entryID smokeID 1 (nat (oAttempts opts)) v3 of
                                             (Inl msg, v4) \<Rightarrow> (Fail msg, v4)
                                           | (Inr matchedID, v4) \<Rightarrow>
                                               if matchedID = '''' then (Fail (''timed out waiting for published entry_id='' @ entryID), v4)
                                               else (case cliAck C (WithTimeout BackgroundCtx 5000)
                                                       \<lparr>arStream = oStream opts, arConsumerGroup = oGroup opts, arEntryIDs = [matchedID]\<rparr> v4 of
                                                       (Inl err, v5) \<Rightarrow> (Fail (''ack RPC failed: '' @ Error err), v5)
                                                     | (Inr acked, v5) \<Rightarrow>
                                                         if acked < 1 then (Fail (''ack RPC returned acked='' @ FormatInt acked), v5)
                                                         else (Pass (''PASS: gRPC smoke succeeded (entry_id='' @ matchedID @ '', acked='' @ FormatInt acked @ '')''), v5))))))))"

section \<open>The batch smoke test\<close>

text \<open>The smoke identifiers found in the payloads of the received events; any error of \<open>Recv\<close> ends the stream.\<close>

definition batch_match :: "string list \<Rightarrow> Event \<Rightarrow> string list \<Rightarrow> string list" where
  "batch_match ids ev found = fold (\<lambda>smokeID f. if Contains (evPayload ev) smokeID then List.insert smokeID f else f) ids found"

fun batch_recv :: "string list \<Rightarrow> int \<Rightarrow> Event list \<Rightarrow> string list \<Rightarrow> string list" where
  "batch_recv ids n [] found = found"
| "batch_recv ids n (ev # evs) found =
     (let found1 = batch_match ids ev found
      in if int (length found1) = n then found1 else batch_recv ids n evs found1)"

fun batch_attempts :: "'v rpc_client \<Rightarrow> SubscribeRequest \<Rightarrow> string list \<Rightarrow> int \<Rightarrow> nat \<Rightarrow> string list \<Rightarrow> 'v \<Rightarrow> (string + string list) \<times> 'v" where
  "batch_attempts C sub ids n 0 found v = (Inr found, v)"
| "batch_attempts C sub ids n (Suc k) found v =
     (if \<not> int (length found) < n then (Inr found, v)
      else case cliSubscribe C (WithTimeout BackgroundCtx 8000) sub v of
        (Inl err, v1) \<Rightarrow> (Inl (''Subscribe: '' @ Error err), v1)
      | (Inr (evs, _), v1) \<Rightarrow> batch_attempts C sub ids n k (batch_recv ids n evs found) v1)"

fun first_empty :: "nat \<Rightarrow> string list \<Rightarrow> nat option" where
  "first_empty i [] = None"
| "first_empty i (x # xs) = (if TrimSpace x = '''' then Some i else first_empty (Suc i) xs)"

definition batch_request :: "string \<Rightarrow> string \<Rightarrow> PublishRequest" where
  "batch_request stream payload =
     \<lparr>Stream = stream, EventType = ''smoke.test.batch'', Sender = ''batch-smoke'', Recipient = '''', Priority = ''normal'', Payload = payload, TTLSec = 0\<rparr>"

text \<open>\<open>nano i\<close> is the time at which the \<open>i\<close>-th identifier is made, \<open>now1\<close> and \<open>now2\<close> the times of the group and the consumer.\<close>

definition grpc_batch_smoke ::
  "'v rpc_client \<Rightarrow> (string \<Rightarrow> nat \<Rightarrow> string) \<Rightarrow> (nat \<Rightarrow> int) \<Rightarrow> int \<Rightarrow> int \<Rightarrow> string \<Rightarrow> string \<Rightarrow> int \<Rightarrow> 'v \<Rightarrow> test_exit \<times> 'v" where
  "grpc_batch_smoke C marshal nano now1 now2 addr stream n v =
     (if n < 1 then (Fail ''n must be >= 1'', v)
      else case cliDial C addr v of
        (Some err, v1) \<Rightarrow> (Fail (''dial: '' @ Error err), v1)
      | (None, v1) \<Rightarrow>
          (let grp = ''batch-smoke-'' @ FormatInt now1;
               consumer = ''batch-consumer-'' @ FormatInt now2;
               ids = map (\<lambda>i. ''batch-smoke-'' @ FormatInt (nano i) @ ''-'' @ FormatNat i) [0..<nat n];
               events = map (\<lambda>i. Some (batch_request stream (marshal (ids ! i) i))) [0..<nat n]
           in case cliPublishBatch C (WithTimeout BackgroundCtx 10000) \<lparr>batchStream = stream, batchEvents = events\<rparr> v1 of
                (Inl err, v2) \<Rightarrow> (Fail (''PublishBatch: '' @ Error err), v2)
              | (Inr entryIDs, v2) \<Rightarrow>
                  if int (length entryIDs) \<noteq> n then (Fail (''entry_ids len='' @ FormatNat (length entryIDs) @ '' want '' @ FormatInt n), v2)
                  else (case first_empty 0 entryIDs of
                          Some i \<Rightarrow> (Fail (''empty entry_id at index '' @ FormatNat i), v2)
                        | None \<Rightarrow>
                            (case batch_attempts C \<lparr>subStream = stream, subConsumerGroup = grp, subConsumerName = consumer, subBatchSize = 50\<rparr> ids n 15 [] v2 of
                               (Inl msg, v3) \<Rightarrow> (Fail msg, v3)
                             | (Inr found, v3) \<Rightarrow>
                                 if int (length found) \<noteq> n then (Fail (''matched '' @ FormatNat (length found) @ ''/'' @ FormatInt n @ '' events''), v3)
                                 else (case cliAck C (WithTimeout BackgroundCtx 5000)
                                         \<lparr>arStream = stream, arConsumerGroup = grp, arEntryIDs = entryIDs\<rparr> v3 of
                                         (Inl err, v4) \<Rightarrow> (Fail (''Ack: '' @ Error err), v4)
                                       | (Inr acked, v4) \<Rightarrow>
                                           if acked < int32_wrap n then (Fail (''acked='' @ FormatInt acked @ '' want>='' @ FormatInt n), v4)
                                           else (Pass (''PASS: PublishBatch smoke ('' @ FormatInt n @ '' events, acked='' @ FormatInt acked @ '')''), v4))))))"

section \<open>The slow subscriber\<close>

text \<open>It subscribes and waits for the deadline without receiving.\<close>

definition grpc_slow_subscriber :: "'v rpc_client \<Rightarrow> string \<Rightarrow> int \<Rightarrow> 'v \<Rightarrow> test_exit \<times> 'v" where
  "grpc_slow_subscriber C addr now v =
     (case cliDial C addr v of
        (Some err, v1) \<Rightarrow> (Fail (''dial: '' @ Error err), v1)
      | (None, v1) \<Rightarrow>
          (case cliSubscribe C (WithTimeout BackgroundCtx 50000)
                  \<lparr>subStream = ''platform-events'', subConsumerGroup = ''evict-ft'', subConsumerName = ''slow-'' @ FormatInt now, subBatchSize = 1\<rparr> v1 of
             (Inl err, v2) \<Rightarrow> (Fail (''subscribe: '' @ Error err), v2)
           | (Inr sub, v2) \<Rightarrow> (Pass '''', v2)))"

section \<open>The client of the modelled sidecar\<close>

text \<open>Calls arrive at the handlers; \<open>fromStatus\<close> is the error a client makes of a status, \<open>inputs\<close> what the loop of a subscription meets, \<open>pick\<close> the
  choice of \<open>queueAck\<close> among ready cases.  A subscription that has not ended by the deadline ends with it.\<close>

definition answer :: "(grpc_status \<Rightarrow> go_error) \<Rightarrow> 'a grpc_result \<times> 'v \<Rightarrow> 'a go_result \<times> 'v" where
  "answer fromStatus rv = (map_sum fromStatus id (fst rv), snd rv)"

definition served ::
  "(string \<Rightarrow> go_error option) \<Rightarrow> (grpc_status \<Rightarrow> go_error) \<Rightarrow> (SubscribeRequest \<Rightarrow> 'w server \<Rightarrow> relay_input list) \<Rightarrow> bool \<Rightarrow> 'w server rpc_client" where
  "served dial fromStatus inputs pick =
     \<lparr>cliDial = (\<lambda>addr v. (dial addr, v)),
      cliHealth = (\<lambda>ctx v. answer fromStatus (rpc_Health ctx v)),
      cliPublish = (\<lambda>ctx req v. answer fromStatus (with_core (rpc_Publish ctx (Some req)) v)),
      cliPublishBatch = (\<lambda>ctx req v. answer fromStatus (with_core (rpc_PublishBatch ctx (Some req)) v)),
      cliSubscribe = (\<lambda>ctx req v. case rpc_Subscribe (\<lambda>_. None) (inputs req v) (Some req) v of
         ((sent, None), v1) \<Rightarrow> (Inr (sent, ContextDeadlineExceeded), v1)
       | ((sent, Some None), v1) \<Rightarrow> (Inr (sent, EOF), v1)
       | ((sent, Some (Some st)), v1) \<Rightarrow> (Inr (sent, fromStatus st), v1)),
      cliAck = (\<lambda>ctx req v. answer fromStatus (rpc_Ack pick ctx (Some req) v))\<rparr>"

lemma answer_iff [simp]: "answer f rv = (Inr x, v) \<longleftrightarrow> rv = (Inr x, v)"
  by (cases rv; cases "fst rv") (auto simp: answer_def)

text \<open>A passed smoke test went all the way.\<close>

lemma grpc_smoke_pass:
  assumes "grpc_smoke C marshal opts nano v = (Pass msg, v')"
  obtains v1 health v2 payload resp v3 matchedID v4 acked where
    "cliDial C (oAddr opts) v = (None, v1)" "cliHealth C (WithTimeout BackgroundCtx 5000) v1 = (Inr health, v2)"
    "marshal (''grpc-smoke-'' @ FormatInt nano) = Inr payload"
    "cliPublish C (WithTimeout BackgroundCtx 5000) (smoke_request opts payload) v2 = (Inr resp, v3)" "TrimSpace (respEntryId resp) \<noteq> ''''"
    "smoke_attempts C opts (TrimSpace (respEntryId resp)) (''grpc-smoke-'' @ FormatInt nano) 1 (nat (oAttempts opts)) v3 = (Inr matchedID, v4)"
    "cliAck C (WithTimeout BackgroundCtx 5000) \<lparr>arStream = oStream opts, arConsumerGroup = oGroup opts, arEntryIDs = [matchedID]\<rparr> v4 = (Inr acked, v')"
    "matchedID \<noteq> ''''" "1 \<le> acked"
  using assms by (auto simp: grpc_smoke_def Let_def split: if_splits prod.splits option.splits sum.splits)

lemma smoke_recv_match:
  "smoke_recv e i evs err = Inr m \<Longrightarrow> m \<noteq> '''' \<Longrightarrow> \<exists>ev\<in>set evs. evEntryId ev = m \<and> (m = e \<or> Contains (evPayload ev) i)"
  by (induction evs) (auto split: if_splits)

lemma smoke_attempts_match:
  "smoke_attempts C opts e i a n v = (Inr m, v') \<Longrightarrow> m \<noteq> '''' \<Longrightarrow>
     \<exists>u evs err u'. cliSubscribe C (WithTimeout BackgroundCtx 8000) (smoke_subscription opts) u = (Inr (evs, err), u') \<and>
       (\<exists>ev\<in>set evs. evEntryId ev = m \<and> (m = e \<or> Contains (evPayload ev) i))"
proof (induction n arbitrary: a v)
  case (Suc n)
  then obtain evs err v1 where s: "cliSubscribe C (WithTimeout BackgroundCtx 8000) (smoke_subscription opts) v = (Inr (evs, err), v1)"
    by (auto split: sum.splits prod.splits)
  with Suc.prems obtain k where k: "smoke_recv e i evs err = Inr k" by (auto split: sum.splits)
  show ?case
  proof (cases "k = ''''")
    case True
    then show ?thesis using Suc.IH Suc.prems s k by auto
  next
    case False
    then show ?thesis using Suc.prems s k smoke_recv_match [OF k] by auto
  qed
qed simp

lemma grpc_batch_smoke_pass:
  assumes "grpc_batch_smoke C marshal nano now1 now2 addr stream n v = (Pass msg, v')"
    and "ids = map (\<lambda>i. ''batch-smoke-'' @ FormatInt (nano i) @ ''-'' @ FormatNat i) [0..<nat n]"
    and "events = map (\<lambda>i. batch_request stream (marshal (ids ! i) i)) [0..<nat n]"
  obtains v1 entryIDs v2 sub found v3 ack acked where
    "cliDial C addr v = (None, v1)"
    "cliPublishBatch C (WithTimeout BackgroundCtx 10000) \<lparr>batchStream = stream, batchEvents = map Some events\<rparr> v1 = (Inr entryIDs, v2)"
    "int (length entryIDs) = n" "first_empty 0 entryIDs = None"
    "batch_attempts C sub ids n 15 [] v2 = (Inr found, v3)" "int (length found) = n"
    "cliAck C (WithTimeout BackgroundCtx 5000) ack v3 = (Inr acked, v')" "arEntryIDs ack = entryIDs" "int32_wrap n \<le> acked"
proof -
  have ev: "map (\<lambda>i. Some (batch_request stream (marshal (ids ! i) i))) [0..<nat n] = map Some events" by (simp add: assms(3) comp_def)
  show thesis
    using assms(1) that
    unfolding grpc_batch_smoke_def Let_def assms(2) [symmetric] ev
    by (auto split: if_splits prod.splits option.splits sum.splits)
qed

lemma first_empty_None: "first_empty i xs = None \<Longrightarrow> '''' \<notin> set xs"
  by (induction i xs rule: first_empty.induct) (auto split: if_splits)

context redis_history
begin

lemma served_subscribe_soft:
  "cliSubscribe (served dial fromStatus inputs pick) ctx req v = (r, v') \<Longrightarrow> redis (core v) = R \<Longrightarrow> soft H (core v) (core v')"
  using rpc_subscribe_soft [of "\<lambda>_. None" "inputs req v" "Some req" v]
  by (auto simp: served_def split: prod.splits option.splits)

lemma smoke_attempts_soft:
  "smoke_attempts (served dial fromStatus inputs pick) opts e i a n v = (r, v') \<Longrightarrow> redis (core v) = R \<Longrightarrow> soft H (core v) (core v')"
proof (induction n arbitrary: a v)
  case (Suc n)
  let ?C = "served dial fromStatus inputs pick"
  obtain x v1 where x: "cliSubscribe ?C (WithTimeout BackgroundCtx 8000) (smoke_subscription opts) v = (x, v1)" by fastforce
  note s = served_subscribe_soft [OF x Suc.prems(2)]
  then have "redis (core v1) = R" using softD(3) [OF s] Suc.prems(2) by simp
  then show ?case using Suc.prems(1) Suc.IH [of "a + 1" v1] soft_trans [OF s] s x by (auto split: sum.splits prod.splits if_splits)
qed simp

lemma batch_attempts_soft:
  "batch_attempts (served dial fromStatus inputs pick) sub ids n k found v = (r, v') \<Longrightarrow> redis (core v) = R \<Longrightarrow> soft H (core v) (core v')"
proof (induction k arbitrary: found v)
  case (Suc k)
  obtain x v1 where x: "cliSubscribe (served dial fromStatus inputs pick) (WithTimeout BackgroundCtx 8000) sub v = (x, v1)" by fastforce
  note s = served_subscribe_soft [OF x Suc.prems(2)]
  then have "redis (core v1) = R" using softD(3) [OF s] Suc.prems(2) by simp
  then show ?case using Suc.prems(1) Suc.IH [of _ v1] soft_trans [OF s] s x by (auto split: sum.splits prod.splits if_splits)
qed simp

text \<open>An identifier means that the message is in Redis, not only in the log.\<close>

lemma publishInternal_id:
  assumes "publishInternal ctx req0 s = (po, s')" "connected R H s" "poErr po = None" "\<not> poQueued po"
  shows "published (H (world s')) (normalized req0 s)"
  using assms(1)
proof (cases rule: publishInternal_cases)
  case (published req code eid s2)
  note k = publish_soft [OF published(2) assms(2)]
  have "connected R H s2" using connected_soft [OF k(1)] assms(2) by simp
  then have "keeps True H s2 s'"
    using published(4) replay_keeps [of "incrementWALReplaySyncCall (incrementPublishSuccess s2)" True ctx] by (simp add: keeps_soft)
  then have "H (world s2) \<subseteq> H (world s')" by (rule keepsD(1))
  then show ?thesis using published_mono [OF k(2) [OF refl]] published(1) by (simp add: normalized_def)
qed (use assms(3,4) in \<open>auto simp: failed_def\<close>)

lemma rpc_publish_id:
  assumes "rpc_Publish ctx (Some req) s = (Inr resp, s')" "connected R H s" "respEntryId resp \<noteq> ''''"
  shows "published (H (world s')) (normalized req s)" "connected R H s'"
proof -
  obtain po where p: "publishInternal ctx req (incrementPublishAttempts s) = (po, s')" "poErr po = None" "\<not> poQueued po"
    using assms(1,3) by (auto simp: rpc_Publish_def Let_def split: prod.splits option.splits if_splits)
  show "published (H (world s')) (normalized req s)" using publishInternal_id [OF p(1) _ p(2,3)] assms(2) by simp
  show "connected R H s'" using connected_keeps [OF rpc_publish_keeps(1) [OF assms(1,2)]] assms(2) by simp
qed

lemma publish_singly_ids:
  "publish_singly ctx reqs acc s = (Inr ids, s') \<Longrightarrow> connected R H s \<Longrightarrow>
     \<forall>q\<in>set reqs. publishable (cfg s) q \<and> TrimSpace (Stream q) = Stream q \<Longrightarrow> '''' \<notin> set ids \<Longrightarrow>
     H (world s) \<subseteq> H (world s') \<and> set acc \<subseteq> set ids \<and> (\<forall>q\<in>set reqs. published (H (world s')) q)"
proof (induction reqs arbitrary: acc s)
  case (Cons req rest)
  obtain po s1 where p: "publishInternal ctx req s = (po, s1)" by fastforce
  note k = publishInternal_keeps(1) [OF p Cons.prems(2)]
  have ok: "poErr po = None" and r: "publish_singly ctx rest (acc @ [if poQueued po then '''' else poEntryID po]) s1 = (Inr ids, s')"
    using Cons.prems(1) p by (auto split: option.splits)
  have c1: "connected R H s1" "cfg s1 = cfg s" using connected_keeps [OF k] keepsD(2) [OF k] Cons.prems(2) by simp_all
  note I = Cons.IH [OF r c1(1)]
  have I': "H (world s1) \<subseteq> H (world s')" "set (acc @ [if poQueued po then '''' else poEntryID po]) \<subseteq> set ids" "\<forall>q\<in>set rest. published (H (world s')) q"
    using I Cons.prems(3,4) c1(2) by auto
  have "\<not> poQueued po" using I'(2) Cons.prems(4) by auto
  moreover have "normalized req s = req" using normalize_id [of s req] Cons.prems(3) by (simp add: normalized_def)
  ultimately have "published (H (world s1)) req" using publishInternal_id [OF p Cons.prems(2) ok] by simp
  then show ?case using I' keepsD(1) [OF k] published_mono by auto
qed simp

lemma rpc_batch_ids:
  assumes "rpc_PublishBatch ctx (Some r) s = (Inr ids, s')" "connected R H s" "config_valid (cfg s)" "'''' \<notin> set ids"
  shows "\<forall>q\<in>accepted_batch (Some r) (Inr ids :: string list grpc_result) s. published (H (world s')) q"
  using assms(1-3)
proof (cases rule: batch_run)
  case (singly reqs s3)
  have "connected R H s3" using connected_soft [OF singly(2)] assms(2) by simp
  then show ?thesis using publish_singly_ids [OF singly(4) _ singly(3) assms(4)] singly(1) by simp
qed simp_all

end

section \<open>What a passed test means\<close>

lemma served_subscribe:
  "cliSubscribe (served dial fromStatus inputs pick) ctx req v = (Inr (evs, err), v') \<Longrightarrow>
     \<exists>result. rpc_Subscribe (\<lambda>_. None) (inputs req v) (Some req) v = ((evs, result), v')"
  by (auto simp: served_def split: prod.splits option.splits)


text \<open>Likewise a passed batch test: every message of the batch is in Redis.\<close>

lemma batch_smoke_pass_means_stored:
  assumes "redis_history R H" "connected R H (core v)" "config_valid (cfg (core v))"
    and "grpc_batch_smoke (served dial fromStatus inputs pick) marshal nano now1 now2 addr stream n v = (Pass msg, v')"
    and "ids = map (\<lambda>i. ''batch-smoke-'' @ FormatInt (nano i) @ ''-'' @ FormatNat i) [0..<nat n]"
    and "events = map (\<lambda>i. batch_request stream (marshal (ids ! i) i)) [0..<nat n]"
  shows "\<exists>entryIDs. length entryIDs = nat n \<and>
    (\<forall>q\<in>accepted_batch (Some \<lparr>batchStream = stream, batchEvents = map Some events\<rparr>) (Inr entryIDs) (core v). published (H (world (core v'))) q)"
proof -
  let ?C = "served dial fromStatus inputs pick" and ?b = "\<lparr>batchStream = stream, batchEvents = map Some events\<rparr>"
  from assms(4-6) obtain v1 entryIDs v2 sub found v3 ack acked where
    c: "cliDial ?C addr v = (None, v1)" "cliPublishBatch ?C (WithTimeout BackgroundCtx 10000) ?b v1 = (Inr entryIDs, v2)"
      "int (length entryIDs) = n" "first_empty 0 entryIDs = None" "batch_attempts ?C sub ids n 15 [] v2 = (Inr found, v3)"
      "cliAck ?C (WithTimeout BackgroundCtx 5000) ack v3 = (Inr acked, v')"
    by (rule grpc_batch_smoke_pass)
  have p: "rpc_PublishBatch (WithTimeout BackgroundCtx 10000) (Some ?b) (core v) = (Inr entryIDs, core v2)"
    using c(1,2) with_core_result by (simp add: served_def)
  note P = redis_history.rpc_batch_ids [OF assms(1) p assms(2,3) first_empty_None [OF c(4)]]
  have c2: "connected R H (core v2)"
    using connected_keeps [OF redis_history.batch_keeps [OF assms(1) p assms(2,3), THEN conjunct1]] assms(2) by simp
  then have R: "redis (core v2) = R" by (simp add: connected_def)
  note s3 = redis_history.batch_attempts_soft [OF assms(1) c(5) R]
  have "rpc_Ack pick (WithTimeout BackgroundCtx 5000) (Some ack) v3 = (Inr acked, v')" using c(6) by (simp add: served_def)
  then have "soft H (core v3) (core v')" using redis_history.rpc_ack_soft [OF assms(1)] softD(3) [OF s3] R by simp
  then have "H (world (core v2)) \<subseteq> H (world (core v'))" using softD(1) s3 by blast
  then have "\<forall>q\<in>accepted_batch (Some ?b) (Inr entryIDs :: string list grpc_result) (core v). published (H (world (core v'))) q"
    using P published_mono by blast
  moreover have "length entryIDs = nat n" using c(3) by linarith
  ultimately show ?thesis by blast
qed

section \<open>A sample run\<close>

definition sample_options :: options where
  "sample_options = \<lparr>oAddr = ''localhost:50051'', oStream = ''s'', oGroup = ''g'', oConsumer = ''c'', oAttempts = 2, oBatchSize = 5\<rparr>"

definition smoke_server :: "mem_world server" where
  "smoke_server = \<lparr>core = sample_sidecar False, dispatcherManager = None\<rparr>"

abbreviation sample_client :: "mem_world server rpc_client" where
  "sample_client \<equiv> served (\<lambda>_. None) (\<lambda>st. ErrMsg (snd st)) (\<lambda>_ _. []) False"

abbreviation smoke_message :: PublishRequest where
  "smoke_message \<equiv> smoke_request sample_options ''{grpc-smoke-7}''"

text \<open>The sample server in the course of the test: only the world of Redis matters.\<close>

definition sample_at :: "mem_world \<Rightarrow> mem_world server \<Rightarrow> bool" where
  "sample_at w v \<longleftrightarrow> cfg (core v) = sample_cfg \<and> redis (core v) = mem_redis \<and> publisher (core v) = Publisher_Publish mem_redis 1000 \<and>
     publishPipeline (core v) = None \<and> world (core v) = w \<and> dispatcherManager v = None"

definition stored_world :: mem_world where
  "stored_world = snd (mem_XAdd RequestCtx (BuildXAddArgs ''2025-01-01T00:00:00Z'' smoke_message 1000) mem_empty)"

definition read_world :: mem_world where
  "read_world = stored_world\<lparr>memPending := (memPending stored_world)(''s'' := [\<lparr>pendID = ''1-0'', pendIdle = 0, pendRetryCount = 1\<rparr>])\<rparr>"

lemma stored_world_simps:
  "memDown stored_world = False" "memPending stored_world ''s'' = []"
  "\<exists>m. memStreams stored_world ''s'' = [m] \<and> msgID m = ''1-0''"
proof -
  have "FormatNat 1 = ''1''" by code_simp
  then show "memDown stored_world = False" "memPending stored_world ''s'' = []" "\<exists>m. memStreams stored_world ''s'' = [m] \<and> msgID m = ''1-0''"
    by (simp_all add: stored_world_def mem_XAdd_def mem_empty_def BuildXAddArgs_def smoke_request_def sample_options_def Let_def)
qed

lemma sample_health:
  "\<exists>h v'. cliHealth sample_client ctx smoke_server = (Inr h, v') \<and> hrHealthy h \<and> sample_at mem_empty v'"
  by (simp add: served_def rpc_Health_def service_CheckReady_def smoke_server_def answer_def on_core_def mem_redis_def Let_def)
   (simp add: sample_at_def sample_sidecar_def mem_empty_def mem_redis_def)

lemma sample_publish:
  assumes "sample_at mem_empty v"
  shows "\<exists>v'. cliPublish sample_client ctx smoke_message v = (Inr \<lparr>respEntryId = ''1-0'', respQueued = False\<rparr>, v') \<and> sample_at stored_world v'"
proof -
  let ?s = "incrementPublishAttempts (core v)"
  have "normalizePublishRequest smoke_message '''' ?s = ((smoke_message, StatusOK, None), ?s)"
    using assms by (intro normalize_id)
      (simp_all add: sample_at_def publishable_def smoke_request_def sample_options_def sample_cfg_def IsStreamAllowed_iff TrimSpace_visible ascii_visible_def)
  moreover have "mem_XAdd c (BuildXAddArgs ''2025-01-01T00:00:00Z'' smoke_message 1000) mem_empty = (Inr ''1-0'', stored_world)" for c
  proof -
    have "FormatNat 1 = ''1''" by code_simp
    then show ?thesis by (simp add: stored_world_def mem_XAdd_def mem_empty_def Let_def)
  qed
  moreover have "WALReplayMode sample_cfg \<noteq> WALReplayModeSyncOnSuccess" by (simp add: sample_cfg_def WALReplayModeSyncOnSuccess_def)
  ultimately show ?thesis
    using assms
    by (simp add: served_def with_core_def rpc_Publish_def publishInternal_def publishToRedis_def call_publisher_def Publisher_Publish_def
        Let_def answer_def sample_at_def)
qed

lemma sample_subscribe:
  assumes "sample_at stored_world v"
  shows "\<exists>ev err v'. cliSubscribe sample_client ctx (smoke_subscription sample_options) v = (Inr ([ev], err), v') \<and> evEntryId ev = ''1-0'' \<and> sample_at read_world v'"
proof -
  obtain m where m: "memStreams stored_world ''s'' = [m]" "msgID m = ''1-0''" using stored_world_simps(3) by blast
  have w: "int32_wrap 5 = 5" by (simp add: int32_wrap_def)
  have x: "XGroupCreateMkStream mem_redis = (\<lambda>c st grp start w. (if memDown w then Some mem_down else None, w))" by (simp add: mem_redis_def)
  have g: "TrimSpace ''s'' = ''s''" "TrimSpace ''g'' = ''g''" "TrimSpace ''c'' = ''c''" by (simp_all add: TrimSpace_visible ascii_visible_def)
  have e: "\<exists>s1. ensureConsumerGroup RequestCtx ''s'' ''g'' (incrementReadRequest (core v)) = (None, s1) \<and> sample_at stored_world (v\<lparr>core := s1\<rparr>)"
    using assms x stored_world_simps(1)
    by (auto simp: ensureConsumerGroup_def rememberConsumerGroup_def sample_at_def Let_def)
  then obtain s1 where s1: "ensureConsumerGroup RequestCtx ''s'' ''g'' (incrementReadRequest (core v)) = (None, s1)" "sample_at stored_world (v\<lparr>core := s1\<rparr>)" by blast
  have r: "\<exists>s2. read_with_retry RequestCtx \<lparr>rrStream = ''s'', rrConsumerGroup = ''g'', rrConsumerName = ''c'', rrCount = 5, rrBlockMS = 1000\<rparr> s1 = (Inr [(''s'', [m])], s2)
     \<and> sample_at read_world (v\<lparr>core := s2\<rparr>)"
    using s1(2) m stored_world_simps(1,2)
    by (auto simp: read_with_retry_def readOnce_def read_args_def mem_XReadGroup_def sample_at_def read_world_def Let_def)
  then obtain s2 where s2: "read_with_retry RequestCtx \<lparr>rrStream = ''s'', rrConsumerGroup = ''g'', rrConsumerName = ''c'', rrCount = 5, rrBlockMS = 1000\<rparr> s1 = (Inr [(''s'', [m])], s2)"
     "sample_at read_world (v\<lparr>core := s2\<rparr>)" by blast
  have c: "cfg (core v) = sample_cfg" "ConsumeMode sample_cfg \<noteq> ConsumeModeDispatcher" "ConsumeStreams sample_cfg = [''s'']"
    using assms by (simp_all add: sample_at_def sample_cfg_def ConsumeModeDispatcher_def)
  show ?thesis using c s1 s2 m
    by (simp add: served_def rpc_Subscribe_def subscribe_stateless_def consumeGroupOnce_def trim_read_def clamp_read_def smoke_subscription_def
        sample_options_def w g on_core_def IsStreamAllowed_iff read_events_def message_event_def read_event_proto_def sample_at_def Let_def)
qed

lemma sample_ack:
  assumes "sample_at read_world v"
  shows "\<exists>v'. cliAck sample_client ctx \<lparr>arStream = oStream sample_options, arConsumerGroup = oGroup sample_options, arEntryIDs = [''1-0'']\<rparr> v = (Inr 1, v')"
proof -
  have w: "int32_wrap 1 = 1" by (simp add: int32_wrap_def)
  have g: "TrimSpace ''s'' = ''s''" "TrimSpace ''g'' = ''g''" by (simp_all add: TrimSpace_visible ascii_visible_def)
  have c: "ConsumeStreams sample_cfg = [''s'']" by (simp add: sample_cfg_def)
  show ?thesis using assms stored_world_simps(1)
    by (simp add: served_def answer_def rpc_Ack_def ackEntriesInternal_def mem_XAck_def sample_at_def sample_options_def on_core_def IsStreamAllowed_iff
        read_world_def g w c Let_def)
qed


end
