(* ===== verification/Sample_Service.thy ===== *)
theory Sample_Service
  imports Service_Run
begin

text \<open>
  A concrete service for the witnesses: the Redis of \<open>Redis_Memory\<close>, a disk whose log holds one line, a codec that writes the payload on a
  line.  The service starts, and a publish to it succeeds.
\<close>

section \<open>A sample service\<close>

definition data_log :: string where "data_log = ''data/sugar-glider.wal.jsonl''"

definition down_sidecar :: "mem_world sidecar" where
  "down_sidecar = (sample_sidecar True)\<lparr>wal := empty_log\<lparr>wal_path := data_log\<rparr>\<rparr>"

definition data_disk :: filesys where
  "data_disk = empty_fs\<lparr>files := [data_log \<mapsto> ''{a}'' @ [newline]]\<rparr>"

definition sample_environment :: "(mem_world, string, string list) environment" where
  "sample_environment = \<lparr>envParseURL = Inr, envNewClient = (\<lambda>_. mem_redis),
     envPipeline = (\<lambda>R cf. \<lparr>pipePublish = (\<lambda>ctx req (w, c). (Inl ErrPublishPipelineStopped, w, c)),
       pipePublishMany = (\<lambda>ctx reqs (w, c). (Inl ErrPublishPipelineStopped, w, c)), pipeQueueLength = (\<lambda>w. 0)\<rparr>),
     envCodec = sample_codec, envProm = sample_prom, envRegister = register_name, envRegistry = [],
     envDisk = data_disk, envWorld = mem_empty\<rparr>"

lemma down_ready: "wal_ready down_sidecar"
  by (simp add: down_sidecar_def wal_ready_def codec_ok_sample wal_inv_def wal_lines_def content_def empty_fs_def empty_log_def terminated_def)

lemma down_normalize: "normalizePublishRequest (sample_req ''a'') '''' down_sidecar = ((sample_req ''a'', StatusOK, None), down_sidecar)"
  by (rule normalize_id)
    (simp_all add: down_sidecar_def publishable_def sample_req_def sample_cfg_def IsStreamAllowed_iff TrimSpace_visible ascii_visible_def)

lemma down_queued:
  "\<exists>po s1. publishInternal RequestCtx (sample_req ''a'') down_sidecar = (po, s1) \<and> poQueued po \<and> disk s1 = data_disk \<and> wal_path (wal s1) = data_log"
proof -
  have p: "publishToRedis ctx (sample_req ''a'') down_sidecar = (Inl mem_down, down_sidecar)" for ctx
    by (simp add: down_sidecar_def publishToRedis_def call_publisher_def Publisher_Publish_def mem_XAdd_def)
  have a: "appendWAL (Error mem_down) (sample_req ''a'') down_sidecar =
      (None, down_sidecar\<lparr>wal := (wal down_sidecar)\<lparr>depth := 1\<rparr>, disk := data_disk\<rparr>)"
    by (simp add: down_sidecar_def data_disk_def appendWAL_def wal_Append_def sample_codec_def sample_req_def empty_log_def empty_fs_def
        os_OpenCreate_def os_AppendWrite_def content_def ascii_visible_def Let_def sample_sidecar_def)
  have "\<not> shouldSkipWALForPublishError None mem_down" by (simp add: shouldSkipWALForPublishError_def mem_down_def)
  moreover have "CtxErr (redis down_sidecar) RequestCtx (world down_sidecar) = None" by (simp add: down_sidecar_def)
  ultimately show ?thesis
    by (simp add: publishInternal_def down_normalize p a Let_def) (simp add: down_sidecar_def empty_log_def)
qed

lemma data_resolve: "resolveWALPath ''data'' data_disk = Inr data_log"
  by (simp add: resolveWALPath_def sample_join os_Stat_def data_disk_def data_log_def empty_fs_def)

lemma sample_started: "\<exists>v d. service_New sample_cfg sample_environment = (Started v, d)"
proof -
  have split: "SplitByte newline (''{a}'' @ [newline]) = [''{a}'', []]" by code_simp
  have "\<exists>n d. countFileLines data_log data_disk = (Inr n, d)"
    using split by (simp add: countFileLines_def os_OpenCreate_def scan_file_def scan_lines_def content_def MaxScanTokenSize_def data_disk_def empty_fs_def)
  moreover have "os_MkdirAll ''data'' data_disk = None" by (simp add: os_MkdirAll_def data_disk_def empty_fs_def)
  ultimately have "\<exists>l d. wal_New ''data'' (Some os) data_disk = (Inr l, d)" for os
    by (auto simp: wal_New_def data_resolve Let_def)
  then obtain l d where w: "wal_New ''data'' (Some \<lparr>MaxEntries = WALMaxEntries sample_cfg, MaxBytes = WALMaxBytes sample_cfg\<rparr>) data_disk = (Inr l, d)"
    by blast
  have dir: "WALDir sample_cfg = ''data''" by (simp add: sample_cfg_def)
  obtain col reg where "metrics_New register_name [] = Some (col, reg)" using metrics_New_registers_witness by blast
  with w show ?thesis unfolding service_New_def Let_def by (simp add: sample_environment_def client_New_def dir)
qed

text \<open>The sample service starts on a log with one line and publishes one message.\<close>

lemma sample_service:
  obtains v d where "service_New sample_cfg sample_environment = (Started v, d)" "redis (core v) = mem_redis" "world (core v) = mem_empty"
    "cfg (core v) = sample_cfg" "publishPipeline (core v) = None" "publisher (core v) = Publisher_Publish mem_redis 1000"
    "log_ok (core v)" "io_ok (core v)" "fs_healthy (wal (core v)) (disk (core v))"
proof -
  obtain v d where n: "service_New sample_cfg sample_environment = (Started v, d)" using sample_started by blast
  have r: "redis (core v) = mem_redis" "world (core v) = mem_empty"
    using n by (auto simp: service_New_def client_New_def sample_environment_def Let_def split: sum.splits prod.splits option.splits if_splits)
  have disk: "envDisk sample_environment = data_disk" by (simp add: sample_environment_def)
  have lines: "log_lines (''{a}'' @ [newline]) = [''{a}'']" by code_simp
  have inv: "wal_inv (empty_log\<lparr>wal_path := data_log, depth := 1\<rparr>) data_disk"
    using lines by (simp add: wal_inv_def wal_lines_def content_def data_disk_def empty_fs_def terminated_def)
  have resolve: "resolveWALPath (WALDir sample_cfg) data_disk = Inr data_log" using data_resolve by (simp add: sample_cfg_def)
  note B = service_New_backlog [OF n, unfolded disk, OF inv]
  from n show thesis
  proof (rule service_New_started)
    fix l
    assume w: "wal_New (WALDir sample_cfg) (Some \<lparr>MaxEntries = WALMaxEntries sample_cfg, MaxBytes = WALMaxBytes sample_cfg\<rparr>)
        (envDisk sample_environment) = (Inr l, d)" "wal (core v) = l" "disk (core v) = d" "cfg (core v) = sample_cfg"
      "walJSON (core v) = envCodec sample_environment" "(publishPipeline (core v) \<noteq> None) = PublishPipelineEnabled sample_cfg"
      "publisher (core v) = Publisher_Publish (redis (core v)) (MaxStreamLen sample_cfg)"
    have "maxEntries l = 0" "maxBytes l = 0" using wal_New_Inr(4,5) [OF w(1)] by (simp_all add: sample_cfg_def)
    then have "log_ok (core v)"
      using B(2) resolve w(2,3,5) codec_ok_sample by (simp add: log_ok_def wal_within_limits_def sample_environment_def)
    moreover have "io_ok (core v)" "fs_healthy (wal (core v)) (disk (core v))"
      using New_faults [OF w(1)] w(3) by (simp_all add: io_ok_def fs_healthy_def sample_environment_def data_disk_def empty_fs_def)
    ultimately show thesis using that [OF n r] w(4,6,7) r by (simp add: sample_cfg_def)
  qed
qed

lemma service_normalize:
  "cfg t = sample_cfg \<Longrightarrow> normalizePublishRequest (sample_req ''a'') '''' t = ((sample_req ''a'', StatusOK, None), t)"
  "cfg t = sample_cfg \<Longrightarrow> normalized (sample_req ''a'') t = sample_req ''a''"
proof -
  show n: "normalizePublishRequest (sample_req ''a'') '''' t = ((sample_req ''a'', StatusOK, None), t)" if "cfg t = sample_cfg"
    by (rule normalize_id) (simp_all add: that publishable_def sample_req_def sample_cfg_def IsStreamAllowed_iff TrimSpace_visible ascii_visible_def)
  show "cfg t = sample_cfg \<Longrightarrow> normalized (sample_req ''a'') t = sample_req ''a''" using n by (simp add: normalized_def)
qed

lemma service_publish:
  assumes "redis t = mem_redis" "world t = mem_empty" "cfg t = sample_cfg" "publishPipeline t = None" "publisher t = Publisher_Publish mem_redis 1000"
  obtains po s' where "publishInternal RequestCtx (sample_req ''a'') t = (po, s')" "poErr po = None"
proof -
  define w where "w = (\<lambda>ctx a. snd (mem_XAdd ctx a mem_empty))"
  have x: "mem_XAdd ctx a mem_empty = (Inr (FormatNat 1 @ ''-0''), w ctx a)" for ctx a
    by (simp add: w_def mem_XAdd_def mem_empty_def Let_def)
  obtain po s' where "publishInternal RequestCtx (sample_req ''a'') t = (po, s')" "poErr po = None"
    using service_normalize(1) [OF assms(3)] assms x
    by (simp add: publishInternal_def publishToRedis_def call_publisher_def Publisher_Publish_def Let_def)
  then show thesis by (rule that)
qed

lemma sample_roundtrip: "codec_roundtrip sample_codec (sample_req ''a'')"
  by (auto simp: codec_roundtrip_def holds_request_def sample_codec_def sample_req_def ascii_visible_def)

end
