(* ===== verification/Interleaving.thy ===== *)
theory Interleaving
  imports Sample_Service
begin

text \<open>
  Publishing and replaying under interleaving: \<open>publishInternal\<close> of \<open>internal/service/service.go\<close> as a thread that can be preempted between
  its calls, and \<open>replayWAL\<close> with \<open>Replay\<close> of \<open>internal/wal/wal.go\<close> line by line, with the two locks they take
  (\<open>replayMu\<close>, which is only tried, and the mutex of the log).  Any number of publishes, one replay, the other goroutines and
  faults of the file system take turns.  \<open>publishInternal\<close> and \<open>replayWAL\<close> of \<open>Sidecar\<close> are the schedules without preemption.
\<close>

section \<open>Replay in steps\<close>

text \<open>Up to the loop: the result when the replay ends there, or the scanned tokens and the error of the scanner.  The file is scanned at
  once: its content does not change while the mutex of the log is held.\<close>

definition replay_open :: "int \<Rightarrow> wal_log \<Rightarrow> filesys \<Rightarrow> ((int \<times> go_error option) + (string list \<times> go_error option)) \<times> filesys" where
  "replay_open limit l fs =
     (if limit = 0 then (Inl (0, None), fs)
      else if limit < 0 then (Inl (0, Some (ErrMsg ''maxEntries must be >= 0'')), fs)
      else case os_OpenCreate (wal_path l) fs of
        (Some err, fs1) \<Rightarrow> (Inl (0, Some err), fs1)
      | (None, fs1) \<Rightarrow> (Inr (scan_file replayScanLimit (wal_path l) fs1), fs1))"

text \<open>The body of the loop, on \<open>replayed\<close>, \<open>remaining\<close> and \<open>processing\<close>.\<close>

type_synonym replay_vars = "int \<times> string list \<times> bool"

definition replay_line ::
  "wal_codec \<Rightarrow> (PublishRequest \<Rightarrow> 'w \<Rightarrow> go_error option \<times> 'w) \<Rightarrow> int \<Rightarrow> string \<Rightarrow> replay_vars \<times> 'w \<Rightarrow> replay_vars \<times> 'w" where
  "replay_line J publish limit token st =
     (case st of ((replayed, remaining, processing), w) \<Rightarrow>
       let line = TrimSpace token in
       if line = '''' then st
       else if \<not> processing then ((replayed, remaining @ [line], processing), w)
       else if replayed \<ge> limit then ((replayed, remaining @ [line], False), w)
       else case Unmarshal J line of
         Inl err \<Rightarrow> ((replayed, remaining @ [line], processing), w)
       | Inr entry \<Rightarrow>
           (case publish (eRequest entry) w of
              (Some err, w1) \<Rightarrow> ((replayed, remaining @ [line], False), w1)
            | (None, w1) \<Rightarrow> ((replayed + 1, remaining, processing), w1)))"

text \<open>After the loop.\<close>

definition replay_finish ::
  "go_error option \<Rightarrow> int \<Rightarrow> string list \<Rightarrow> wal_log \<Rightarrow> filesys \<Rightarrow> (int \<times> go_error option) \<times> wal_log \<times> filesys" where
  "replay_finish scanErr replayed remaining l fs =
     (case scanErr of
        Some err \<Rightarrow> ((replayed, Some err), l, fs)
      | None \<Rightarrow>
          if replayed = 0 \<and> remaining = [] then ((0, None), l, fs)
          else (case wal_rewrite l remaining fs of
                  (Some err, fs1) \<Rightarrow> ((replayed, Some err), l, fs1)
                | (None, fs1) \<Rightarrow> ((replayed, None), if replayed > 0 then l\<lparr>depth := depth l - replayed\<rparr> else l, fs1)))"

lemma replay_loop_lines:
  "replay_loop J publish limit tokens n rem proc w =
     (case fold (replay_line J publish limit) tokens ((n, rem, proc), w) of ((n', rem', proc'), w') \<Rightarrow> (n', rem', w'))"
proof (induction tokens arbitrary: n rem proc w)
  case (Cons token tokens)
  show ?case by (auto simp: replay_line_def Let_def Cons.IH split: sum.splits option.splits prod.splits)
qed simp

text \<open>Without interference these steps are \<open>Replay\<close>.\<close>

lemma wal_Replay_steps:
  "wal_Replay J publish limit l fs w =
     (case replay_open limit l fs of
        (Inl r, fs1) \<Rightarrow> (r, l, fs1, w)
      | (Inr (tokens, scanErr), fs1) \<Rightarrow>
          (case fold (replay_line J publish limit) tokens ((0, [], True), w) of
             ((n, rem, proc), w1) \<Rightarrow> (case replay_finish scanErr n rem l fs1 of (r, l', fs2) \<Rightarrow> (r, l', fs2, w1))))"
  by (auto simp: wal_Replay_def replay_open_def replay_finish_def replay_loop_lines split: prod.splits option.splits)

text \<open>What the lines handled so far have become: they remain, in order, or their requests are published.\<close>

definition lines_handled :: "XAddArgs set \<Rightarrow> wal_codec \<Rightarrow> string list \<Rightarrow> int \<Rightarrow> string list \<Rightarrow> bool" where
  "lines_handled added J pre n rem \<longleftrightarrow>
     subseq rem pre \<and> 0 \<le> n \<and> int (length rem) + n = int (length pre) \<and> (\<forall>x\<in>set pre. handed_over added J rem x)"

lemma lines_handled_mono: "lines_handled X J pre n rem \<Longrightarrow> X \<subseteq> Y \<Longrightarrow> lines_handled Y J pre n rem"
  using published_mono unfolding lines_handled_def handed_over_def by metis

lemma lines_handled_keep: "lines_handled X J pre n rem \<Longrightarrow> lines_handled X J (pre @ [x]) n (rem @ [x])"
  by (auto simp: lines_handled_def handed_over_def subseq_append)

lemma lines_handled_publish:
  assumes "lines_handled X J pre n rem" "Unmarshal J x = Inr e" "published X (eRequest e)"
  shows "lines_handled X J (pre @ [x]) (n + 1) rem"
  using assms by (auto simp: lines_handled_def handed_over_def intro: list_emb_append2)

lemma subseq_line_bytes: "subseq xs ys \<Longrightarrow> line_bytes xs \<le> line_bytes ys"
  by (induction rule: list_emb.induct) auto

text \<open>The end of a replay keeps the log sound, and leaves in it the lines that remain.\<close>

lemma replay_finish_keeps:
  assumes "wal_inv l fs" "wal_within_limits l fs" "scanErr = None \<Longrightarrow> lines_handled X J (wal_lines l fs) n rem"
    and "replay_finish scanErr n rem l fs = ((m, err), l', fs')"
  shows "wal_inv l' fs' \<and> wal_within_limits l' fs' \<and> maxEntries l' = maxEntries l \<and> maxBytes l' = maxBytes l \<and> wal_path l' = wal_path l"
    "\<forall>x\<in>set (wal_lines l fs). handed_over X J (wal_lines l' fs') x"
proof -
  have "wal_inv l' fs' \<and> wal_within_limits l' fs' \<and> maxEntries l' = maxEntries l \<and> maxBytes l' = maxBytes l \<and> wal_path l' = wal_path l \<and>
    (\<forall>x\<in>set (wal_lines l fs). handed_over X J (wal_lines l' fs') x)"
  proof (cases "\<exists>fs1. scanErr = None \<and> \<not> (n = 0 \<and> rem = []) \<and> wal_rewrite l rem fs = (None, fs1)")
    case False
    then have "l' = l \<and> content (wal_path l) fs' = content (wal_path l) fs"
      using assms(4) content_rewrite_fails by (auto simp: replay_finish_def split: option.splits if_splits prod.splits)
    then show ?thesis using assms(1,2) by (simp add: wal_inv_def wal_lines_def wal_within_limits_def handed_over_def)
  next
    case True
    then have h: "lines_handled X J (wal_lines l fs) n rem" and w: "wal_rewrite l rem fs = (None, fs')" and l': "wal_path l' = wal_path l" "depth l' = depth l - n"
        "maxEntries l' = maxEntries l" "maxBytes l' = maxBytes l"
      using assms(3,4) by (auto simp: replay_finish_def lines_handled_def)
    have "set rem \<subseteq> set (wal_lines l fs)" using h by (auto simp: lines_handled_def dest: list_emb_set)
    then have "\<forall>x\<in>set rem. stored_line x" using set_log_lines by (auto simp: wal_lines_def)
    note lines = wal_rewrite_lines [OF w this]
    have "line_bytes rem \<le> length (content (wal_path l) fs)"
      using h subseq_line_bytes [of rem "wal_lines l fs"] line_bytes_log_lines [of "content (wal_path l) fs"] assms(1)
      by (auto simp: lines_handled_def wal_inv_def wal_lines_def)
    then have "length (content (wal_path l) fs') \<le> length (content (wal_path l) fs)" using length_content_rewrite [OF w] by simp
    then show ?thesis using lines h assms(1,2) l' by (auto simp: wal_inv_def wal_within_limits_def wal_lines_def lines_handled_def)
  qed
  then show "wal_inv l' fs' \<and> wal_within_limits l' fs' \<and> maxEntries l' = maxEntries l \<and> maxBytes l' = maxBytes l \<and> wal_path l' = wal_path l"
    "\<forall>x\<in>set (wal_lines l fs). handed_over X J (wal_lines l' fs') x" by blast+
qed

section \<open>Threads\<close>

text \<open>Where a publish is: each constructor is a point between two calls of \<open>publishInternal\<close>, with the local variables that are live there.\<close>

datatype publish_pc =
    Arrived
  | AtRedis PublishRequest
  | RedisFailed PublishRequest go_error
  | AtLog PublishRequest go_error
  | Logged PublishRequest
  | RedisDone PublishRequest string
  | AtReplay PublishRequest string
  | InReplay PublishRequest string
  | Answered publish_outcome

record publish_thread =
  tCtx :: ctx
  tRaw :: PublishRequest
  tPc :: publish_pc

text \<open>Where the replay is, with the number of the publish that runs it (none for the background loop): \<open>replayMu\<close> is held and the
  mutex of the log awaited; the loop, holding both; after \<open>Replay\<close> has returned, holding \<open>replayMu\<close> alone.\<close>

datatype replay_pc =
    ReplayIdle
  | ReplayWaiting ctx "nat option"
  | ReplayLoop ctx "nat option" "string list" replay_vars "go_error option"
  | ReplayReturned "nat option" int "go_error option"

record 'w machine =
  side :: "'w sidecar"
  replayer :: replay_pc
  publishers :: "publish_thread list"

fun log_locked :: "replay_pc \<Rightarrow> bool" where
  "log_locked (ReplayLoop ctx own tokens vars scanErr) = True"
| "log_locked _ = False"

definition thread_to :: "nat \<Rightarrow> publish_pc \<Rightarrow> 'w sidecar \<Rightarrow> 'w machine \<Rightarrow> 'w machine" where
  "thread_to i pc s c = c\<lparr>side := s, publishers := (publishers c)[i := (publishers c ! i)\<lparr>tPc := pc\<rparr>]\<rparr>"

definition entry_outcome :: "string \<Rightarrow> publish_outcome" where
  "entry_outcome eid = \<lparr>poEntryID = eid, poQueued = False, poWalDepth = 0, poStatus = StatusOK, poErr = None\<rparr>"

text \<open>The next step of one publish; it waits for the mutex of the log, and for the replay it runs itself.\<close>

definition publish_next :: "nat \<Rightarrow> 'w machine \<Rightarrow> 'w machine option" where
  "publish_next i c =
     (let s = side c; ctx = tCtx (publishers c ! i) in
      case tPc (publishers c ! i) of
        Arrived \<Rightarrow>
          (case normalizePublishRequest (tRaw (publishers c ! i)) '''' s of
             ((req, code, Some normErr), s1) \<Rightarrow> Some (thread_to i (Answered (failed code normErr)) s1 c)
           | ((req, code, None), s1) \<Rightarrow> Some (thread_to i (AtRedis req) s1 c))
      | AtRedis req \<Rightarrow>
          (case publishToRedis (publishRedisContext ctx) req s of
             (Inl pubErr, s1) \<Rightarrow> Some (thread_to i (RedisFailed req pubErr) s1 c)
           | (Inr eid, s1) \<Rightarrow> Some (thread_to i (RedisDone req eid) s1 c))
      | RedisFailed req pubErr \<Rightarrow>
          if shouldSkipWALForPublishError (CtxErr (redis s) ctx (world s)) pubErr
          then Some (thread_to i (Answered (failed StatusGatewayTimeout pubErr)) (incrementError s) c)
          else Some (thread_to i (AtLog req pubErr) s c)
      | AtLog req pubErr \<Rightarrow>
          if log_locked (replayer c) then None
          else (case appendWAL (Error pubErr) req s of
                  (Some appendErr, s1) \<Rightarrow>
                    Some (thread_to i (Answered (failed StatusServiceUnavailable
                      (if errors_Is appendErr ErrWALFull \<or> errors_Is appendErr ErrWALDiskFull
                       then ErrMsg ''redis unavailable and wal is full'' else ErrMsg ''redis unavailable and wal append failed''))) (incrementError s1) c)
                | (None, s1) \<Rightarrow> Some (thread_to i (Logged req) s1 c))
      | Logged req \<Rightarrow>
          (let s1 = incrementPublishQueued s
           in Some (thread_to i (Answered \<lparr>poEntryID = '''', poQueued = True, poWalDepth = wal_Depth (wal s1),
                                           poStatus = StatusServiceUnavailable, poErr = None\<rparr>) s1 c))
      | RedisDone req eid \<Rightarrow>
          (let s1 = incrementPublishSuccess s
           in if WALReplayMode (cfg s1) = WALReplayModeSyncOnSuccess
              then Some (thread_to i (AtReplay req eid) (incrementWALReplaySyncCall s1) c)
              else Some (thread_to i (Answered (entry_outcome eid)) s1 c))
      | AtReplay req eid \<Rightarrow>
          if WALReplayBatch (cfg s) = 0 \<or> replayMu s then Some (thread_to i (Answered (entry_outcome eid)) s c)
          else Some ((thread_to i (InReplay req eid) (s\<lparr>replayMu := True\<rparr>) c)\<lparr>replayer := ReplayWaiting ctx (Some i)\<rparr>)
      | InReplay req eid \<Rightarrow> None
      | Answered po \<Rightarrow> None)"

text \<open>When the replay of a publish has ended, the publish returns.\<close>

definition return_to :: "nat option \<Rightarrow> publish_thread list \<Rightarrow> publish_thread list" where
  "return_to own ts =
     (case own of
        None \<Rightarrow> ts
      | Some i \<Rightarrow> (case tPc (ts ! i) of InReplay req eid \<Rightarrow> ts[i := (ts ! i)\<lparr>tPc := Answered (entry_outcome eid)\<rparr>] | _ \<Rightarrow> ts))"

definition replay_next :: "'w machine \<Rightarrow> 'w machine option" where
  "replay_next c =
     (let s = side c; limit = WALReplayBatch (cfg s) in
      case replayer c of
        ReplayIdle \<Rightarrow> None
      | ReplayWaiting ctx own \<Rightarrow>
          (case replay_open limit (wal s) (disk s) of
             (Inl (n, err), d) \<Rightarrow> Some (c\<lparr>side := s\<lparr>disk := d\<rparr>, replayer := ReplayReturned own n err\<rparr>)
           | (Inr (tokens, scanErr), d) \<Rightarrow>
               Some (c\<lparr>side := s\<lparr>disk := d\<rparr>, replayer := ReplayLoop ctx own tokens (0, [], True) scanErr\<rparr>))
      | ReplayLoop ctx own (token # tokens) vars scanErr \<Rightarrow>
          (case replay_line (walJSON s) (replay_publish ctx s) limit token (vars, world s) of
             (vars1, w) \<Rightarrow> Some (c\<lparr>side := s\<lparr>world := w\<rparr>, replayer := ReplayLoop ctx own tokens vars1 scanErr\<rparr>))
      | ReplayLoop ctx own [] (replayed, remaining, processing) scanErr \<Rightarrow>
          (case replay_finish scanErr replayed remaining (wal s) (disk s) of
             ((n, err), l, d) \<Rightarrow> Some (c\<lparr>side := s\<lparr>wal := l, disk := d\<rparr>, replayer := ReplayReturned own n err\<rparr>))
      | ReplayReturned own n err \<Rightarrow>
          (let s1 = (case err of Some _ \<Rightarrow> incrementError s | None \<Rightarrow> if n > 0 then incrementWALReplayed (word_of_int n) s else s)
           in Some (c\<lparr>side := s1\<lparr>replayMu := False\<rparr>, replayer := ReplayIdle, publishers := return_to own (publishers c)\<rparr>)))"

text \<open>
  All steps: a request arrives, a publish or the replay moves on, the background loop takes \<open>replayMu\<close>, other goroutines and other clients of
  Redis act, faults of the file system come and go.  As in \<open>serve_step\<close>, an append needs the file to be examined and
  written in full.
\<close>

definition at_log :: "nat \<Rightarrow> 'w machine \<Rightarrow> bool" where
  "at_log i c \<longleftrightarrow> (case tPc (publishers c ! i) of AtLog _ _ \<Rightarrow> True | _ \<Rightarrow> False)"

inductive machine_step :: "('w \<Rightarrow> XAddArgs set) \<Rightarrow> 'w machine \<Rightarrow> 'w machine \<Rightarrow> bool" for H where
  arrive: "machine_step H c (c\<lparr>publishers := publishers c @ [\<lparr>tCtx = ctx, tRaw = req, tPc = Arrived\<rparr>]\<rparr>)"
| publisher_moves: "i < length (publishers c) \<Longrightarrow> publish_next i c = Some c' \<Longrightarrow> at_log i c \<longrightarrow> io_ok (side c) \<Longrightarrow> machine_step H c c'"
| replayer_moves: "replay_next c = Some c' \<Longrightarrow> machine_step H c c'"
| background: "replay_loop_enabled (side c) \<Longrightarrow> \<not> replayMu (side c) \<Longrightarrow>
    machine_step H c (c\<lparr>side := (side c)\<lparr>replayMu := True\<rparr>, replayer := ReplayWaiting ctx None\<rparr>)"
| others: "soft H (side c) s' \<Longrightarrow> machine_step H c (c\<lparr>side := s'\<rparr>)"
| faults: "files fs' = files (disk (side c)) \<Longrightarrow> machine_step H c (c\<lparr>side := (side c)\<lparr>disk := fs'\<rparr>\<rparr>)"

section \<open>Invariant\<close>

text \<open>Changes of the sidecar that keep what the log holds.\<close>

definition quiet :: "('w \<Rightarrow> XAddArgs set) \<Rightarrow> 'w sidecar \<Rightarrow> 'w sidecar \<Rightarrow> bool" where
  "quiet H s s' \<longleftrightarrow> H (world s) \<subseteq> H (world s') \<and> (\<forall>p. content p (disk s') = content p (disk s)) \<and>
     s' = s\<lparr>world := world s', collector := collector s', consumerGroupsEnsured := consumerGroupsEnsured s', replayMu := replayMu s', disk := disk s'\<rparr>"

lemma quietD:
  assumes "quiet H s s'"
  shows "H (world s) \<subseteq> H (world s')" "cfg s' = cfg s" "redis s' = redis s" "publisher s' = publisher s"
    "publishPipeline s' = publishPipeline s" "wal s' = wal s" "walJSON s' = walJSON s" "content p (disk s') = content p (disk s)"
  using assms by (cases s; cases s'; simp add: quiet_def)+

lemma quiet_soft: "soft H s s' \<Longrightarrow> quiet H s s'"
  by (cases s; cases s') (auto simp: soft_def quiet_def)

lemma quiet_refl [simp]: "quiet H s s"
  by (simp add: quiet_def)

lemma quiet_update [simp]:
  "quiet H s (on_collector f t) \<longleftrightarrow> quiet H s t" "quiet H s (t\<lparr>replayMu := b\<rparr>) \<longleftrightarrow> quiet H s t"
  by (cases s; cases t; simp add: quiet_def on_collector_def)+

lemma quiet_disk: "(\<And>p. content p d = content p (disk s)) \<Longrightarrow> quiet H s (s\<lparr>disk := d\<rparr>)"
  by (cases s) (simp add: quiet_def)

lemma quiet_world: "H (world s) \<subseteq> H w \<Longrightarrow> quiet H s (s\<lparr>world := w\<rparr>)"
  by (cases s) (simp add: quiet_def)

lemma quiet_keeps_log:
  assumes "quiet H s s'"
  shows "log_ok s' \<longleftrightarrow> log_ok s" "backlog s' = backlog s" "connected R H s' \<longleftrightarrow> connected R H s"
  using quietD [OF assms] by (simp_all add: log_ok_def wal_inv_def wal_lines_def wal_within_limits_def connected_def)

lemma quiet_secured: "quiet H s s' \<Longrightarrow> secured H s req \<Longrightarrow> secured H s' req"
  using quietD(1,7) quiet_keeps_log(2) published_mono unfolding secured_def by metis

text \<open>Covered: a request that the codec of the log gives back is in Redis or in the log.\<close>

definition covered :: "('w \<Rightarrow> XAddArgs set) \<Rightarrow> 'w sidecar \<Rightarrow> PublishRequest \<Rightarrow> bool" where
  "covered H s req \<longleftrightarrow> (codec_roundtrip (walJSON s) req \<longrightarrow> secured H s req)"

definition thread_safe :: "('w \<Rightarrow> XAddArgs set) \<Rightarrow> 'w sidecar \<Rightarrow> publish_thread \<Rightarrow> bool" where
  "thread_safe H s t \<longleftrightarrow>
     (let req = normalized (tRaw t) s in
      case tPc t of
        Arrived \<Rightarrow> True
      | AtRedis r \<Rightarrow> r = req
      | RedisFailed r err \<Rightarrow> r = req
      | AtLog r err \<Rightarrow> r = req
      | Logged r \<Rightarrow> covered H s req
      | RedisDone r eid \<Rightarrow> covered H s req
      | AtReplay r eid \<Rightarrow> covered H s req
      | InReplay r eid \<Rightarrow> covered H s req
      | Answered po \<Rightarrow> poErr po = None \<longrightarrow> covered H s req)"

fun replay_safe :: "('w \<Rightarrow> XAddArgs set) \<Rightarrow> 'w sidecar \<Rightarrow> replay_pc \<Rightarrow> bool" where
  "replay_safe H s (ReplayLoop ctx own tokens (n, rem, proc) scanErr) \<longleftrightarrow>
     (scanErr = None \<longrightarrow> (\<exists>pre. backlog s = pre @ nonblank tokens \<and> lines_handled (H (world s)) (walJSON s) pre n rem))"
| "replay_safe H s _ \<longleftrightarrow> True"

fun replay_owner :: "replay_pc \<Rightarrow> nat option" where
  "replay_owner ReplayIdle = None"
| "replay_owner (ReplayWaiting ctx own) = own"
| "replay_owner (ReplayLoop ctx own tokens vars scanErr) = own"
| "replay_owner (ReplayReturned own n err) = own"

definition in_replay :: "publish_thread \<Rightarrow> bool" where
  "in_replay t \<longleftrightarrow> (case tPc t of InReplay _ _ \<Rightarrow> True | _ \<Rightarrow> False)"

lemma return_to_left:
  assumes "\<And>i. i < length ts \<Longrightarrow> in_replay (ts ! i) \<Longrightarrow> own = Some i" "j < length (return_to own ts)"
  shows "\<not> in_replay (return_to own ts ! j)"
  using assms(1) [of j] assms(2)
  by (cases "own = Some j") (auto simp: return_to_def in_replay_def split: option.splits publish_pc.splits)

definition side_inv :: "'w redis \<Rightarrow> ('w \<Rightarrow> XAddArgs set) \<Rightarrow> Config \<Rightarrow> wal_codec \<Rightarrow> int \<Rightarrow> int \<Rightarrow> 'w sidecar \<Rightarrow> bool" where
  "side_inv R H cf J me mb s \<longleftrightarrow> connected R H s \<and> log_ok s \<and> cfg s = cf \<and> walJSON s = J \<and> maxEntries (wal s) = me \<and> maxBytes (wal s) = mb"

definition machine_inv :: "'w redis \<Rightarrow> ('w \<Rightarrow> XAddArgs set) \<Rightarrow> Config \<Rightarrow> wal_codec \<Rightarrow> int \<Rightarrow> int \<Rightarrow> 'w machine \<Rightarrow> bool" where
  "machine_inv R H cf J me mb c \<longleftrightarrow>
     side_inv R H cf J me mb (side c) \<and> (replayMu (side c) \<longleftrightarrow> replayer c \<noteq> ReplayIdle) \<and> replay_safe H (side c) (replayer c) \<and>
     (\<forall>t\<in>set (publishers c). thread_safe H (side c) t) \<and>
     (\<forall>i<length (publishers c). in_replay (publishers c ! i) \<longrightarrow> replay_owner (replayer c) = Some i)"

lemma machine_invD:
  assumes "machine_inv R H cf J me mb c"
  shows "side_inv R H cf J me mb (side c)" "replayMu (side c) \<longleftrightarrow> replayer c \<noteq> ReplayIdle" "replay_safe H (side c) (replayer c)"
    "t \<in> set (publishers c) \<Longrightarrow> thread_safe H (side c) t"
    "i < length (publishers c) \<Longrightarrow> in_replay (publishers c ! i) \<Longrightarrow> replay_owner (replayer c) = Some i"
  using assms by (simp_all add: machine_inv_def)

lemma thread_safe_step:
  assumes "thread_safe H s t" "cfg s' = cfg s" "\<And>req. covered H s req \<Longrightarrow> covered H s' req"
  shows "thread_safe H s' t"
  using assms(1,3) normalized_cfg [OF assms(2)] by (cases "tPc t") (auto simp: thread_safe_def)

lemma covered_quiet: "quiet H s s' \<Longrightarrow> covered H s req \<Longrightarrow> covered H s' req"
  using quiet_secured quietD(7) unfolding covered_def by metis

lemma thread_safe_quiet: "quiet H s s' \<Longrightarrow> thread_safe H s t \<Longrightarrow> thread_safe H s' t"
  using thread_safe_step covered_quiet quietD(2) by metis

lemma replay_safe_quiet:
  assumes "quiet H s s'" "replay_safe H s r"
  shows "replay_safe H s' r"
proof (cases "(H, s, r)" rule: replay_safe.cases)
  case (1 H0 s0 ctx own tokens n rem proc scanErr)
  then show ?thesis
    using assms quiet_keeps_log(2) [OF assms(1)] quietD(7) [OF assms(1)] lines_handled_mono [OF _ quietD(1) [OF assms(1)]] by fastforce
qed (use assms in auto)

lemma side_inv_quiet: "quiet H s s' \<Longrightarrow> side_inv R H cf J me mb s' \<longleftrightarrow> side_inv R H cf J me mb s"
  using quietD [of H s s'] quiet_keeps_log [of H s s'] by (simp add: side_inv_def)

text \<open>A thread moves on while the sidecar changes quietly.\<close>

lemma thread_moves_inv:
  assumes "machine_inv R H cf J me mb c" "quiet H (side c) s'" "replayMu s' = replayMu (side c)" "i < length (publishers c)"
    and "thread_safe H s' ((publishers c ! i)\<lparr>tPc := pc\<rparr>)" "\<And>r eid. pc \<noteq> InReplay r eid"
  shows "machine_inv R H cf J me mb (thread_to i pc s' c)"
  unfolding machine_inv_def
proof (intro conjI ballI allI impI)
  note I = machine_invD [OF assms(1)]
  show "side_inv R H cf J me mb (side (thread_to i pc s' c))" using I(1) side_inv_quiet [OF assms(2)] by (simp add: thread_to_def)
  show "replayMu (side (thread_to i pc s' c)) \<longleftrightarrow> replayer (thread_to i pc s' c) \<noteq> ReplayIdle" using I(2) assms(3) by (simp add: thread_to_def)
  show "replay_safe H (side (thread_to i pc s' c)) (replayer (thread_to i pc s' c))"
    using replay_safe_quiet [OF assms(2) I(3)] by (simp add: thread_to_def)
  show "thread_safe H (side (thread_to i pc s' c)) t" if "t \<in> set (publishers (thread_to i pc s' c))" for t
    using that assms(5) thread_safe_quiet [OF assms(2) I(4)] set_update_subset_insert [of "publishers c" i] by (auto simp: thread_to_def)
  show "replay_owner (replayer (thread_to i pc s' c)) = Some k"
    if "k < length (publishers (thread_to i pc s' c))" "in_replay (publishers (thread_to i pc s' c) ! k)" for k
    using that I(5) [of k] assms(4,6) by (cases "k = i") (auto simp: thread_to_def in_replay_def split: publish_pc.splits)
qed

context redis_history
begin

lemma append_inv:
  assumes "machine_inv R H cf J me mb c" "i < length (publishers c)" "\<not> log_locked (replayer c)" "io_ok (side c)"
    and "tPc (publishers c ! i) = AtLog req pubErr" "appendWAL (Error pubErr) req (side c) = (err, s')"
    and "pc = (case err of None \<Rightarrow> Logged req | Some e \<Rightarrow> Answered (failed StatusServiceUnavailable (f e)))" "s'' = (case err of None \<Rightarrow> s' | Some e \<Rightarrow> incrementError s')"
  shows "machine_inv R H cf J me mb (thread_to i pc s'' c)"
proof -
  note I = machine_invD [OF assms(1)]
  have R: "redis (side c) = R" "log_ok (side c)" using I(1) by (simp_all add: side_inv_def connected_def)
  note A = append_keeps [OF assms(6) R(1)]
  have k: "keeps True H (side c) s''" using A(1) assms(8) by (cases err) simp_all
  note kept = keepsD(9) [OF k R(2)]
  have "log_kept H (side c) s''" using kept assms(4) by simp
  then have cov: "covered H (side c) r \<Longrightarrow> covered H s'' r" for r
    using secured_keeps [OF k R(2)] assms(4) keepsD(7) [OF k] unfolding covered_def by auto
  have same: "cfg s'' = cfg (side c)" "walJSON s'' = walJSON (side c)" "replayMu s'' = replayMu (side c)" using keepsD [OF k] by simp_all
  have req: "req = normalized (tRaw (publishers c ! i)) (side c)"
    using I(4) [OF nth_mem [OF assms(2)]] assms(5) by (simp add: thread_safe_def)
  then have new: "thread_safe H s'' ((publishers c ! i)\<lparr>tPc := pc\<rparr>)"
    using A(2) R(2) assms(7,8) normalized_cfg [OF same(1)] by (cases err) (simp_all add: thread_safe_def covered_def failed_def)
  have side: "side_inv R H cf J me mb s''"
    using I(1) kept assms(4) connected_keeps [OF k] same by (simp add: side_inv_def log_kept_def)
  have rs: "replay_safe H s'' (replayer c)" using assms(3) by (cases "replayer c") auto
  have pc: "\<not> in_replay ((publishers c ! i)\<lparr>tPc := pc\<rparr>)" using assms(7) by (cases err) (simp_all add: in_replay_def)
  show ?thesis
    unfolding machine_inv_def
  proof (intro conjI ballI allI impI)
    show "thread_safe H (side (thread_to i pc s'' c)) t" if "t \<in> set (publishers (thread_to i pc s'' c))" for t
      using that new thread_safe_step [OF I(4) same(1) cov] set_update_subset_insert [of "publishers c" i] by (auto simp: thread_to_def)
    show "replay_owner (replayer (thread_to i pc s'' c)) = Some j"
      if "j < length (publishers (thread_to i pc s'' c))" "in_replay (publishers (thread_to i pc s'' c) ! j)" for j
      using that I(5) [of j] assms(2) pc by (cases "j = i") (simp_all add: thread_to_def)
  qed (use side I(2) same(3) rs in \<open>simp_all add: thread_to_def\<close>)
qed

lemma arrived_inv:
  assumes "machine_inv R H cf J me mb c" "i < length (publishers c)" "tPc (publishers c ! i) = Arrived" "publish_next i c = Some c'"
  shows "machine_inv R H cf J me mb c'"
proof -
  let ?t = "publishers c ! i" and ?s = "side c"
  note move = thread_moves_inv [OF assms(1) _ _ assms(2)]
  obtain req code err s1 where n: "normalizePublishRequest (tRaw ?t) '''' ?s = ((req, code, err), s1)" by (metis prod_cases3 surj_pair)
  have q: "quiet H ?s s1 \<and> replayMu s1 = replayMu ?s" using normalize_ok(1) normalize_error(1) n by (cases err) fastforce+
  show ?thesis
  proof (cases err)
    case None
    then have "c' = thread_to i (AtRedis req) s1 c" using assms(3,4) n by (simp add: publish_next_def)
    moreover have "req = normalized (tRaw ?t) s1" using n normalized_cfg quietD(2) q by (metis fst_conv normalized_def)
    ultimately show ?thesis using move [of s1 "AtRedis req"] q by (simp add: thread_safe_def)
  next
    case (Some e)
    then have "c' = thread_to i (Answered (failed code e)) s1 c" using assms(3,4) n by (simp add: publish_next_def)
    then show ?thesis using move [of s1 "Answered (failed code e)"] q by (simp add: thread_safe_def failed_def)
  qed
qed

lemma at_redis_inv:
  assumes "machine_inv R H cf J me mb c" "i < length (publishers c)" "tPc (publishers c ! i) = AtRedis req" "publish_next i c = Some c'"
  shows "machine_inv R H cf J me mb c'"
proof -
  let ?t = "publishers c ! i" and ?s = "side c"
  note I = machine_invD [OF assms(1)]
  note move = thread_moves_inv [OF assms(1) _ _ assms(2)]
  have conn: "connected R H ?s" and safe: "thread_safe H ?s ?t" using I(1,4) assms(2) by (simp_all add: side_inv_def)
  obtain r s1 where p: "publishToRedis (publishRedisContext (tCtx ?t)) req ?s = (r, s1)" by fastforce
  note ps = publish_soft [OF p conn]
  have q: "quiet H ?s s1" "replayMu s1 = replayMu ?s" using quiet_soft [OF ps(1)] softD(7) [OF ps(1)] by simp_all
  have req: "req = normalized (tRaw ?t) s1" using safe assms(3) normalized_cfg [OF quietD(2) [OF q(1)]] by (simp add: thread_safe_def)
  show ?thesis
  proof (cases r)
    case (Inl e)
    then have "c' = thread_to i (RedisFailed req e) s1 c" using assms(3,4) p by (simp add: publish_next_def)
    then show ?thesis using move [of s1 "RedisFailed req e"] q req by (simp add: thread_safe_def)
  next
    case (Inr eid)
    then have c': "c' = thread_to i (RedisDone req eid) s1 c" using assms(3,4) p by (simp add: publish_next_def)
    have "covered H s1 req" using ps(2) Inr by (simp add: covered_def secured_def)
    then show ?thesis using move [of s1 "RedisDone req eid"] q req c' by (simp add: thread_safe_def)
  qed
qed

lemma start_replay_inv:
  assumes "machine_inv R H cf J me mb c" "i < length (publishers c)" "tPc (publishers c ! i) = AtReplay req eid" "\<not> replayMu (side c)"
    and "c' = (thread_to i (InReplay req eid) ((side c)\<lparr>replayMu := True\<rparr>) c)\<lparr>replayer := ReplayWaiting ctx (Some i)\<rparr>"
  shows "machine_inv R H cf J me mb c'"
proof -
  let ?t = "publishers c ! i" and ?s = "side c"
  note I = machine_invD [OF assms(1)]
  have idle: "replayer c = ReplayIdle" using I(2) assms(4) by simp
  have q: "quiet H ?s (?s\<lparr>replayMu := True\<rparr>)" by simp
  have "covered H ?s (normalized (tRaw ?t) ?s)" using I(4) [OF nth_mem [OF assms(2)]] assms(3) by (simp add: thread_safe_def)
  then have new: "thread_safe H (?s\<lparr>replayMu := True\<rparr>) (?t\<lparr>tPc := InReplay req eid\<rparr>)"
    using covered_quiet [OF q] normalized_cfg [of "?s\<lparr>replayMu := True\<rparr>" ?s] by (simp add: thread_safe_def)
  show ?thesis
    unfolding machine_inv_def
  proof (intro conjI ballI allI impI)
    show "thread_safe H (side c') t" if "t \<in> set (publishers c')" for t
      using that new thread_safe_quiet [OF q I(4)] set_update_subset_insert [of "publishers c" i] by (auto simp: assms(5) thread_to_def)
    show "replay_owner (replayer c') = Some j" if "j < length (publishers c')" "in_replay (publishers c' ! j)" for j
      using that I(5) [of j] idle by (cases "j = i") (simp_all add: assms(5) thread_to_def)
  qed (use I(1) side_inv_quiet [OF q] in \<open>simp_all add: assms(5) thread_to_def\<close>)
qed

lemma publish_next_inv:
  assumes "machine_inv R H cf J me mb c" "i < length (publishers c)" "publish_next i c = Some c'" "at_log i c \<longrightarrow> io_ok (side c)"
  shows "machine_inv R H cf J me mb c'"
proof -
  let ?t = "publishers c ! i" and ?s = "side c"
  have safe: "thread_safe H ?s ?t" using machine_invD(4) [OF assms(1)] assms(2) by simp
  note move = thread_moves_inv [OF assms(1) _ _ assms(2)]
  show ?thesis
  proof (cases "tPc ?t")
    case (RedisFailed req e)
    define skip where "skip = shouldSkipWALForPublishError (CtxErr (redis ?s) (tCtx ?t) (world ?s)) e"
    have "c' = (if skip then thread_to i (Answered (failed StatusGatewayTimeout e)) (incrementError ?s) c else thread_to i (AtLog req e) ?s c)"
      using assms(3) RedisFailed by (auto simp: publish_next_def skip_def)
    then show ?thesis
      using move [of "incrementError ?s" "Answered (failed StatusGatewayTimeout e)"] move [of ?s "AtLog req e"] safe RedisFailed
      by (auto simp: thread_safe_def failed_def)
  next
    case (AtLog req e)
    obtain err s1 where a: "appendWAL (Error e) req ?s = (err, s1)" by fastforce
    have "\<not> log_locked (replayer c)" "io_ok ?s" using assms(3,4) AtLog by (auto simp: publish_next_def at_log_def)
    note A = append_inv [OF assms(1,2) this AtLog a refl refl]
    show ?thesis using assms(3) AtLog a A by (cases err) (auto simp: publish_next_def split: if_splits)
  next
    case (Logged req)
    then show ?thesis
      using assms(3) safe move [of "incrementPublishQueued ?s"] by (auto simp: publish_next_def thread_safe_def covered_def Let_def)
  next
    case (RedisDone req eid)
    then show ?thesis
      using assms(3) safe move [of "incrementPublishSuccess ?s" "Answered (entry_outcome eid)"]
        move [of "incrementWALReplaySyncCall (incrementPublishSuccess ?s)" "AtReplay req eid"]
      by (auto simp: publish_next_def thread_safe_def covered_def entry_outcome_def Let_def split: if_splits)
  next
    case (AtReplay req eid)
    then show ?thesis
      using assms(3) safe move [of ?s "Answered (entry_outcome eid)"] start_replay_inv [OF assms(1,2) AtReplay _ refl]
      by (auto simp: publish_next_def thread_safe_def Let_def split: if_splits)
  next
    case Arrived
    then show ?thesis by (rule arrived_inv [OF assms(1,2) _ assms(3)])
  next
    case (AtRedis req)
    then show ?thesis by (rule at_redis_inv [OF assms(1,2) _ assms(3)])
  qed (use assms(3) in \<open>simp_all add: publish_next_def\<close>)
qed

text \<open>One line of the replay: its request is published, or the line remains.\<close>

lemma replay_line_safe:
  assumes "connected R H s" "replay_line (walJSON s) (replay_publish ctx s) limit token ((n, rem, proc), world s) = ((n', rem', proc'), w)"
    and "backlog s = pre @ nonblank (token # tokens)" "lines_handled (H (world s)) (walJSON s) pre n rem"
  shows "\<exists>pre'. backlog s = pre' @ nonblank tokens \<and> lines_handled (H w) (walJSON s) pre' n' rem'"
proof (cases "TrimSpace token = ''''")
  case True
  then show ?thesis using assms(2-4) by (auto simp: replay_line_def)
next
  case False
  let ?x = "TrimSpace token"
  have b: "backlog s = (pre @ [?x]) @ nonblank tokens" using assms(3) False by simp
  obtain e where "Unmarshal (walJSON s) ?x = Inr e \<and> replay_publish ctx s (eRequest e) (world s) = (None, w) \<and> n' = n + 1 \<and> rem' = rem \<or>
      H (world s) \<subseteq> H w \<and> n' = n \<and> rem' = rem @ [?x]"
    using assms(2) False replay_publish_records(1) [OF assms(1)]
    by (fastforce simp: replay_line_def Let_def split: if_splits sum.splits option.splits prod.splits)
  then have "lines_handled (H w) (walJSON s) (pre @ [?x]) n' rem'"
    using lines_handled_mono [OF assms(4)] lines_handled_keep lines_handled_publish replay_publish_records [OF assms(1)] by metis
  then show ?thesis using b by blast
qed

lemma replay_line_grows: "connected R H s \<Longrightarrow> replay_line (walJSON s) (replay_publish ctx s) limit token (vars, world s) = (vars', w) \<Longrightarrow> H (world s) \<subseteq> H w"
  using replay_publish_records(1)
  by (fastforce simp: replay_line_def Let_def split: if_splits sum.splits option.splits prod.splits)

lemma replay_quiet_inv:
  assumes "machine_inv R H cf J me mb c" "quiet H (side c) s'" "replayMu s' = replayMu (side c)" "replayer c \<noteq> ReplayIdle"
    and "r \<noteq> ReplayIdle" "replay_safe H s' r" "replay_owner r = replay_owner (replayer c)"
  shows "machine_inv R H cf J me mb (c\<lparr>side := s', replayer := r\<rparr>)"
  using assms machine_invD [OF assms(1)] thread_safe_quiet [OF assms(2)] side_inv_quiet [OF assms(2)] by (simp add: machine_inv_def)

lemma replay_open_inv:
  assumes "machine_inv R H cf J me mb c" "replay_next c = Some c'" "replayer c = ReplayWaiting ctx own"
  shows "machine_inv R H cf J me mb c'"
proof -
  let ?s = "side c"
  obtain r d where o: "replay_open (WALReplayBatch (cfg ?s)) (wal ?s) (disk ?s) = (r, d)" by fastforce
  have d: "content p d = content p (disk ?s)" for p
    using o content_OpenCreate by (auto simp: replay_open_def split: if_splits option.splits prod.splits)
  have "backlog ?s = nonblank tokens" if "r = Inr (tokens, None)" for tokens
  proof -
    have "scan_file replayScanLimit (wal_path (wal ?s)) d = (tokens, None)"
      using o that by (auto simp: replay_open_def split: if_splits option.splits prod.splits)
    from scan_file_None [OF this] show ?thesis by (simp add: wal_lines_def d)
  qed
  moreover have "c' = (case r of Inl (n, err) \<Rightarrow> c\<lparr>side := ?s\<lparr>disk := d\<rparr>, replayer := ReplayReturned own n err\<rparr>
      | Inr (tokens, scanErr) \<Rightarrow> c\<lparr>side := ?s\<lparr>disk := d\<rparr>, replayer := ReplayLoop ctx own tokens (0, [], True) scanErr\<rparr>)"
    using assms(2,3) o by (auto simp: replay_next_def split: sum.splits prod.splits)
  ultimately show ?thesis
    using replay_quiet_inv [OF assms(1) quiet_disk [OF d]] assms(3) quiet_keeps_log(2) [OF quiet_disk [OF d]]
    by (auto simp: lines_handled_def split: sum.splits prod.splits)
qed

lemma replay_line_inv:
  assumes "machine_inv R H cf J me mb c" "replay_next c = Some c'" "replayer c = ReplayLoop ctx own (token # tokens) (n, rem, proc) scanErr"
  shows "machine_inv R H cf J me mb c'"
proof -
  let ?s = "side c"
  note I = machine_invD [OF assms(1)]
  have conn: "connected R H ?s" using I(1) by (simp add: side_inv_def)
  obtain n' rem' proc' w where l: "replay_line (walJSON ?s) (replay_publish ctx ?s) (WALReplayBatch (cfg ?s)) token ((n, rem, proc), world ?s) = ((n', rem', proc'), w)"
    by (metis prod_cases4 prod.collapse)
  have q: "quiet H ?s (?s\<lparr>world := w\<rparr>)" by (rule quiet_world [OF replay_line_grows [OF conn l]])
  have "replay_safe H (?s\<lparr>world := w\<rparr>) (ReplayLoop ctx own tokens (n', rem', proc') scanErr)"
    using replay_line_safe [OF conn l] I(3) assms(3) quiet_keeps_log(2) [OF q] by auto
  from replay_quiet_inv [OF assms(1) q _ _ _ this] show ?thesis using assms(2,3) l by (simp add: replay_next_def)
qed

lemma replay_finish_inv:
  assumes "machine_inv R H cf J me mb c" "replay_next c = Some c'" "replayer c = ReplayLoop ctx own [] (n, rem, proc) scanErr"
  shows "machine_inv R H cf J me mb c'"
proof -
  let ?s = "side c"
  note I = machine_invD [OF assms(1)]
  have ok: "log_ok ?s" using I(1) by (simp add: side_inv_def)
  obtain m err l d where f: "replay_finish scanErr n rem (wal ?s) (disk ?s) = ((m, err), l, d)" by (metis prod_cases4 prod.collapse)
  have "scanErr = None \<Longrightarrow> lines_handled (H (world ?s)) (walJSON ?s) (backlog ?s) n rem" using I(3) assms(3) by auto
  note F = replay_finish_keeps [OF _ _ this f]
  let ?s' = "?s\<lparr>wal := l, disk := d\<rparr>"
  have kept: "log_kept H ?s ?s'" using F ok by (simp add: log_kept_def log_ok_def)
  then have cov: "covered H ?s r \<Longrightarrow> covered H ?s' r" for r using secured_log_kept [OF kept] by (simp add: covered_def)
  have c': "c' = c\<lparr>side := ?s', replayer := ReplayReturned own m err\<rparr>" using assms(2,3) f by (simp add: replay_next_def)
  have "side_inv R H cf J me mb ?s'" using I(1) kept by (simp add: side_inv_def log_kept_def connected_def)
  moreover have "thread_safe H ?s' t" if "t \<in> set (publishers c)" for t
    by (rule thread_safe_step [OF I(4) [OF that] _ cov]) simp
  ultimately show ?thesis using I(2,5) assms(3) by (simp add: machine_inv_def c')
qed

lemma replay_return_inv:
  assumes "machine_inv R H cf J me mb c" "replay_next c = Some c'" "replayer c = ReplayReturned own n err"
  shows "machine_inv R H cf J me mb c'"
proof -
  let ?s = "side c"
  note I = machine_invD [OF assms(1)]
  define s1 where "s1 = (case err of Some _ \<Rightarrow> incrementError ?s | None \<Rightarrow> if n > 0 then incrementWALReplayed (word_of_int n) ?s else ?s)"
  have q: "quiet H ?s (s1\<lparr>replayMu := False\<rparr>)" by (auto simp: s1_def split: option.splits)
  have c': "c' = c\<lparr>side := s1\<lparr>replayMu := False\<rparr>, replayer := ReplayIdle, publishers := return_to own (publishers c)\<rparr>"
    using assms(2,3) by (simp add: replay_next_def s1_def Let_def)
  have "thread_safe H ?s t" if "t \<in> set (return_to own (publishers c))" for t
  proof (cases "\<exists>i. own = Some i \<and> i < length (publishers c)")
    case True
    then obtain i where i: "own = Some i" "i < length (publishers c)" by blast
    have "thread_safe H ?s ((publishers c ! i)\<lparr>tPc := Answered (entry_outcome eid)\<rparr>)" if "tPc (publishers c ! i) = InReplay req eid" for req eid
      using I(4) [OF nth_mem [OF i(2)]] that by (simp add: thread_safe_def)
    then show ?thesis
      using that I(4) i set_update_subset_insert [of "publishers c" i] by (auto simp: return_to_def split: publish_pc.splits)
  next
    case False
    then have "return_to own (publishers c) = publishers c" by (auto simp: return_to_def list_update_beyond split: option.splits publish_pc.splits)
    then show ?thesis using that I(4) by simp
  qed
  moreover have "\<not> in_replay (return_to own (publishers c) ! j)" if "j < length (return_to own (publishers c))" for j
    using return_to_left [OF _ that] I(5) assms(3) by simp
  ultimately show ?thesis
    using I(1) side_inv_quiet [OF q] thread_safe_quiet [OF q] by (simp add: machine_inv_def c')
qed

lemma replay_next_inv:
  assumes "machine_inv R H cf J me mb c" "replay_next c = Some c'"
  shows "machine_inv R H cf J me mb c'"
proof (cases "replayer c")
  case ReplayIdle
  then show ?thesis using assms(2) by (simp add: replay_next_def)
next
  case (ReplayWaiting ctx own)
  then show ?thesis by (rule replay_open_inv [OF assms])
next
  case (ReplayLoop ctx own tokens vars scanErr)
  then show ?thesis using replay_line_inv [OF assms] replay_finish_inv [OF assms] by (cases tokens; cases vars) auto
next
  case (ReplayReturned own n err)
  then show ?thesis by (rule replay_return_inv [OF assms])
qed

lemma machine_step_inv:
  assumes "machine_step H c c'" "machine_inv R H cf J me mb c"
  shows "machine_inv R H cf J me mb c'"
  using assms(1)
proof cases
  case (arrive ctx req)
  then show ?thesis using assms(2) by (auto simp: machine_inv_def thread_safe_def in_replay_def nth_append)
next
  case (publisher_moves i)
  then show ?thesis using publish_next_inv [OF assms(2)] by blast
next
  case replayer_moves
  then show ?thesis using replay_next_inv [OF assms(2)] by blast
next
  case (background ctx)
  have q: "quiet H (side c) ((side c)\<lparr>replayMu := True\<rparr>)" by simp
  show ?thesis
    using background assms(2) side_inv_quiet [OF q] thread_safe_quiet [OF q] by (auto simp: machine_inv_def)
next
  case (others s')
  note q = quiet_soft [OF others(2)]
  show ?thesis
    using others assms(2) side_inv_quiet [OF q] thread_safe_quiet [OF q] replay_safe_quiet [OF q] softD(7) [OF others(2)] by (simp add: machine_inv_def)
next
  case (faults fs')
  have q: "quiet H (side c) ((side c)\<lparr>disk := fs'\<rparr>)" by (rule quiet_disk) (simp add: content_def faults(2))
  show ?thesis
    using faults assms(2) side_inv_quiet [OF q] thread_safe_quiet [OF q] replay_safe_quiet [OF q] by (simp add: machine_inv_def)
qed

end

interpretation machine: transition_system
  "\<lambda>c. side_inv R H cf J me mb (side c) \<and> \<not> replayMu (side c) \<and> replayer c = ReplayIdle \<and> publishers c = []" "machine_step H"
  "\<lambda>c. redis_history R H \<longrightarrow> machine_inv R H cf J me mb c"
  for R :: "'w redis" and H cf J me mb
  by unfold_locales (simp add: machine_inv_def, blast intro: redis_history.machine_step_inv)

definition machine_start :: "'w sidecar \<Rightarrow> 'w machine" where
  "machine_start s = \<lparr>side = s, replayer = ReplayIdle, publishers = []\<rparr>"

lemma machine_from_New:
  assumes "service_New c E = (Started v0, d)" "redis_history (redis (core v0)) H" "log_ok (core v0)"
    and "\<And>p. publishPipeline (core v0) = Some p \<Longrightarrow> pipeline_records H p" "(machine_step H)\<^sup>*\<^sup>* (machine_start (core v0)) m"
  shows "machine_inv (redis (core v0)) H c (envCodec E) (WALMaxEntries c) (WALMaxBytes c) m"
proof -
  from assms(1) obtain l where n: "wal_New (WALDir c) (Some \<lparr>MaxEntries = WALMaxEntries c, MaxBytes = WALMaxBytes c\<rparr>) (envDisk E) = (Inr l, d)"
    and v: "wal (core v0) = l" "cfg (core v0) = c" "walJSON (core v0) = envCodec E" "\<not> replayMu (core v0)"
      "publisher (core v0) = Publisher_Publish (redis (core v0)) (MaxStreamLen c)"
    by (rule service_New_started)
  have "side_inv (redis (core v0)) H c (envCodec E) (WALMaxEntries c) (WALMaxBytes c) (core v0)"
    using wal_New_Inr(4,5) [OF n] v assms(3,4) by (simp add: side_inv_def connected_def)
  then show ?thesis using machine.reachable_inv [OF _ assms(5)] v(4) assms(2) by (simp add: machine_start_def)
qed


section \<open>Progress\<close>

text \<open>The steps of the publishes and of the replay, without new requests, timers and interference.\<close>

definition work_step :: "'w machine \<Rightarrow> 'w machine \<Rightarrow> bool" where
  "work_step c c' \<longleftrightarrow> (\<exists>i<length (publishers c). publish_next i c = Some c') \<or> replay_next c = Some c'"

fun publish_rank :: "publish_pc \<Rightarrow> nat" where
  "publish_rank Arrived = 5"
| "publish_rank (AtRedis req) = 4"
| "publish_rank (RedisFailed req err) = 3"
| "publish_rank (RedisDone req eid) = 3"
| "publish_rank (AtLog req err) = 2"
| "publish_rank (AtReplay req eid) = 2"
| "publish_rank (Logged req) = 1"
| "publish_rank (InReplay req eid) = 1"
| "publish_rank (Answered po) = 0"

fun replay_rank :: "replay_pc \<Rightarrow> nat \<times> nat" where
  "replay_rank ReplayIdle = (0, 0)"
| "replay_rank (ReplayReturned own n err) = (1, 0)"
| "replay_rank (ReplayLoop ctx own tokens vars scanErr) = (2, length tokens)"
| "replay_rank (ReplayWaiting ctx own) = (3, 0)"

definition work_left :: "'w machine \<Rightarrow> nat \<times> nat \<times> nat" where
  "work_left c = (\<Sum>t\<leftarrow>publishers c. publish_rank (tPc t), replay_rank (replayer c))"

definition less_work :: "('w machine \<times> 'w machine) set" where
  "less_work = inv_image (less_than <*lex*> less_than <*lex*> less_than) work_left"

lemma sum_list_update_less:
  fixes f :: "'a \<Rightarrow> nat"
  assumes "i < length xs" "f y < f (xs ! i)"
  shows "sum_list (map f (xs[i := y])) < sum_list (map f xs)"
  using assms by (induction xs arbitrary: i) (auto split: nat.splits)

lemma thread_to_less:
  assumes "i < length (publishers c)" "publish_rank pc < publish_rank (tPc (publishers c ! i))"
  shows "(thread_to i pc s c, c) \<in> less_work" "((thread_to i pc s c)\<lparr>replayer := r\<rparr>, c) \<in> less_work"
  using sum_list_update_less [of i "publishers c" "\<lambda>t. publish_rank (tPc t)"] assms
  by (simp_all add: less_work_def work_left_def thread_to_def)

lemma publish_next_less:
  assumes "i < length (publishers c)" "publish_next i c = Some c'"
  shows "(c', c) \<in> less_work"
  using assms(2) thread_to_less [OF assms(1)]
  by (cases "tPc (publishers c ! i)")
    (auto simp: publish_next_def Let_def split: prod.splits option.splits sum.splits if_splits)

lemma return_to_rank: "(\<Sum>t\<leftarrow>return_to own ts. publish_rank (tPc t)) \<le> (\<Sum>t\<leftarrow>ts. publish_rank (tPc t))"
proof (cases "return_to own ts = ts")
  case False
  then obtain i req eid where i: "return_to own ts = ts[i := (ts ! i)\<lparr>tPc := Answered (entry_outcome eid)\<rparr>]" "tPc (ts ! i) = InReplay req eid"
    by (auto simp: return_to_def split: option.splits publish_pc.splits)
  then have "i < length ts" using False by (metis list_update_beyond not_less)
  then show ?thesis using sum_list_update_less [of i ts "\<lambda>t. publish_rank (tPc t)"] i by (simp add: less_imp_le)
qed simp

lemma replay_next_less:
  assumes "replay_next c = Some c'"
  shows "(c', c) \<in> less_work"
proof (cases "replayer c")
  case (ReplayLoop ctx own tokens vars scanErr)
  then show ?thesis
    using assms by (cases tokens; cases vars) (auto simp: replay_next_def Let_def less_work_def work_left_def split: prod.splits)
next
  case (ReplayReturned own n err)
  then show ?thesis
    using assms return_to_rank [of own "publishers c"] by (auto simp: replay_next_def Let_def less_work_def work_left_def)
qed (use assms in \<open>auto simp: replay_next_def Let_def less_work_def work_left_def split: prod.splits sum.splits\<close>)

lemma wf_less_work: "wf less_work"
  unfolding less_work_def by blast

lemma replay_next_enabled: "replayer c \<noteq> ReplayIdle \<Longrightarrow> \<exists>c'. replay_next c = Some c'"
  by (cases "(replayer c)"; cases "case replayer c of ReplayLoop ctx own tokens vars scanErr \<Rightarrow> tokens | _ \<Rightarrow> []")
    (auto simp: replay_next_def Let_def split: prod.splits sum.splits)

lemma publish_next_enabled:
  assumes "\<not> log_locked (replayer c)" "\<not> in_replay (publishers c ! i)" "\<forall>po. tPc (publishers c ! i) \<noteq> Answered po"
  shows "\<exists>c'. publish_next i c = Some c'"
  using assms
  by (cases "tPc (publishers c ! i)")
    (auto simp: publish_next_def in_replay_def Let_def split: prod.splits sum.splits option.splits)


lemma work_ends: "\<not> (\<forall>k. work_step (run k) (run (Suc k)))"
  using wf_less_work publish_next_less replay_next_less unfolding wf_iff_no_infinite_down_chain work_step_def by metis

text \<open>Who holds the locks; this needs nothing of Redis or the disk.\<close>

definition locks_inv :: "'w machine \<Rightarrow> bool" where
  "locks_inv c \<longleftrightarrow> (replayMu (side c) \<longleftrightarrow> replayer c \<noteq> ReplayIdle) \<and>
     (\<forall>i<length (publishers c). in_replay (publishers c ! i) \<longrightarrow> replay_owner (replayer c) = Some i)"

lemma thread_to_locks:
  assumes "locks_inv c" "i < length (publishers c)" "replayMu s = replayMu (side c)" "\<And>r eid. pc \<noteq> InReplay r eid"
  shows "locks_inv (thread_to i pc s c)"
  using assms by (auto simp: locks_inv_def thread_to_def nth_list_update in_replay_def split: publish_pc.splits)

lemma publish_next_locks:
  assumes "locks_inv c" "i < length (publishers c)" "publish_next i c = Some c'"
  shows "locks_inv c'"
proof -
  have n: "replayMu s' = replayMu (side c)" if "normalizePublishRequest req st (side c) = (r, s')" for req st r s'
    using that by (auto simp: normalizePublishRequest_def Let_def split: option.splits if_splits)
  have p: "replayMu s' = replayMu (side c)" if "publishToRedis ctx req (side c) = (r, s')" for ctx req r s'
    using publishToRedis_frame [OF that] by (simp add: publish_frameD)
  have a: "replayMu s' = replayMu (side c)" if "appendWAL reason req (side c) = (r, s')" for reason req r s'
    using that by (auto simp: appendWAL_def split: prod.splits)
  show ?thesis
  proof (cases "tPc (publishers c ! i)")
    case (AtReplay req eid)
    then show ?thesis
      using assms
      by (auto simp: publish_next_def Let_def locks_inv_def thread_to_def nth_list_update split: if_splits) (auto simp: in_replay_def)
  qed (use assms(3) n p a in \<open>auto simp: publish_next_def Let_def intro!: thread_to_locks [OF assms(1,2)]
      split: prod.splits sum.splits option.splits if_splits\<close>)
qed

lemma replay_next_locks:
  assumes "locks_inv c" "replay_next c = Some c'"
  shows "locks_inv c'"
proof (cases "replayer c")
  case (ReplayLoop ctx own tokens vars scanErr)
  then show ?thesis using assms by (cases tokens; cases vars) (auto simp: replay_next_def locks_inv_def Let_def split: prod.splits)
next
  case (ReplayReturned own n err)
  then show ?thesis
    using assms return_to_left [of "publishers c" own] by (auto simp: replay_next_def locks_inv_def Let_def)
qed (use assms in \<open>auto simp: replay_next_def locks_inv_def Let_def split: prod.splits sum.splits\<close>)

lemma machine_step_locks:
  assumes "machine_step H c c'" "locks_inv c"
  shows "locks_inv c'"
  using assms
proof cases
  case (arrive ctx req)
  then show ?thesis using assms(2) by (auto simp: locks_inv_def in_replay_def nth_append)
next
  case (background ctx)
  then show ?thesis using assms(2) by (auto simp: locks_inv_def)
next
  case (others s')
  then show ?thesis using assms(2) softD(7) [OF others(2)] by (simp add: locks_inv_def)
next
  case (faults fs')
  then show ?thesis using assms(2) by (simp add: locks_inv_def)
qed (use assms(2) publish_next_locks replay_next_locks in blast)+

interpretation locks: transition_system "\<lambda>c. \<not> replayMu (side c) \<and> replayer c = ReplayIdle \<and> publishers c = []" "machine_step H" locks_inv for H
  by unfold_locales (simp add: locks_inv_def, blast intro: machine_step_locks)

lemma stuck_answered:
  assumes "locks_inv c" "\<nexists>c'. work_step c c'"
  shows "replayer c = ReplayIdle" "t \<in> set (publishers c) \<Longrightarrow> \<exists>po. tPc t = Answered po"
proof -
  show idle: "replayer c = ReplayIdle" using assms(2) replay_next_enabled unfolding work_step_def by blast
  assume "t \<in> set (publishers c)"
  then obtain i where i: "i < length (publishers c)" "t = publishers c ! i" by (metis in_set_conv_nth)
  have "\<not> in_replay t" using assms(1) i idle by (auto simp: locks_inv_def)
  then show "\<exists>po. tPc t = Answered po"
    using publish_next_enabled [of c i] idle i assms(2) unfolding work_step_def by auto
qed

text \<open>C3. Every publish is answered: the locks (\<open>replayMu\<close> and the mutex of the log) admit no deadlock and no livelock.  From every state the
  running service can reach, publishes and replay stop moving after finitely many steps under every schedule of them, whatever Redis and the
  file system answer, and they stop only when every request is answered and no replay is running.\<close>

theorem publishes_answered:
  assumes "service_New c E = (Started v0, d)" "(machine_step H)\<^sup>*\<^sup>* (machine_start (core v0)) m" "work_step\<^sup>*\<^sup>* m m'"
  shows "\<not> (\<exists>run. run 0 = m' \<and> (\<forall>k. work_step (run k) (run (Suc k)))) \<and>
    ((\<nexists>m''. work_step m' m'') \<longrightarrow> replayer m' = ReplayIdle \<and> (\<forall>t\<in>set (publishers m'). \<exists>po. tPc t = Answered po))"
proof -
  have "\<not> replayMu (core v0)" by (rule service_New_started [OF assms(1)])
  then have "locks_inv m" using locks.reachable_inv [OF _ assms(2)] by (simp add: machine_start_def)
  with assms(3) have "locks_inv m'"
    by (induction rule: rtranclp_induct) (use publish_next_locks replay_next_locks in \<open>auto simp: work_step_def\<close>)
  then show ?thesis using stuck_answered work_ends by blast
qed


section \<open>Schedules without preemption\<close>

lemma replay_publish_side [simp]:
  "replay_publish ctx (s\<lparr>world := w\<rparr>) = replay_publish ctx s" "replay_publish ctx (s\<lparr>disk := d\<rparr>) = replay_publish ctx s"
  "replay_publish ctx (s\<lparr>replayMu := b\<rparr>) = replay_publish ctx s"
  by (simp_all add: replay_publish_def fun_eq_iff)

lemma replayMu_outside:
  "on_collector f (s\<lparr>replayMu := b\<rparr>) = (on_collector f s)\<lparr>replayMu := b\<rparr>"
  "s\<lparr>replayMu := b, disk := d\<rparr> = s\<lparr>disk := d, replayMu := b\<rparr>"
  "s\<lparr>replayMu := b, world := w\<rparr> = s\<lparr>world := w, replayMu := b\<rparr>"
  "s\<lparr>replayMu := b, wal := l\<rparr> = s\<lparr>wal := l, replayMu := b\<rparr>"
  "s\<lparr>disk := d, wal := l\<rparr> = s\<lparr>wal := l, disk := d\<rparr>"
  "s\<lparr>disk := d, world := w\<rparr> = s\<lparr>world := w, disk := d\<rparr>"
  "s\<lparr>world := w, wal := l\<rparr> = s\<lparr>wal := l, world := w\<rparr>"
  by (cases s; simp add: on_collector_def)+

lemma replay_loop_steps:
  assumes "fold (replay_line (walJSON (side c)) (replay_publish ctx (side c)) (WALReplayBatch (cfg (side c)))) tokens (vars, world (side c)) = (vars', w)"
    and "replayer c = ReplayLoop ctx own tokens vars scanErr"
  shows "(machine_step H)\<^sup>*\<^sup>* c (c\<lparr>side := (side c)\<lparr>world := w\<rparr>, replayer := ReplayLoop ctx own [] vars' scanErr\<rparr>)"
  using assms
proof (induction tokens arbitrary: c vars)
  case (Cons token tokens)
  obtain vars1 w1 where l: "replay_line (walJSON (side c)) (replay_publish ctx (side c)) (WALReplayBatch (cfg (side c))) token (vars, world (side c)) = (vars1, w1)"
    by fastforce
  let ?c = "c\<lparr>side := (side c)\<lparr>world := w1\<rparr>, replayer := ReplayLoop ctx own tokens vars1 scanErr\<rparr>"
  have "machine_step H c ?c" by (rule replayer_moves) (simp add: replay_next_def Cons.prems(2) l)
  moreover have "(machine_step H)\<^sup>*\<^sup>* ?c (?c\<lparr>side := (side ?c)\<lparr>world := w\<rparr>, replayer := ReplayLoop ctx own [] vars' scanErr\<rparr>)"
    by (rule Cons.IH) (use Cons.prems(1) l in simp_all)
  ultimately show ?case by (simp add: converse_rtranclp_into_rtranclp)
next
  case Nil
  then have "c\<lparr>side := (side c)\<lparr>world := w\<rparr>, replayer := ReplayLoop ctx own [] vars' scanErr\<rparr> = c"
    by (cases c; cases "side c") simp
  then show ?case by simp
qed

lemma replay_steps:
  assumes "replayer c = ReplayWaiting ctx own" "WALReplayBatch (cfg (side c)) \<noteq> 0"
  shows "(machine_step H)\<^sup>*\<^sup>* c (c\<lparr>side := replayWAL ctx ((side c)\<lparr>replayMu := False\<rparr>), replayer := ReplayIdle, publishers := return_to own (publishers c)\<rparr>)"
proof -
  let ?s = "side c" and ?steps = "(machine_step H)\<^sup>*\<^sup>*"
  have return: "?steps c' (c'\<lparr>side := (case err of Some _ \<Rightarrow> incrementError (side c')
        | None \<Rightarrow> if n > 0 then incrementWALReplayed (word_of_int n) (side c') else side c')\<lparr>replayMu := False\<rparr>,
      replayer := ReplayIdle, publishers := return_to own (publishers c')\<rparr>)"
    if "replayer c' = ReplayReturned own n err" for c' n err
    by (rule r_into_rtranclp, rule replayer_moves) (simp add: replay_next_def that Let_def)
  obtain r d where o: "replay_open (WALReplayBatch (cfg ?s)) (wal ?s) (disk ?s) = (r, d)" by fastforce
  show ?thesis
  proof (cases r)
    case (Inl ne)
    obtain n err where ne: "ne = (n, err)" by fastforce
    have "?steps c (c\<lparr>side := ?s\<lparr>disk := d\<rparr>, replayer := ReplayReturned own n err\<rparr>)"
      by (rule r_into_rtranclp, rule replayer_moves) (simp add: replay_next_def assms(1) o Inl ne)
    note rtranclp_trans [OF this return]
    then show ?thesis using o Inl ne assms(2)
      by (cases err) (simp_all add: replayWAL_def wal_Replay_steps Let_def replayMu_outside split: if_split_asm)
  next
    case (Inr te)
    obtain tokens scanErr where te: "te = (tokens, scanErr)" by fastforce
    obtain n rem proc w where f: "fold (replay_line (walJSON ?s) (replay_publish ctx ?s) (WALReplayBatch (cfg ?s))) tokens ((0, [], True), world ?s) = ((n, rem, proc), w)"
      by (metis prod_cases4 prod.collapse)
    obtain m err l d' where g: "replay_finish scanErr n rem (wal ?s) d = ((m, err), l, d')" by (metis prod_cases4 prod.collapse)
    let ?c1 = "c\<lparr>side := ?s\<lparr>disk := d\<rparr>, replayer := ReplayLoop ctx own tokens (0, [], True) scanErr\<rparr>"
    let ?c2 = "?c1\<lparr>side := (side ?c1)\<lparr>world := w\<rparr>, replayer := ReplayLoop ctx own [] (n, rem, proc) scanErr\<rparr>"
    let ?c3 = "?c2\<lparr>side := (side ?c2)\<lparr>wal := l, disk := d'\<rparr>, replayer := ReplayReturned own m err\<rparr>"
    have s1: "?steps c ?c1" by (rule r_into_rtranclp, rule replayer_moves) (simp add: replay_next_def assms(1) o Inr te)
    have s2: "?steps ?c1 ?c2" by (rule replay_loop_steps) (use f in simp_all)
    have s3: "?steps ?c2 ?c3" by (rule r_into_rtranclp, rule replayer_moves) (simp add: replay_next_def g)
    note rtranclp_trans [OF s1 rtranclp_trans [OF s2 rtranclp_trans [OF s3 return]]]
    then show ?thesis using o Inr te f g assms(2)
      by (cases err) (simp_all add: replayWAL_def wal_Replay_steps Let_def replayMu_outside split: if_split_asm)
  qed
qed


lemma publisher_step:
  assumes "publish_next i c = Some c'" "i < length (publishers c)" "at_log i c \<longrightarrow> io_ok (side c)" "(machine_step H)\<^sup>*\<^sup>* c' m"
  shows "(machine_step H)\<^sup>*\<^sup>* c m"
  using publisher_moves [OF assms(2,1,3)] assms(4) by (rule converse_rtranclp_into_rtranclp)

text \<open>The machine with one more publish, the last in the list.\<close>

definition joined :: "'w machine \<Rightarrow> ctx \<Rightarrow> PublishRequest \<Rightarrow> publish_pc \<Rightarrow> 'w sidecar \<Rightarrow> 'w machine" where
  "joined c ctx raw pc s = c\<lparr>side := s, publishers := publishers c @ [\<lparr>tCtx = ctx, tRaw = raw, tPc = pc\<rparr>]\<rparr>"

lemma joined_simps [simp]:
  "side (joined c ctx raw pc s) = s" "replayer (joined c ctx raw pc s) = replayer c" "length (publishers (joined c ctx raw pc s)) = Suc (length (publishers c))"
  "publishers (joined c ctx raw pc s) ! length (publishers c) = \<lparr>tCtx = ctx, tRaw = raw, tPc = pc\<rparr>"
  "thread_to (length (publishers c)) pc' s' (joined c ctx raw pc s) = joined c ctx raw pc' s'"
  by (simp_all add: joined_def thread_to_def)

lemma joined_step:
  assumes "publish_next (length (publishers c)) (joined c ctx raw pc s) = Some c'" "\<And>req err. pc = AtLog req err \<Longrightarrow> io_ok s"
    and "(machine_step H)\<^sup>*\<^sup>* c' m"
  shows "(machine_step H)\<^sup>*\<^sup>* (joined c ctx raw pc s) m"
  by (rule publisher_step [OF assms(1) _ _ assms(3)]) (use assms(2) in \<open>auto simp: at_log_def split: publish_pc.splits\<close>)

lemma after_success_steps:
  assumes "replayer c = ReplayIdle" "\<not> replayMu s"
    and "s' = (if WALReplayMode (cfg s) = WALReplayModeSyncOnSuccess then replayWAL ctx (incrementWALReplaySyncCall (incrementPublishSuccess s))
               else incrementPublishSuccess s)"
  shows "(machine_step H)\<^sup>*\<^sup>* (joined c ctx raw (RedisDone req eid) s) (joined c ctx raw (Answered (entry_outcome eid)) s')"
proof (cases "WALReplayMode (cfg s) = WALReplayModeSyncOnSuccess")
  case False
  then show ?thesis using assms by (intro joined_step [OF _ _ rtranclp.rtrancl_refl]) (simp_all add: publish_next_def Let_def)
next
  case True
  let ?i = "length (publishers c)" and ?s1 = "incrementWALReplaySyncCall (incrementPublishSuccess s)"
  have e1: "publish_next ?i (joined c ctx raw (RedisDone req eid) s) = Some (joined c ctx raw (AtReplay req eid) ?s1)"
    using True by (simp add: publish_next_def Let_def)
  have "(machine_step H)\<^sup>*\<^sup>* (joined c ctx raw (AtReplay req eid) ?s1) (joined c ctx raw (Answered (entry_outcome eid)) s')"
  proof (cases "WALReplayBatch (cfg s) = 0")
    case batch: True
    then show ?thesis using True assms(3) by (intro joined_step [OF _ _ rtranclp.rtrancl_refl]) (simp_all add: publish_next_def replayWAL_def)
  next
    case False
    let ?c = "(joined c ctx raw (InReplay req eid) (?s1\<lparr>replayMu := True\<rparr>))\<lparr>replayer := ReplayWaiting ctx (Some ?i)\<rparr>"
    have "?s1\<lparr>replayMu := False\<rparr> = ?s1" using assms(2) by (cases s) (simp add: on_collector_def)
    then have "(machine_step H)\<^sup>*\<^sup>* ?c (joined c ctx raw (Answered (entry_outcome eid)) s')"
      using replay_steps [of ?c ctx "Some ?i" H] True False assms(1,3) by (simp add: return_to_def) (cases c, simp add: joined_def)
    moreover have "publish_next ?i (joined c ctx raw (AtReplay req eid) ?s1) = Some ?c"
      using False assms(2) by (simp add: publish_next_def)
    ultimately show ?thesis using joined_step by blast
  qed
  from joined_step [OF e1 _ this] show ?thesis by simp
qed

lemma publish_steps:
  assumes "replayer c = ReplayIdle" "\<not> replayMu (side c)" "publishInternal ctx raw (side c) = (po, s')" "io_ok (side c)"
  shows "(machine_step H)\<^sup>*\<^sup>* (joined c ctx raw Arrived (side c)) (joined c ctx raw (Answered po) s')"
proof -
  let ?i = "length (publishers c)" and ?at = "joined c ctx raw"
  note edge = publish_next_def Let_def assms(1)
  have to_redis: "(machine_step H)\<^sup>*\<^sup>* (?at Arrived (side c)) m"
    if "normalizePublishRequest raw '''' (side c) = ((req, code, None), side c)" "(machine_step H)\<^sup>*\<^sup>* (?at (AtRedis req) (side c)) m" for req code m
    by (rule joined_step [OF _ _ that(2)]) (simp_all add: edge that(1))
  have to_failed: "(machine_step H)\<^sup>*\<^sup>* (?at (AtRedis req) (side c)) m"
    if "publishToRedis (publishRedisContext ctx) req (side c) = (Inl err, s2)" "(machine_step H)\<^sup>*\<^sup>* (?at (RedisFailed req err) s2) m" for req err s2 m
    by (rule joined_step [OF _ _ that(2)]) (simp_all add: edge that(1))
  have to_log: "(machine_step H)\<^sup>*\<^sup>* (?at (RedisFailed req err) s2) m"
    if "\<not> shouldSkipWALForPublishError (CtxErr (redis s2) ctx (world s2)) err" "(machine_step H)\<^sup>*\<^sup>* (?at (AtLog req err) s2) m" for req err s2 m
    by (rule joined_step [OF _ _ that(2)]) (simp_all add: edge that(1))
  have io: "io_ok s2" if "publishToRedis ctx' req (side c) = (r, s2)" for ctx' req r s2
    using publishToRedis_frame [OF that] assms(4) by (simp add: publish_frameD io_ok_def)
  note last = joined_step [OF _ _ rtranclp.rtrancl_refl]
  show ?thesis
    using assms(3)
  proof (cases rule: publishInternal_cases)
    case (rejected req code err)
    show ?thesis by (rule last) (simp_all add: edge rejected)
  next
    case (published req code eid s2)
    have "\<not> replayMu s2" "cfg s2 = cfg (side c)" using publishToRedis_frame [OF published(2)] assms(2) by (simp_all add: publish_frameD)
    then have "(machine_step H)\<^sup>*\<^sup>* (?at (RedisDone req eid) s2) (?at (Answered po) s')"
      using after_success_steps [OF assms(1), of s2 s' ctx H raw req eid] published(3,4) by (simp add: entry_outcome_def)
    then have "(machine_step H)\<^sup>*\<^sup>* (?at (AtRedis req) (side c)) (?at (Answered po) s')"
      using published(2) by (intro joined_step) (simp_all add: edge)
    then show ?thesis by (rule to_redis [OF published(1)])
  next
    case (abandoned req code err s2)
    show ?thesis by (rule to_redis [OF abandoned(1)], rule to_failed [OF abandoned(2)], rule last) (simp_all add: edge abandoned)
  next
    case (refused req code err s2 appendErr s3)
    show ?thesis
      by (rule to_redis [OF refused(1)], rule to_failed [OF refused(2)], rule to_log [OF refused(3)], rule last)
        (simp_all add: edge refused io [OF refused(2)])
  next
    case (queued req code err s2 s3)
    have "(machine_step H)\<^sup>*\<^sup>* (?at (Logged req) s3) (?at (Answered po) s')" by (rule last) (simp_all add: edge queued)
    then have "(machine_step H)\<^sup>*\<^sup>* (?at (AtLog req err) s2) (?at (Answered po) s')"
      using io [OF queued(2)] by (intro joined_step) (simp_all add: edge queued(4))
    then show ?thesis by (rule to_redis [OF queued(1) to_failed [OF queued(2) to_log [OF queued(3)]]])
  qed
qed



section \<open>Witnesses\<close>

text \<open>The sample service answers a publish while a second one has just arrived.\<close>

definition sample_threads :: "publish_outcome \<Rightarrow> publish_thread list" where
  "sample_threads po =
     [\<lparr>tCtx = RequestCtx, tRaw = sample_req ''a'', tPc = Answered po\<rparr>, \<lparr>tCtx = RequestCtx, tRaw = sample_req ''b'', tPc = Arrived\<rparr>]"

lemma sample_machine:
  obtains v d po s' where "service_New sample_cfg sample_environment = (Started v, d)" "redis (core v) = mem_redis" "cfg (core v) = sample_cfg"
    "publishPipeline (core v) = None" "log_ok (core v)" "io_ok (core v)" "publishInternal RequestCtx (sample_req ''a'') (core v) = (po, s')" "poErr po = None"
    "(machine_step mem_history)\<^sup>*\<^sup>* (machine_start (core v)) \<lparr>side = s', replayer = ReplayIdle, publishers = take 1 (sample_threads po)\<rparr>"
    "(machine_step mem_history)\<^sup>*\<^sup>* (machine_start (core v)) \<lparr>side = s', replayer = ReplayIdle, publishers = sample_threads po\<rparr>"
proof -
  obtain v d where n: "service_New sample_cfg sample_environment = (Started v, d)"
    and r: "redis (core v) = mem_redis" "world (core v) = mem_empty" "cfg (core v) = sample_cfg" "publishPipeline (core v) = None"
      "publisher (core v) = Publisher_Publish mem_redis 1000" "log_ok (core v)" "io_ok (core v)"
    by (rule sample_service)
  obtain po s' where p: "publishInternal RequestCtx (sample_req ''a'') (core v) = (po, s')" "poErr po = None"
    by (rule service_publish [OF r(1-5)])
  have mu: "\<not> replayMu (core v)" by (rule service_New_started [OF n])
  let ?c = "machine_start (core v)"
  let ?m = "joined ?c RequestCtx (sample_req ''a'') (Answered po) s'"
  have "machine_step mem_history ?c (joined ?c RequestCtx (sample_req ''a'') Arrived (core v))"
    using arrive [of mem_history ?c RequestCtx "sample_req ''a''"] by (simp add: joined_def machine_start_def)
  moreover have "(machine_step mem_history)\<^sup>*\<^sup>* (joined ?c RequestCtx (sample_req ''a'') Arrived (core v)) ?m"
    using publish_steps [of ?c RequestCtx "sample_req ''a''" po s' mem_history] p(1) mu r(7) by (simp add: machine_start_def)
  ultimately have first: "(machine_step mem_history)\<^sup>*\<^sup>* ?c ?m" by simp
  moreover have "?m = \<lparr>side = s', replayer = ReplayIdle, publishers = take 1 (sample_threads po)\<rparr>"
    by (simp add: joined_def machine_start_def sample_threads_def)
  moreover have "machine_step mem_history ?m \<lparr>side = s', replayer = ReplayIdle, publishers = sample_threads po\<rparr>"
    using arrive [of mem_history ?m RequestCtx "sample_req ''b''"] by (simp add: joined_def machine_start_def sample_threads_def)
  ultimately show thesis using that [OF n r(1,3,4,6,7) p] by (metis rtranclp.rtrancl_into_rtrancl)
qed


theorem publishes_answered_witness:
  "\<exists>v d m. service_New sample_cfg sample_environment = (Started v, d) \<and> (machine_step mem_history)\<^sup>*\<^sup>* (machine_start (core v)) m \<and>
     length (publishers m) = 1 \<and> (\<forall>t\<in>set (publishers m). \<exists>po. tPc t = Answered po)"
proof -
  obtain v d po s' where n: "service_New sample_cfg sample_environment = (Started v, d)"
    and m: "(machine_step mem_history)\<^sup>*\<^sup>* (machine_start (core v)) \<lparr>side = s', replayer = ReplayIdle, publishers = take 1 (sample_threads po)\<rparr>"
    by (rule sample_machine)
  have "\<nexists>m''. work_step \<lparr>side = s', replayer = ReplayIdle, publishers = take 1 (sample_threads po)\<rparr> m''"
    by (simp add: work_step_def replay_next_def publish_next_def sample_threads_def)
  with publishes_answered [OF n m rtranclp.rtrancl_refl] n m show ?thesis by (auto simp: sample_threads_def)
qed


end
